(* ===== verification/Prelude.thy ===== *)
theory Prelude
  imports Main "HOL-Library.Word" "HOL-Library.Monad_Syntax"
begin

text \<open>
  Shared vocabulary of the development.

  \<^item> Names for the machine integer types of the source.
  \<^item> Panicking computations.  A Rust function that can panic (a failed \<^verbatim>\<open>assert!\<close>, an
    \<^verbatim>\<open>unwrap\<close> of nothing, an index out of range, an arithmetic overflow) is modelled by a
    function into \<open>'a option\<close>, where \<open>None\<close> is the panic and \<open>Some v\<close> a normal return
    of \<open>v\<close>.  The \<open>do\<close> notation of \<^verbatim>\<open>Monad_Syntax\<close> sequences such computations.
    Plain \<open>+\<close>, \<open>-\<close> and \<open>*\<close> on machine integers panic on overflow, as they do in the
    profile with overflow checks; atomic read-modify-write operations wrap, as they
    always do.
  \<^item> A Rust \<^verbatim>\<open>Result<T, E>\<close> is the sum \<open>'e + 't\<close> with \<open>Inl\<close> for the error.
  \<^item> The collection \<open>exec_simps\<close> that evaluates and inverts panicking computations.
\<close>

unbundle bit_operations_syntax

section \<open>Machine integers\<close>

type_synonym u8 = "8 word"
type_synonym u16 = "16 word"
type_synonym u32 = "32 word"
type_synonym u64 = "64 word"
type_synonym usize = "64 word"
type_synonym objid = "128 word"

section \<open>Panicking computations\<close>

named_theorems exec_simps

abbreviation panic :: "'a option" where
  "panic \<equiv> None"

definition assert_that :: "bool \<Rightarrow> unit option" where
  "assert_that b = (if b then Some () else None)"

definition checked_add :: "'a::len word \<Rightarrow> 'a word \<Rightarrow> 'a word option" where
  "checked_add a b = (if unat a + unat b < 2 ^ LENGTH('a) then Some (a + b) else None)"

definition checked_sub :: "'a::len word \<Rightarrow> 'a word \<Rightarrow> 'a word option" where
  "checked_sub a b = (if b \<le> a then Some (a - b) else None)"

definition saturating_sub :: "'a::len word \<Rightarrow> 'a word \<Rightarrow> 'a word" where
  "saturating_sub a b = (if b \<le> a then a - b else 0)"

definition is_power_of_two :: "'a::len word \<Rightarrow> bool" where
  "is_power_of_two a \<longleftrightarrow> a \<in> set (map (\<lambda>k. 2 ^ k) [0..<LENGTH('a)])"

lemma assert_that_Some [exec_simps, simp]: "assert_that b = Some u \<longleftrightarrow> b"
  by (simp add: assert_that_def)

lemma assert_that_None [exec_simps, simp]: "assert_that b = None \<longleftrightarrow> \<not> b"
  by (simp add: assert_that_def)

lemma assert_that_bind [exec_simps, simp]:
  "Option.bind (assert_that b) f = (if b then f () else None)"
  by (simp add: assert_that_def)

primrec foldM :: "('a \<Rightarrow> 's \<Rightarrow> 's option) \<Rightarrow> 'a list \<Rightarrow> 's \<Rightarrow> 's option" where
  "foldM f [] s = Some s"
| "foldM f (x # xs) s = Option.bind (f x s) (foldM f xs)"

lemma foldM_append [simp]: "foldM f (xs @ ys) s = Option.bind (foldM f xs s) (foldM f ys)"
  by (induction xs arbitrary: s) (auto simp: Option.bind_assoc intro: Option.bind_cong)

lemma bind_Some_iff [exec_simps]:
  "Option.bind m f = Some y \<longleftrightarrow> (\<exists>x. m = Some x \<and> f x = Some y)"
  by (cases m) auto

lemma bind_None_iff [exec_simps]:
  "Option.bind m f = None \<longleftrightarrow> m = None \<or> (\<exists>x. m = Some x \<and> f x = None)"
  by (cases m) auto

lemma unat_word_less: "unat (a :: 'a::len word) < 2 ^ LENGTH('a)"
  by (rule unsigned_less)

lemma unat_mask: "unat (mask n :: 'a::len word) = mask (min LENGTH('a) n)"
  by transfer (simp add: nat_mask_eq)

lemma unat_NOT: "unat (NOT a) = 2 ^ LENGTH('a) - 1 - unat a" for a :: "'a::len word"
proof -
  have "NOT a = - 1 - a" by (simp add: not_eq_complement)
  moreover have "unat (- 1 - a) = unat (- 1 :: 'a word) - unat a"
    by (rule unat_sub) simp
  ultimately show ?thesis by (simp add: unsigned_minus_1_eq_mask mask_eq_exp_minus_1)
qed

lemma unat_and_not_mask: "unat (a AND NOT (mask k)) = unat a div 2 ^ k * 2 ^ k"
  for a :: "'a::len word"
proof -
  have "a AND NOT (mask k) = push_bit k (drop_bit k a)"
    by (simp add: bit_eq_iff bit_simps) (auto dest: bit_imp_le_length)
  then have "unat (a AND NOT (mask k)) = take_bit LENGTH('a) (push_bit k (drop_bit k (unat a)))"
    using unat_word_less [of a]
    by (simp add: unsigned_push_bit_eq unsigned_drop_bit_eq take_bit_nat_eq_self)
  also have "push_bit k (drop_bit k (unat a)) = unat a div 2 ^ k * 2 ^ k"
    by (simp add: push_bit_eq_mult drop_bit_eq_div)
  also have "take_bit LENGTH('a) (unat a div 2 ^ k * 2 ^ k) = unat a div 2 ^ k * 2 ^ k"
    by (rule take_bit_nat_eq_self) (rule le_less_trans [OF div_times_less_eq_dividend unat_word_less])
  finally show ?thesis .
qed

lemma map_eqI: "(\<And>k v. m k = Some v \<longleftrightarrow> m' k = Some v) \<Longrightarrow> m = m'"
  by (rule ext) (metis not_Some_eq)

lemma unat_pow2:
  assumes "k < LENGTH('a)"
  shows "unat (2 ^ k :: 'a::len word) = 2 ^ k"
proof -
  have "(2 ^ k :: 'a word) = word_of_nat (2 ^ k)" by simp
  then show ?thesis using assms by (simp only: unat_of_nat) simp
qed

lemma is_power_of_two_iff: "is_power_of_two a \<longleftrightarrow> (\<exists>k < LENGTH('a). a = 2 ^ k)"
  for a :: "'a::len word"
  by (auto simp: is_power_of_two_def)

lemma checked_add_Some_iff:
  "checked_add a b = Some c \<longleftrightarrow> unat c = unat a + unat b" for a b c :: "'a::len word"
proof
  assume "checked_add a b = Some c"
  then show "unat c = unat a + unat b"
    by (auto simp: checked_add_def unat_word_ariths split: if_splits)
next
  assume c: "unat c = unat a + unat b"
  then have "unat a + unat b < 2 ^ LENGTH('a)"
    using unat_word_less [of c] by simp
  moreover from this c have "a + b = c"
    by (simp add: word_unat_eq_iff unat_word_ariths)
  ultimately show "checked_add a b = Some c"
    by (simp add: checked_add_def)
qed

lemma checked_add_None_iff:
  "checked_add a b = None \<longleftrightarrow> 2 ^ LENGTH('a) \<le> unat a + unat b" for a b :: "'a::len word"
  by (auto simp: checked_add_def)

lemma checked_sub_Some_iff:
  "checked_sub a b = Some c \<longleftrightarrow> unat b \<le> unat a \<and> unat c = unat a - unat b"
  for a b c :: "'a::len word"
  by (auto simp: checked_sub_def word_le_nat_alt unat_sub word_unat_eq_iff split: if_splits)

lemma checked_sub_None_iff: "checked_sub a b = None \<longleftrightarrow> a < b"
  by (auto simp: checked_sub_def)

lemma unat_saturating_sub: "unat (saturating_sub a b) = unat a - unat b"
  by (simp add: saturating_sub_def unat_sub word_le_nat_alt)

lemmas checked_iffs [exec_simps] =
  checked_add_Some_iff checked_add_None_iff checked_sub_Some_iff checked_sub_None_iff

section \<open>Sizes as natural numbers\<close>

text \<open>A \<^verbatim>\<open>usize\<close> that is only counted or used as an index is a natural number; its operations panic on overflow.\<close>

definition usize_add :: "nat \<Rightarrow> nat \<Rightarrow> nat option" where
  "usize_add a b = (if a + b < 2 ^ 64 then Some (a + b) else None)"

definition usize_sub :: "nat \<Rightarrow> nat \<Rightarrow> nat option" where
  "usize_sub a b = (if b \<le> a then Some (a - b) else None)"

definition usize_mul :: "nat \<Rightarrow> nat \<Rightarrow> nat option" where
  "usize_mul a b = (if a * b < 2 ^ 64 then Some (a * b) else None)"

definition index_at :: "'a list \<Rightarrow> nat \<Rightarrow> 'a option" where
  "index_at xs i = (if i < length xs then Some (xs ! i) else None)"

lemma usize_iffs [exec_simps]:
  "usize_add a b = Some c \<longleftrightarrow> c = a + b \<and> a + b < 2 ^ 64"
  "usize_sub a b = Some c \<longleftrightarrow> c = a - b \<and> b \<le> a"
  "usize_mul a b = Some c \<longleftrightarrow> c = a * b \<and> a * b < 2 ^ 64"
  "index_at xs i = Some x \<longleftrightarrow> i < length xs \<and> x = xs ! i"
  by (auto simp: usize_add_def usize_sub_def usize_mul_def index_at_def)

section \<open>Single bits\<close>

named_theorems entry_bits

lemma bit_pow2 [entry_bits]: "bit (2 ^ k :: 'a::len word) n \<longleftrightarrow> n = k \<and> k < LENGTH('a)"
  by (auto simp: bit_simps)

lemma bit_push_one [entry_bits]: "bit (push_bit k 1 :: 'a::len word) n \<longleftrightarrow> n = k \<and> k < LENGTH('a)"
  by (auto simp: bit_simps)

lemma bit_less_LENGTH: "bit (w :: 'a::len word) n \<Longrightarrow> n < LENGTH('a)"
  using impossible_bit [of n w] by (cases "n < LENGTH('a)") auto

lemma and_pow2_eq_0: "(w :: 'a::len word) AND 2 ^ k = 0 \<longleftrightarrow> \<not> bit w k"
proof -
  have "w AND 2 ^ k = 0 \<longleftrightarrow> (\<forall>n. \<not> (bit w n \<and> n = k \<and> k < LENGTH('a)))"
    by (simp only: bit_eq_iff [of _ "0 :: 'a word"] bit_and_iff bit_pow2 bit_0_eq) auto
  also have "\<dots> \<longleftrightarrow> \<not> bit w k"
    using bit_less_LENGTH [of w k] by blast
  finally show ?thesis .
qed

lemma and_1_eq_0: "(w :: 'a::len word) AND 1 = 0 \<longleftrightarrow> \<not> bit w 0"
  using and_pow2_eq_0 [of w 0] by simp

lemma and_2_eq_0: "(w :: 'a::len word) AND 2 = 0 \<longleftrightarrow> \<not> bit w 1"
  using and_pow2_eq_0 [of w 1] by simp

declare bit_1_iff [simp] bit_2_iff [simp]

lemma unat_take_bit: "unat (take_bit k w) = unat w mod 2 ^ k" for w :: "'a::len word"
  by (simp only: unsigned_take_bit_eq take_bit_nat_def)

lemma unat_eq_1_iff: "unat w = 1 \<longleftrightarrow> w = 1" for w :: "'a::len word"
  by (metis unat_1 word_unat_eq_iff)

lemma unat_ucast: "unat (ucast w :: 'b::len word) = unat w mod 2 ^ LENGTH('b)" for w :: "'a::len word"
  by (simp only: unsigned_ucast_eq take_bit_nat_def)

end
