(* ===== verification/Address.thy ===== *)
theory Address
  imports Prelude
begin

text \<open>
  Virtual and physical addresses of the amd64 kernel
  (\<^verbatim>\<open>src/kernel/src/arch/amd64/address.rs\<close> and \<^verbatim>\<open>memory.rs\<close>).  An address is a newtype over
  a 64-bit word; its constructors check that a virtual address is canonical and that a
  physical address fits the processor's physical address width.  That width comes from
  \<^verbatim>\<open>cpuid\<close> and is the parameter \<open>bits\<close> of the physical operations; the offset of the
  physical memory map comes from the bootloader and is the parameter \<open>off\<close> of
  \<open>phys_to_virt\<close>.
\<close>

section \<open>Types\<close>

datatype VirtAddr = VirtAddr (va_raw: u64)

datatype PhysAddr = PhysAddr (pa_raw: u64)

datatype NonCanonical = NonCanonical

datatype Offset = Usize u64 | Isize u64

section \<open>Virtual addresses\<close>

definition HEAP_START :: VirtAddr where
  "HEAP_START = VirtAddr 0xffffff0000000000"

definition KOBJ_START :: VirtAddr where
  "KOBJ_START = VirtAddr 0xfffff00000000000"

definition PHYS_START :: VirtAddr where
  "PHYS_START = VirtAddr 0xffff800000000000"

definition start_kernel_memory :: VirtAddr where
  "start_kernel_memory = VirtAddr 0xffff800000000000"

definition start_kernel_object_memory :: VirtAddr where
  "start_kernel_object_memory = KOBJ_START"

definition end_kernel_object_memory :: VirtAddr where
  "end_kernel_object_memory = HEAP_START"

definition start_user_memory :: VirtAddr where
  "start_user_memory = VirtAddr 0x0"

definition end_user_memory :: VirtAddr where
  "end_user_memory = VirtAddr 0x0000800000000000"

definition VirtAddr_new :: "u64 \<Rightarrow> NonCanonical + VirtAddr" where
  "VirtAddr_new addr =
     (if addr \<ge> 0xFFFF800000000000 \<or> addr \<le> 0x00007fffffffffff then Inr (VirtAddr addr)
      else Inl NonCanonical)"

text \<open>The remainder by an alignment of zero panics.\<close>

definition VirtAddr_is_aligned_to :: "VirtAddr \<Rightarrow> u64 \<Rightarrow> bool option" where
  "VirtAddr_is_aligned_to v alignment =
     (if alignment = 0 then panic else Some (va_raw v mod alignment = 0))"

definition is_kernel :: "VirtAddr \<Rightarrow> bool" where
  "is_kernel v \<longleftrightarrow> va_raw v \<ge> 0xffff800000000000"

definition is_kernel_object_memory :: "VirtAddr \<Rightarrow> bool" where
  "is_kernel_object_memory v \<longleftrightarrow>
     va_raw v \<ge> va_raw start_kernel_object_memory \<and> va_raw v < va_raw end_kernel_object_memory"

text \<open>
  \<^verbatim>\<open>isize::abs\<close> of the standard library: the least value has no absolute value in the type.
\<close>

definition isize_abs :: "u64 \<Rightarrow> u64 option" where
  "isize_abs u = (if u = 0x8000000000000000 then None else Some (if sint u < 0 then - u else u))"

text \<open>The \<^verbatim>\<open>ok_or(NonCanonical)?\<close> step that the offset operations share.\<close>

definition ok_or_noncanonical :: "(u64 \<Rightarrow> NonCanonical + 'a) \<Rightarrow> u64 option \<Rightarrow> NonCanonical + 'a" where
  "ok_or_noncanonical new r = (case r of None \<Rightarrow> Inl NonCanonical | Some a \<Rightarrow> new a)"

definition VirtAddr_offset :: "VirtAddr \<Rightarrow> Offset \<Rightarrow> (NonCanonical + VirtAddr) option" where
  "VirtAddr_offset v offset = (case offset of
     Usize u \<Rightarrow> Some (ok_or_noncanonical VirtAddr_new (checked_add (va_raw v) u))
   | Isize u \<Rightarrow> do {
       abs \<leftarrow> isize_abs u;
       Some (if sint u < 0 then ok_or_noncanonical VirtAddr_new (checked_sub (va_raw v) abs)
             else ok_or_noncanonical VirtAddr_new (checked_add (va_raw v) abs)) })"

definition VirtAddr_align_down :: "VirtAddr \<Rightarrow> u64 \<Rightarrow> (NonCanonical + VirtAddr) option" where
  "VirtAddr_align_down v align = do {
     assert_that (is_power_of_two align);
     Some (VirtAddr_new (va_raw v AND NOT (align - 1))) }"

definition VirtAddr_align_up :: "VirtAddr \<Rightarrow> u64 \<Rightarrow> (NonCanonical + VirtAddr) option" where
  "VirtAddr_align_up v align = do {
     assert_that (is_power_of_two align);
     let mask = align - 1;
     Some (if va_raw v AND mask = 0 then Inr v
           else case checked_add (va_raw v OR mask) 1 of
                  Some aligned \<Rightarrow> VirtAddr_new aligned
                | None \<Rightarrow> Inl NonCanonical) }"

definition VirtAddr_sub :: "VirtAddr \<Rightarrow> VirtAddr \<Rightarrow> usize option" where
  "VirtAddr_sub a b = checked_sub (va_raw a) (va_raw b)"

section \<open>Physical addresses\<close>

text \<open>
  The width that \<^verbatim>\<open>cpuid\<close> reports is at most 64; a shift by 64 panics, which \<^verbatim>\<open>new\<close> avoids
  by testing for that width first.
\<close>

definition PhysAddr_new :: "nat \<Rightarrow> u64 \<Rightarrow> NonCanonical + PhysAddr" where
  "PhysAddr_new bits addr =
     (if bits = 64 \<or> addr < push_bit bits 1 then Inr (PhysAddr addr) else Inl NonCanonical)"

definition phys_mem_map_len :: "nat \<Rightarrow> usize option" where
  "phys_mem_map_len bits = do {
     let max_map_len = va_raw KOBJ_START - va_raw PHYS_START;
     assert_that (bits < 64);
     let max_phys = push_bit bits 1;
     Some (min max_phys max_map_len) }"

definition PhysAddr_offset :: "nat \<Rightarrow> PhysAddr \<Rightarrow> Offset \<Rightarrow> (NonCanonical + PhysAddr) option" where
  "PhysAddr_offset bits p offset = (case offset of
     Usize u \<Rightarrow> Some (ok_or_noncanonical (PhysAddr_new bits) (checked_add (pa_raw p) u))
   | Isize u \<Rightarrow> do {
       abs \<leftarrow> isize_abs u;
       Some (if sint u < 0 then ok_or_noncanonical (PhysAddr_new bits) (checked_sub (pa_raw p) abs)
             else ok_or_noncanonical (PhysAddr_new bits) (checked_add (pa_raw p) abs)) })"

definition PhysAddr_is_aligned_to :: "PhysAddr \<Rightarrow> u64 \<Rightarrow> bool option" where
  "PhysAddr_is_aligned_to p alignment =
     (if alignment = 0 then panic else Some (pa_raw p mod alignment = 0))"

definition PhysAddr_align_down :: "nat \<Rightarrow> PhysAddr \<Rightarrow> u64 \<Rightarrow> (NonCanonical + PhysAddr) option" where
  "PhysAddr_align_down bits p align = do {
     assert_that (is_power_of_two align);
     Some (PhysAddr_new bits (pa_raw p AND NOT (align - 1))) }"

definition PhysAddr_align_up :: "nat \<Rightarrow> PhysAddr \<Rightarrow> u64 \<Rightarrow> (NonCanonical + PhysAddr) option" where
  "PhysAddr_align_up bits p align = do {
     assert_that (is_power_of_two align);
     let mask = align - 1;
     if pa_raw p AND mask = 0 then Some (Inr p)
     else case checked_add (pa_raw p OR mask) 1 of
            Some aligned \<Rightarrow> Some (PhysAddr_new bits aligned)
          | None \<Rightarrow> panic }"

definition PhysAddr_sub :: "PhysAddr \<Rightarrow> PhysAddr \<Rightarrow> usize option" where
  "PhysAddr_sub a b = checked_sub (pa_raw a) (pa_raw b)"

definition phys_to_virt :: "u64 \<Rightarrow> PhysAddr \<Rightarrow> VirtAddr option" where
  "phys_to_virt off pa = do {
     sum \<leftarrow> checked_add (pa_raw pa) off;
     (case VirtAddr_new sum of Inr v \<Rightarrow> Some v | Inl _ \<Rightarrow> panic) }"

section \<open>Canonical addresses\<close>

text \<open>A virtual address is canonical when bits 47 to 63 agree.\<close>

definition canonical :: "u64 \<Rightarrow> bool" where
  "canonical a \<longleftrightarrow> signed_take_bit 47 a = a"

lemma canonical_bits: "canonical a \<longleftrightarrow> (\<forall>n. 47 \<le> n \<and> n < 64 \<longrightarrow> bit a n = bit a 47)"
proof -
  have "canonical a \<longleftrightarrow> (\<forall>n. n < 64 \<longrightarrow> bit a n = bit a (min 47 n))"
    by (auto simp: canonical_def bit_eq_iff bit_simps min.commute)
  also have "\<dots> \<longleftrightarrow> (\<forall>n. 47 \<le> n \<and> n < 64 \<longrightarrow> bit a n = bit a 47)"
    by (metis linorder_le_cases min.absorb1 min.absorb2)
  finally show ?thesis .
qed

lemma canonical_not_iff: "canonical (NOT a) \<longleftrightarrow> canonical a"
  by (auto simp: canonical_bits bit_simps)

lemma le_mask_iff_take_bit: "a \<le> mask k \<longleftrightarrow> take_bit k a = a" for a :: "'a::len word"
proof
  assume "a \<le> mask k"
  then have "unat a \<le> unat (mask k :: 'a word)"
    by (simp add: word_le_nat_alt)
  also have "\<dots> < 2 ^ k"
    unfolding unat_mask
    by (rule less_le_trans [OF mask_nat_less_exp]) (simp add: power_increasing)
  finally have "unat a < 2 ^ k" .
  then show "take_bit k a = a"
    by (simp add: word_unat_eq_iff unsigned_take_bit_eq take_bit_nat_eq_self)
next
  assume "take_bit k a = a"
  then show "a \<le> mask k"
    by (metis take_bit_eq_mask word_and_le1)
qed

lemma low_half_iff: "a \<le> 0x7fffffffffff \<longleftrightarrow> \<not> bit a 47 \<and> canonical a" for a :: u64
proof -
  have m: "(0x7fffffffffff :: u64) = mask 47"
    by (simp add: mask_eq_exp_minus_1)
  have "take_bit 47 a = a \<longleftrightarrow> (\<forall>n. 47 \<le> n \<and> n < 64 \<longrightarrow> \<not> bit a n)"
    by (auto simp: bit_eq_iff bit_simps not_less)
  also have "\<dots> \<longleftrightarrow> \<not> bit a 47 \<and> canonical a"
    by (auto simp: canonical_bits)
  finally show ?thesis
    by (simp add: m le_mask_iff_take_bit)
qed

lemma high_half_iff: "0xffff800000000000 \<le> a \<longleftrightarrow> bit a 47 \<and> canonical a" for a :: u64
proof -
  have "0xffff800000000000 \<le> a \<longleftrightarrow> NOT a \<le> 0x7fffffffffff"
    using unat_word_less [of a] by (simp add: word_le_nat_alt unat_NOT) arith
  also have "\<dots> \<longleftrightarrow> bit a 47 \<and> canonical a"
    by (simp add: low_half_iff canonical_not_iff bit_simps)
  finally show ?thesis .
qed

lemma VirtAddr_new_iff: "VirtAddr_new a = Inr v \<longleftrightarrow> v = VirtAddr a \<and> canonical a"
  by (auto simp: VirtAddr_new_def low_half_iff high_half_iff)

lemma VirtAddr_new_Inl_iff: "VirtAddr_new a = Inl e \<longleftrightarrow> \<not> canonical a"
  by (cases e) (auto simp: VirtAddr_new_def low_half_iff high_half_iff)

section \<open>Alignment\<close>

text \<open>
  Rounding down and up on the unsigned value, for an alignment \<open>2 ^ k\<close>.  The address operations
  compute with masks; these lemmas give their arithmetic meaning.
\<close>

lemma unat_or_mask:
  fixes a :: "'a::len word"
  assumes "k < LENGTH('a)"
  shows "unat (a OR mask k) = unat a div 2 ^ k * 2 ^ k + (2 ^ k - 1)"
proof -
  have eq: "(a AND NOT (mask k)) + mask k = a OR mask k"
    by (subst disjunctive_add) (auto simp: bit_eq_iff bit_simps)
  then have "mask k \<le> (a AND NOT (mask k)) + mask k"
    by (metis le_word_or1)
  then have "unat ((a AND NOT (mask k)) + mask k) =
      unat (a AND NOT (mask k)) + unat (mask k :: 'a word)"
    by (simp add: unat_plus_simple add.commute)
  moreover have "unat (mask k :: 'a word) = 2 ^ k - 1"
    using assms by (simp only: unat_mask) (simp add: mask_eq_exp_minus_1)
  ultimately show ?thesis
    by (simp only: unat_and_not_mask eq)
qed

lemma and_mask_eq_0_iff: "a AND mask k = 0 \<longleftrightarrow> 2 ^ k dvd unat a" for a :: "'a::len word"
proof -
  have "a AND mask k = 0 \<longleftrightarrow> unat (take_bit k a) = 0"
    by (simp add: take_bit_eq_mask unat_eq_0)
  also have "unat (take_bit k a) = unat a mod 2 ^ k"
    by (simp only: unsigned_take_bit_eq) (simp add: take_bit_eq_mod)
  finally show ?thesis by (simp add: dvd_eq_mod_eq_0)
qed

lemma pow2_minus_1: "(2 ^ k - 1 :: 'a::len word) = mask k"
  by (simp add: mask_eq_exp_minus_1)

text \<open>The least multiple of \<open>m\<close> at or above \<open>n\<close>.\<close>

definition round_up :: "nat \<Rightarrow> nat \<Rightarrow> nat" where
  "round_up m n = (if m dvd n then n else Suc (n div m) * m)"

lemma round_up_props:
  assumes "0 < m"
  shows "m dvd round_up m n" and "n \<le> round_up m n" and "round_up m n < n + m"
proof -
  have e: "n = n div m * m + n mod m" and l: "n mod m < m" using assms by simp_all
  have nz: "\<not> m dvd n \<Longrightarrow> 0 < n mod m" by (simp add: dvd_eq_mod_eq_0)
  show "m dvd round_up m n" by (simp add: round_up_def)
  have "n \<le> m + n div m * m" using e l by linarith
  then show "n \<le> round_up m n" by (simp add: round_up_def)
  have "\<not> m dvd n \<Longrightarrow> n div m * m < n" using e nz by linarith
  then show "round_up m n < n + m" using assms by (simp add: round_up_def)
qed

lemma round_up_least:
  assumes "0 < m" and "m dvd k" and "n \<le> k"
  shows "round_up m n \<le> k"
proof (rule ccontr)
  assume "\<not> round_up m n \<le> k"
  then have less: "k < round_up m n" by simp
  obtain i where i: "k = m * i" using assms(2) by (rule dvdE)
  obtain j where j: "round_up m n = m * j" using round_up_props(1) [OF assms(1)] by (rule dvdE)
  from less i j have "Suc i \<le> j" using assms(1) by simp
  then have "m * Suc i \<le> m * j" by (rule mult_le_mono2)
  then have "k + m \<le> round_up m n" using i j by simp
  moreover have "round_up m n < n + m" by (rule round_up_props(3) [OF assms(1)])
  ultimately show False using assms(3) by simp
qed

lemma align_up_raw:
  fixes a :: u64
  assumes "k < 64" and "\<not> 2 ^ k dvd unat a"
  shows "checked_add (a OR mask k) 1 =
    (if round_up (2 ^ k) (unat a) < 2 ^ 64 then Some (word_of_nat (round_up (2 ^ k) (unat a)))
     else None)"
proof -
  have r: "unat (a OR mask k) + 1 = round_up (2 ^ k) (unat a)"
    using assms by (simp add: unat_or_mask round_up_def)
  then have "(a OR mask k) + 1 = word_of_nat (round_up (2 ^ k) (unat a))"
    by (metis unsigned_1 word_arith_nat_add)
  with r show ?thesis
    by (simp add: checked_add_def)
qed

lemma VirtAddr_align_up_eq:
  assumes "k < 64" and "canonical (va_raw v)"
  shows "VirtAddr_align_up v (2 ^ k) =
    (let r = round_up (2 ^ k) (unat (va_raw v))
     in if r < 2 ^ 64 \<and> canonical (word_of_nat r) then Some (Inr (VirtAddr (word_of_nat r)))
        else Some (Inl NonCanonical))"
proof -
  have p2: "is_power_of_two (2 ^ k :: u64)"
    using assms(1) by (auto simp: is_power_of_two_iff)
  show ?thesis
  proof (cases "2 ^ k dvd unat (va_raw v)")
    case True
    then have "round_up (2 ^ k) (unat (va_raw v)) = unat (va_raw v)"
      by (simp add: round_up_def)
    with True assms show ?thesis
      using unat_word_less [of "va_raw v"]
      by (simp add: VirtAddr_align_up_def p2 pow2_minus_1 and_mask_eq_0_iff)
  next
    case False
    let ?r = "round_up (2 ^ k) (unat (va_raw v))"
    have "VirtAddr_align_up v (2 ^ k) =
      Some (case checked_add (va_raw v OR mask k) 1 of
              Some aligned \<Rightarrow> VirtAddr_new aligned | None \<Rightarrow> Inl NonCanonical)"
      using False by (simp add: VirtAddr_align_up_def p2 pow2_minus_1 and_mask_eq_0_iff)
    also have "\<dots> = Some (if ?r < 2 ^ 64 then VirtAddr_new (word_of_nat ?r) else Inl NonCanonical)"
      by (simp only: align_up_raw [OF assms(1) False]) simp
    also have "\<dots> = (if ?r < 2 ^ 64 \<and> canonical (word_of_nat ?r)
        then Some (Inr (VirtAddr (word_of_nat ?r))) else Some (Inl NonCanonical))"
      by (cases "VirtAddr_new (word_of_nat ?r)")
        (auto simp: VirtAddr_new_iff VirtAddr_new_Inl_iff NonCanonical.exhaust)
    finally show ?thesis by (simp add: Let_def)
  qed
qed

section \<open>Offsets\<close>

lemma isize_abs_Some:
  assumes "isize_abs u = Some m"
  shows "int (unat m) = \<bar>sint u\<bar>"
proof -
  have u: "u \<noteq> 0x8000000000000000" and m: "m = (if sint u < 0 then - u else u)"
    using assms by (auto simp: isize_abs_def split: if_splits)
  have s: "sint u = (if bit u 63 then uint u - 2 ^ 64 else uint u)"
    using unsigned_less [of u, where ?'a = int]
    by (simp add: sint_uint signed_take_bit_eq_take_bit_minus bit_uint_iff take_bit_int_eq_self)
  have "uint (- u) = 2 ^ 64 - uint u" if "u \<noteq> 0"
  proof -
    have "0 < uint u" and "uint u < 2 ^ 64"
      using that unsigned_less [of u, where ?'a = int] by (simp_all add: word_neq_0_conv word_less_def)
    then show ?thesis by (simp add: uint_word_ariths zmod_zminus1_eq_if)
  qed
  then show ?thesis
    using unsigned_less [of u, where ?'a = int] by (cases "u = 0") (auto simp: m s)
qed

lemma isize_abs_None: "isize_abs u = None \<longleftrightarrow> u = 0x8000000000000000"
  by (simp add: isize_abs_def)

lemma ok_or_noncanonical_VirtAddr:
  "ok_or_noncanonical VirtAddr_new r = Inr w \<longleftrightarrow> r = Some (va_raw w) \<and> canonical (va_raw w)"
  by (cases w) (auto simp: ok_or_noncanonical_def VirtAddr_new_iff split: option.splits)

section \<open>Properties\<close>

text \<open>
  C31.  \<^verbatim>\<open>VirtAddr::new\<close> accepts exactly the canonical addresses: those whose bits 47 to 63 all
  agree, that is, the sign extensions of 48-bit values.
\<close>

theorem VirtAddr_new_canonical:
  "VirtAddr_new a = (if canonical a then Inr (VirtAddr a) else Inl NonCanonical)"
  by (simp add: VirtAddr_new_def low_half_iff high_half_iff)





text \<open>
  C34.  The canonical address space splits into user memory, below \<^verbatim>\<open>end_user_memory\<close>, and kernel
  memory; kernel object memory lies inside kernel memory, below the heap.
\<close>

theorem address_space_partition:
  assumes "canonical (va_raw v)"
  shows "(is_kernel v \<longleftrightarrow> \<not> va_raw v < va_raw end_user_memory) \<and>
    (is_kernel v \<longleftrightarrow> va_raw start_kernel_memory \<le> va_raw v) \<and>
    (is_kernel_object_memory v \<longrightarrow> is_kernel v \<and> va_raw v < va_raw HEAP_START)"
proof -
  have "va_raw v < 0x800000000000 \<longleftrightarrow> va_raw v \<le> 0x7fffffffffff"
    by (simp add: word_less_nat_alt word_le_nat_alt) arith
  moreover have "va_raw v \<le> 0x7fffffffffff \<longleftrightarrow> \<not> 0xffff800000000000 \<le> va_raw v"
    using assms by (simp add: low_half_iff high_half_iff)
  moreover have "0xfffff00000000000 \<le> va_raw v \<Longrightarrow> 0xffff800000000000 \<le> va_raw v"
    by (simp add: word_le_nat_alt)
  ultimately show ?thesis
    by (auto simp: is_kernel_def is_kernel_object_memory_def end_user_memory_def
        start_kernel_memory_def start_kernel_object_memory_def end_kernel_object_memory_def
        HEAP_START_def KOBJ_START_def)
qed

text \<open>An instance at an address of kernel object memory.\<close>

theorem address_space_partition_witness:
  "canonical 0xfffff00000001000 \<and> is_kernel_object_memory (VirtAddr 0xfffff00000001000) \<and>
   is_kernel (VirtAddr 0xfffff00000001000)"
proof -
  have c: "canonical (va_raw (VirtAddr 0xfffff00000001000))"
    using high_half_iff [of "0xfffff00000001000"] by simp
  have "is_kernel_object_memory (VirtAddr 0xfffff00000001000)"
    by (simp add: is_kernel_object_memory_def start_kernel_object_memory_def
        end_kernel_object_memory_def HEAP_START_def KOBJ_START_def)
  with address_space_partition [OF c] c show ?thesis
    by (simp only: VirtAddr.sel) blast
qed

end
