(* ===== verification/Entry.thy ===== *)
theory Entry
  imports Address
begin

text \<open>
  Page table entries and single page tables of the amd64 kernel
  (\<^verbatim>\<open>arch/amd64/memory/pagetables/entry.rs\<close>, \<^verbatim>\<open>table.rs\<close>) and the mapping settings they
  encode (\<^verbatim>\<open>memory/pagetables/settings.rs\<close>).

  An entry is its raw 64-bit word, and so are the bit flag types that \<^verbatim>\<open>bitflags!\<close>
  declares.  A table is the function from the index to the entry; an index of 512 or more
  is an index panic, which \<open>entry_index\<close> makes explicit where the source's index is not
  bounded by a mask.  \<^verbatim>\<open>Protections\<close> is declared outside this repository; the kernel only uses
  its three named flags, so it is the record of these.
\<close>

section \<open>Mapping settings\<close>

record Protections =
  p_read :: bool
  p_write :: bool
  p_exec :: bool

datatype CacheType = WriteBack | WriteCombining | WriteThrough | Uncacheable | MemoryMappedIO

type_synonym MappingFlags = u64

definition MF_GLOBAL :: MappingFlags where "MF_GLOBAL = 1"
definition MF_USER :: MappingFlags where "MF_USER = 2"

record MappingSettings =
  ms_perms :: Protections
  ms_cache :: CacheType
  ms_flags :: MappingFlags

definition Protections_all :: Protections where
  "Protections_all = \<lparr>p_read = True, p_write = True, p_exec = True\<rparr>"

definition default_user :: MappingSettings where
  "default_user = \<lparr>ms_perms = Protections_all, ms_cache = WriteBack, ms_flags = MF_USER\<rparr>"

definition default_kernel :: MappingSettings where
  "default_kernel = \<lparr>ms_perms = Protections_all, ms_cache = WriteBack, ms_flags = MF_GLOBAL\<rparr>"

definition default_cachetype :: "CacheType \<Rightarrow> MappingSettings" where
  "default_cachetype cache = \<lparr>ms_perms = Protections_all, ms_cache = cache, ms_flags = MF_USER\<rparr>"

section \<open>Entry flags\<close>

type_synonym EntryFlags = u64

definition EF_PRESENT :: EntryFlags where "EF_PRESENT = push_bit 0 1"
definition EF_WRITE :: EntryFlags where "EF_WRITE = push_bit 1 1"
definition EF_USER :: EntryFlags where "EF_USER = push_bit 2 1"
definition EF_WRITE_THROUGH :: EntryFlags where "EF_WRITE_THROUGH = push_bit 3 1"
definition EF_CACHE_DISABLE :: EntryFlags where "EF_CACHE_DISABLE = push_bit 4 1"
definition EF_ACCESSED :: EntryFlags where "EF_ACCESSED = push_bit 5 1"
definition EF_DIRTY :: EntryFlags where "EF_DIRTY = push_bit 6 1"
definition EF_HUGE_PAGE :: EntryFlags where "EF_HUGE_PAGE = push_bit 7 1"
definition EF_GLOBAL :: EntryFlags where "EF_GLOBAL = push_bit 8 1"
definition EF_AVAIL_1 :: EntryFlags where "EF_AVAIL_1 = push_bit 9 1"
definition EF_SHARED_PAGE_TABLE :: EntryFlags where "EF_SHARED_PAGE_TABLE = push_bit 10 1"
definition EF_NO_EXECUTE :: EntryFlags where "EF_NO_EXECUTE = push_bit 63 1"

lemmas EF_defs = EF_PRESENT_def EF_WRITE_def EF_USER_def EF_WRITE_THROUGH_def
  EF_CACHE_DISABLE_def EF_ACCESSED_def EF_DIRTY_def EF_HUGE_PAGE_def EF_GLOBAL_def
  EF_AVAIL_1_def EF_SHARED_PAGE_TABLE_def EF_NO_EXECUTE_def

definition EF_all :: EntryFlags where
  "EF_all = EF_PRESENT OR EF_WRITE OR EF_USER OR EF_WRITE_THROUGH OR EF_CACHE_DISABLE OR
     EF_ACCESSED OR EF_DIRTY OR EF_HUGE_PAGE OR EF_GLOBAL OR EF_AVAIL_1 OR
     EF_SHARED_PAGE_TABLE OR EF_NO_EXECUTE"

definition flags_contain :: "u64 \<Rightarrow> u64 \<Rightarrow> bool" where
  "flags_contain f g \<longleftrightarrow> f AND g = g"

definition EF_from_bits_truncate :: "u64 \<Rightarrow> EntryFlags" where
  "EF_from_bits_truncate b = b AND EF_all"

definition EF_flags :: "EntryFlags \<Rightarrow> MappingFlags" where
  "EF_flags f =
     (if flags_contain f EF_GLOBAL then MF_GLOBAL else 0) OR
     (if flags_contain f EF_USER then MF_USER else 0)"

definition EF_perms :: "EntryFlags \<Rightarrow> Protections" where
  "EF_perms f = \<lparr>p_read = True, p_write = flags_contain f EF_WRITE,
     p_exec = (\<not> flags_contain f EF_NO_EXECUTE)\<rparr>"

definition EF_cache_type :: "EntryFlags \<Rightarrow> CacheType" where
  "EF_cache_type f =
     (if flags_contain f EF_CACHE_DISABLE then Uncacheable
      else if flags_contain f EF_WRITE_THROUGH then WriteThrough else WriteBack)"

definition EF_settings :: "EntryFlags \<Rightarrow> MappingSettings" where
  "EF_settings f = \<lparr>ms_perms = EF_perms f, ms_cache = EF_cache_type f, ms_flags = EF_flags f\<rparr>"

definition EF_intermediate :: EntryFlags where
  "EF_intermediate = EF_USER OR EF_WRITE OR EF_PRESENT"

definition EF_huge :: EntryFlags where
  "EF_huge = EF_HUGE_PAGE"

definition EF_leaf :: EntryFlags where
  "EF_leaf = 0"

text \<open>The conversion of settings to flags; a memory mapped I/O cache type is not implemented.\<close>

definition EF_from :: "MappingSettings \<Rightarrow> EntryFlags option" where
  "EF_from settings = do {
     c \<leftarrow> (case ms_cache settings of
             WriteBack \<Rightarrow> Some 0
           | WriteThrough \<Rightarrow> Some EF_WRITE_THROUGH
           | WriteCombining \<Rightarrow> Some 0
           | Uncacheable \<Rightarrow> Some EF_CACHE_DISABLE
           | MemoryMappedIO \<Rightarrow> panic);
     let p = (if p_write (ms_perms settings) then EF_WRITE else 0) OR
             (if \<not> p_exec (ms_perms settings) then EF_NO_EXECUTE else 0);
     let f = (if flags_contain (ms_flags settings) MF_GLOBAL then EF_GLOBAL else 0);
     let u = (if flags_contain (ms_flags settings) MF_USER then EF_USER else 0);
     Some (p OR c OR f OR u) }"

section \<open>Entries\<close>

type_synonym Entry = u64

definition Entry_new_internal :: "PhysAddr \<Rightarrow> EntryFlags \<Rightarrow> Entry" where
  "Entry_new_internal addr flags = pa_raw addr OR flags"

definition Entry_new :: "PhysAddr \<Rightarrow> EntryFlags \<Rightarrow> Entry" where
  "Entry_new addr flags = Entry_new_internal addr (flags OR EF_PRESENT)"

definition Entry_new_unused :: Entry where
  "Entry_new_unused = 0"

definition Entry_flags :: "Entry \<Rightarrow> EntryFlags" where
  "Entry_flags e = EF_from_bits_truncate e"

definition Entry_is_huge :: "Entry \<Rightarrow> bool" where
  "Entry_is_huge e \<longleftrightarrow> flags_contain (Entry_flags e) EF_HUGE_PAGE"

definition Entry_is_present :: "Entry \<Rightarrow> bool" where
  "Entry_is_present e \<longleftrightarrow> flags_contain (Entry_flags e) EF_PRESENT"

definition Entry_addr :: "nat \<Rightarrow> Entry \<Rightarrow> PhysAddr option" where
  "Entry_addr bits e = (case PhysAddr_new bits (e AND 0x000ffffffffff000) of
     Inr p \<Rightarrow> Some p | Inl _ \<Rightarrow> panic)"

definition Entry_table_addr :: "nat \<Rightarrow> Entry \<Rightarrow> PhysAddr option" where
  "Entry_table_addr bits e = Entry_addr bits e"

definition Entry_set_addr :: "Entry \<Rightarrow> PhysAddr \<Rightarrow> Entry" where
  "Entry_set_addr e addr = Entry_new_internal addr (Entry_flags e)"

definition Entry_set_flags :: "nat \<Rightarrow> Entry \<Rightarrow> EntryFlags \<Rightarrow> Entry option" where
  "Entry_set_flags bits e flags = do {
     a \<leftarrow> Entry_addr bits e;
     Some (Entry_new_internal a flags) }"

definition Entry_get_avail_bit :: "Entry \<Rightarrow> bool" where
  "Entry_get_avail_bit e \<longleftrightarrow> flags_contain (Entry_flags e) EF_AVAIL_1"

definition Entry_set_avail_bit :: "nat \<Rightarrow> Entry \<Rightarrow> bool \<Rightarrow> Entry option" where
  "Entry_set_avail_bit bits e value =
     Entry_set_flags bits e
       (if value then Entry_flags e OR EF_AVAIL_1 else Entry_flags e AND NOT EF_AVAIL_1)"

definition Entry_clear :: "Entry \<Rightarrow> Entry" where
  "Entry_clear e = (if Entry_get_avail_bit e then push_bit 9 1 else 0)"

section \<open>Tables\<close>

type_synonym Table = "nat \<Rightarrow> Entry"

definition PAGE_TABLE_ENTRIES :: nat where "PAGE_TABLE_ENTRIES = 512"
definition TOP_LEVEL :: nat where "TOP_LEVEL = 3"
definition LAST_LEVEL :: nat where "LAST_LEVEL = 0"

definition entry_index :: "Table \<Rightarrow> nat \<Rightarrow> Entry option" where
  "entry_index t i = (if i < PAGE_TABLE_ENTRIES then Some (t i) else panic)"

definition top_level :: nat where
  "top_level = TOP_LEVEL"

definition last_level :: nat where
  "last_level = LAST_LEVEL"

definition next_level :: "nat \<Rightarrow> nat option" where
  "next_level level = (if level = 0 then panic else Some (level - 1))"

definition can_map_at_level :: "nat \<Rightarrow> bool" where
  "can_map_at_level level \<longleftrightarrow> level = 0 \<or> level = 1 \<or> level = 2"

definition set_count :: "nat \<Rightarrow> usize \<Rightarrow> Table \<Rightarrow> Table option" where
  "set_count bits count t = foldM (\<lambda>b t. do {
       e \<leftarrow> (if count AND push_bit b 1 = 0 then Entry_set_avail_bit bits (t b) False
             else Entry_set_avail_bit bits (t b) True);
       Some (t(b := e)) }) [0..<16] t"

definition read_count :: "Table \<Rightarrow> usize" where
  "read_count t = fold (\<lambda>b count.
       let bit = Entry_get_avail_bit (t b) in count OR push_bit b (of_bool bit)) [0..<16] 0"

definition level_to_page_size :: "nat \<Rightarrow> usize option" where
  "level_to_page_size level =
     (if level > TOP_LEVEL then panic else Some (push_bit (12 + 9 * level) 1))"

definition is_leaf :: "VirtAddr \<Rightarrow> nat \<Rightarrow> bool option" where
  "is_leaf addr level =
     (if level = LAST_LEVEL then Some True
      else do { assert_that (12 + 9 * level < 64);
                VirtAddr_is_aligned_to addr (push_bit (12 + 9 * level) 1) })"

definition get_index :: "VirtAddr \<Rightarrow> nat \<Rightarrow> nat option" where
  "get_index addr level = do {
     let shift = 12 + 9 * level;
     assert_that (shift < 64);
     Some (unat (drop_bit shift (va_raw addr) AND 0x1ff)) }"

section \<open>Bits of entries\<close>

lemma flags_contain_push_bit:
  assumes "k < 64"
  shows "flags_contain f (push_bit k 1) \<longleftrightarrow> bit f k"
proof -
  have "f AND push_bit k 1 = push_bit k 1 \<longleftrightarrow> (\<forall>n<64. n = k \<longrightarrow> bit f n)"
    using assms by (auto simp: bit_eq_iff bit_and_iff entry_bits)
  then show ?thesis using assms by (simp add: flags_contain_def)
qed

lemma flags_contain_bits:
  "flags_contain f EF_PRESENT \<longleftrightarrow> bit f 0"
  "flags_contain f EF_WRITE \<longleftrightarrow> bit f 1"
  "flags_contain f EF_USER \<longleftrightarrow> bit f 2"
  "flags_contain f EF_WRITE_THROUGH \<longleftrightarrow> bit f 3"
  "flags_contain f EF_CACHE_DISABLE \<longleftrightarrow> bit f 4"
  "flags_contain f EF_HUGE_PAGE \<longleftrightarrow> bit f 7"
  "flags_contain f EF_GLOBAL \<longleftrightarrow> bit f 8"
  "flags_contain f EF_AVAIL_1 \<longleftrightarrow> bit f 9"
  "flags_contain f EF_SHARED_PAGE_TABLE \<longleftrightarrow> bit f 10"
  "flags_contain f EF_NO_EXECUTE \<longleftrightarrow> bit f 63"
  unfolding EF_defs by (rule flags_contain_push_bit, simp)+

lemma addr_mask_eq: "(0x000ffffffffff000 :: u64) = push_bit 12 (mask 40)"
  by (simp add: mask_eq_exp_minus_1 push_bit_eq_mult)

lemma bit_addr_mask [entry_bits]: "bit (0x000ffffffffff000 :: u64) n \<longleftrightarrow> 12 \<le> n \<and> n < 52"
  by (auto simp: addr_mask_eq bit_push_bit_iff bit_mask_iff)

lemma bit_EF_all [entry_bits]: "bit EF_all n \<longleftrightarrow> n \<le> 10 \<or> n = 63"
  unfolding EF_all_def EF_defs by (simp only: bit_or_iff bit_push_one) (simp, arith)

lemma bit_Entry_flags [entry_bits]: "bit (Entry_flags e) n \<longleftrightarrow> bit e n \<and> (n \<le> 10 \<or> n = 63)"
  by (auto simp: Entry_flags_def EF_from_bits_truncate_def bit_and_iff bit_EF_all)

lemma Entry_is_present_bit [simp]: "Entry_is_present e \<longleftrightarrow> bit e 0"
  by (simp add: Entry_is_present_def flags_contain_bits entry_bits)

lemma Entry_is_huge_bit [simp]: "Entry_is_huge e \<longleftrightarrow> bit e 7"
  by (simp add: Entry_is_huge_def flags_contain_bits entry_bits)

lemma Entry_get_avail_bit_bit [simp]: "Entry_get_avail_bit e \<longleftrightarrow> bit e 9"
  by (simp add: Entry_get_avail_bit_def flags_contain_bits entry_bits)

lemma shared_flag_bit: "flags_contain (Entry_flags e) EF_SHARED_PAGE_TABLE \<longleftrightarrow> bit e 10"
  by (simp add: flags_contain_bits entry_bits)

text \<open>The addresses that an entry of a processor with \<open>bits\<close> address bits may hold.\<close>

definition entry_ok :: "nat \<Rightarrow> Entry \<Rightarrow> bool" where
  "entry_ok bits e \<longleftrightarrow> bits = 64 \<or> e AND 0x000ffffffffff000 < push_bit bits 1"

lemma Entry_addr_eq:
  "Entry_addr bits e =
     (if entry_ok bits e then Some (PhysAddr (e AND 0x000ffffffffff000)) else None)"
  by (simp add: Entry_addr_def PhysAddr_new_def entry_ok_def)

text \<open>Rewriting the flags keeps exactly the address bits and the known flags.\<close>

definition entry_norm :: "Entry \<Rightarrow> Entry" where
  "entry_norm e = e AND (0x000ffffffffff000 OR EF_all)"

lemma bit_entry_norm [entry_bits]: "bit (entry_norm e) n \<longleftrightarrow> bit e n \<and> (n < 52 \<and> n \<noteq> 11 \<or> n = 63)"
  unfolding entry_norm_def by (simp only: bit_and_iff bit_or_iff bit_addr_mask bit_EF_all) auto

lemma Entry_set_avail_bit_eq:
  "Entry_set_avail_bit bits e v =
     (if entry_ok bits e
      then Some (if v then set_bit 9 (entry_norm e) else unset_bit 9 (entry_norm e)) else None)"
proof -
  have "(e AND 0x000ffffffffff000) OR (if v then Entry_flags e OR EF_AVAIL_1 else Entry_flags e AND NOT EF_AVAIL_1)
      = (if v then set_bit 9 (entry_norm e) else unset_bit 9 (entry_norm e))" (is "?l = ?r")
  proof (rule bit_word_eqI)
    fix n assume n: "n < LENGTH(64)"
    then show "bit ?l n = bit ?r n"
      by (cases v) (simp_all only: if_True if_False bit_or_iff bit_and_iff bit_not_iff bit_addr_mask
          bit_Entry_flags bit_entry_norm bit_set_bit_iff bit_unset_bit_iff EF_AVAIL_1_def bit_push_one,
          auto)
  qed
  then show ?thesis
    by (simp add: Entry_set_avail_bit_def Entry_set_flags_def Entry_addr_eq Entry_new_internal_def)
qed

lemma entry_ok_bits:
  "(\<And>n. 12 \<le> n \<Longrightarrow> n < 52 \<Longrightarrow> bit e n = bit e' n) \<Longrightarrow> entry_ok bits e = entry_ok bits e'"
proof -
  assume "\<And>n. 12 \<le> n \<Longrightarrow> n < 52 \<Longrightarrow> bit e n = bit e' n"
  then have "e AND 0x000ffffffffff000 = e' AND 0x000ffffffffff000"
    by (intro bit_word_eqI) (auto simp only: bit_and_iff bit_addr_mask)
  then show ?thesis by (simp add: entry_ok_def)
qed

section \<open>The counter in the available bits\<close>

text \<open>The entry that \<open>set_count\<close> leaves at index \<open>i\<close>.\<close>

definition with_avail :: "usize \<Rightarrow> nat \<Rightarrow> Entry \<Rightarrow> Entry" where
  "with_avail count i e =
     (if i < 16 then if bit count i then set_bit 9 (entry_norm e) else unset_bit 9 (entry_norm e) else e)"

lemma count_bit: "b < 64 \<Longrightarrow> (count :: usize) AND push_bit b 1 = 0 \<longleftrightarrow> \<not> bit count b"
  by (auto simp: bit_eq_iff [of _ "0 :: usize"] bit_and_iff entry_bits)

lemma set_count_prefix:
  assumes "n \<le> 16"
  shows "foldM (\<lambda>b t. do {
       e \<leftarrow> (if count AND push_bit b 1 = 0 then Entry_set_avail_bit bits (t b) False
             else Entry_set_avail_bit bits (t b) True);
       Some (t(b := e)) }) [0..<n] t =
     (if \<forall>i<n. entry_ok bits (t i)
      then Some (\<lambda>i. if i < n then with_avail count i (t i) else t i) else None)"
  using assms
proof (induction n)
  case (Suc n)
  then show ?case
    by (auto simp: Entry_set_avail_bit_eq with_avail_def count_bit [simplified] less_Suc_eq fun_eq_iff)
qed simp

lemma set_count_eq:
  "set_count bits count t =
     (if \<forall>i<16. entry_ok bits (t i) then Some (\<lambda>i. with_avail count i (t i)) else None)"
  unfolding set_count_def set_count_prefix [OF order.refl]
  by (auto simp: with_avail_def fun_eq_iff)

lemma read_count_prefix:
  "n \<le> 16 \<Longrightarrow> bit (fold (\<lambda>b count.
       let bit = Entry_get_avail_bit (t b) in count OR push_bit b (of_bool bit)) [0..<n] (0 :: usize)) k
     \<longleftrightarrow> k < n \<and> bit (t k) 9"
  by (induction n) (auto simp: Let_def bit_or_iff bit_push_bit_iff bit_of_bool_iff less_Suc_eq)

lemma bit_read_count: "bit (read_count t) k \<longleftrightarrow> k < 16 \<and> bit (t k) 9"
  unfolding read_count_def by (rule read_count_prefix) simp

lemma read_count_set_count:
  assumes "set_count bits count t = Some t'"
  shows "read_count t' = take_bit 16 count"
  using assms
  by (intro bit_word_eqI)
    (auto simp: set_count_eq bit_read_count bit_take_bit_iff with_avail_def bit_set_bit_iff
      bit_unset_bit_iff split: if_splits)

lemma bit_with_avail:
  "bit (with_avail count i e) n \<longleftrightarrow>
     (if i < 16 then (if n = 9 then bit count i else bit (entry_norm e) n) else bit e n)"
  by (auto simp: with_avail_def bit_set_bit_iff bit_unset_bit_iff)

section \<open>Counting the present entries\<close>

definition present_count :: "Table \<Rightarrow> nat" where
  "present_count t = length (filter (\<lambda>i. Entry_is_present (t i)) [0..<PAGE_TABLE_ENTRIES])"

definition count_ok :: "Table \<Rightarrow> bool" where
  "count_ok t \<longleftrightarrow> unat (read_count t) = present_count t"

lemma present_count_le: "present_count t \<le> 512"
  unfolding present_count_def PAGE_TABLE_ENTRIES_def
  by (rule order.trans [OF length_filter_le]) simp

lemma present_count_cong:
  "(\<And>i. i < 512 \<Longrightarrow> bit (t i) 0 = bit (t' i) 0) \<Longrightarrow> present_count t = present_count t'"
  unfolding present_count_def PAGE_TABLE_ENTRIES_def
  by (intro arg_cong [where f = length] filter_cong) simp_all

lemma present_count_card: "present_count t = card {i. i < 512 \<and> bit (t i) 0}"
proof -
  have "present_count t = card (set (filter (\<lambda>i. bit (t i) 0) [0..<512]))"
    unfolding present_count_def PAGE_TABLE_ENTRIES_def Entry_is_present_bit
    by (subst distinct_card) simp_all
  also have "set (filter (\<lambda>i. bit (t i) 0) [0..<512]) = {i. i < 512 \<and> bit (t i) 0}" by auto
  finally show ?thesis .
qed

lemma present_count_upd:
  assumes "i < 512"
  shows "present_count (t(i := e)) + of_bool (bit (t i) 0) = present_count t + of_bool (bit e 0)"
proof -
  let ?S = "{j. j < 512 \<and> bit (t j) 0 \<and> j \<noteq> i}"
  have "{j. j < 512 \<and> bit ((t(i := e)) j) 0} = (if bit e 0 then insert i ?S else ?S)"
    and "{j. j < 512 \<and> bit (t j) 0} = (if bit (t i) 0 then insert i ?S else ?S)"
    using assms by auto
  moreover have "finite ?S" "i \<notin> ?S" by simp_all
  ultimately show ?thesis by (simp add: present_count_card)
qed

lemma bit_with_avail_other:
  "n \<noteq> 9 \<Longrightarrow> n < 52 \<and> n \<noteq> 11 \<or> n = 63 \<Longrightarrow> bit (with_avail count i e) n = bit e n"
  by (auto simp: bit_with_avail bit_entry_norm)

lemma count_ok_set_count:
  assumes "set_count bits c t = Some t'" and "unat c = present_count t"
  shows "count_ok t'"
proof -
  have t': "t' = (\<lambda>i. with_avail c i (t i))"
    using assms(1) by (simp add: set_count_eq split: if_splits)
  have "present_count t' = present_count t"
    by (rule present_count_cong) (simp add: t' bit_with_avail_other)
  moreover have "unat (take_bit 16 c) = unat c"
    using assms(2) present_count_le [of t] by (simp add: unsigned_take_bit_eq take_bit_nat_eq_self)
  ultimately show ?thesis
    using assms(2) by (simp add: count_ok_def read_count_set_count [OF assms(1)])
qed

section \<open>Round trips\<close>

text \<open>The flags a mapping setting turns into.\<close>

lemma bit_EF_from:
  assumes "EF_from s = Some f"
  shows "bit f n \<longleftrightarrow> n = 1 \<and> p_write (ms_perms s) \<or> n = 63 \<and> \<not> p_exec (ms_perms s) \<or>
    n = 3 \<and> ms_cache s = WriteThrough \<or> n = 4 \<and> ms_cache s = Uncacheable \<or>
    n = 8 \<and> bit (ms_flags s) 0 \<or> n = 2 \<and> bit (ms_flags s) 1"
proof -
  have g: "flags_contain w MF_GLOBAL \<longleftrightarrow> bit w 0" "flags_contain w MF_USER \<longleftrightarrow> bit w 1" for w
    using flags_contain_push_bit [of 0 w] flags_contain_push_bit [of 1 w]
    by (simp_all add: MF_GLOBAL_def MF_USER_def)
  have b: "bit EF_WRITE n \<longleftrightarrow> n = 1" "bit EF_NO_EXECUTE n \<longleftrightarrow> n = 63"
    "bit EF_WRITE_THROUGH n \<longleftrightarrow> n = 3" "bit EF_CACHE_DISABLE n \<longleftrightarrow> n = 4"
    "bit EF_GLOBAL n \<longleftrightarrow> n = 8" "bit EF_USER n \<longleftrightarrow> n = 2"
    unfolding EF_defs bit_push_one by auto
  let ?c = "if ms_cache s = WriteThrough then EF_WRITE_THROUGH
    else if ms_cache s = Uncacheable then EF_CACHE_DISABLE else 0"
  have f: "f = ((if p_write (ms_perms s) then EF_WRITE else 0) OR
      (if \<not> p_exec (ms_perms s) then EF_NO_EXECUTE else 0)) OR ?c OR
      (if bit (ms_flags s) 0 then EF_GLOBAL else 0) OR (if bit (ms_flags s) 1 then EF_USER else 0)"
    using assms unfolding EF_from_def Let_def g by (cases "ms_cache s") simp_all
  show ?thesis
    unfolding f bit_or_iff if_distrib [of "\<lambda>w. bit w n"] b bit_0_eq by auto
qed

lemma MappingFlags_eqI:
  "f < 4 \<Longrightarrow> (if bit f 0 then MF_GLOBAL else 0) OR (if bit f 1 then MF_USER else 0) = f"
proof (rule bit_word_eqI)
  fix n assume "f < 4" "n < LENGTH(64)"
  then have "f \<le> mask 2"
    by (simp add: mask_eq_exp_minus_1 word_less_nat_alt word_le_nat_alt)
  then have "bit f n \<Longrightarrow> n < 2" unfolding le_mask_iff_take_bit by (metis bit_take_bit_iff)
  then show "bit ((if bit f 0 then MF_GLOBAL else 0) OR (if bit f 1 then MF_USER else 0)) n = bit f n"
    by (auto simp: MF_GLOBAL_def MF_USER_def bit_or_iff less_2_cases_iff)
qed

lemma entry_encodes:
  assumes "PhysAddr_new bits (pa_raw pa) = Inr pa" and "pa_raw pa AND 0x000ffffffffff000 = pa_raw pa"
    and "p_read (ms_perms s)" and "ms_cache s \<in> {WriteBack, WriteThrough, Uncacheable}"
    and "ms_flags s < 4" and "k = (if huge then EF_huge else EF_leaf)"
  shows "\<exists>f. EF_from s = Some f \<and>
    Entry_addr bits (Entry_new pa (f OR k)) = Some pa \<and>
    EF_settings (Entry_flags (Entry_new pa (f OR k))) = s \<and>
    Entry_is_present (Entry_new pa (f OR k)) \<and>
    (Entry_is_huge (Entry_new pa (f OR k)) \<longleftrightarrow> huge)"
proof -
  obtain f where f: "EF_from s = Some f"
    using assms(4) by (auto simp: EF_from_def Let_def)
  note bf = bit_EF_from [OF f]
  have pa: "bit (pa_raw pa) n \<Longrightarrow> 12 \<le> n \<and> n < 52" for n
    by (metis assms(2) bit_addr_mask bit_and_iff)
  have bk: "bit k n \<longleftrightarrow> n = 7 \<and> huge" for n
    unfolding assms(6) EF_huge_def EF_leaf_def EF_defs
    by (simp only: if_distrib [of "\<lambda>w. bit w n"] bit_push_one bit_0_eq) auto
  have bp: "bit EF_PRESENT n \<longleftrightarrow> n = 0" for n unfolding EF_defs bit_push_one by auto
  let ?e = "Entry_new pa (f OR k)"
  have be: "bit ?e n \<longleftrightarrow> bit (pa_raw pa) n \<or> bit f n \<or> n = 7 \<and> huge \<or> n = 0" for n
    unfolding Entry_new_def Entry_new_internal_def bit_or_iff bk bp by blast
  have "\<not> bit f n" if "12 \<le> n" "n < 52" for n using that by (auto simp: bf)
  then have "bit (?e AND 0x000ffffffffff000) n = bit (pa_raw pa) n" for n
    using pa [of n] unfolding bit_and_iff be bit_addr_mask by fastforce
  then have a: "?e AND 0x000ffffffffff000 = pa_raw pa" by (intro bit_word_eqI)
  have "entry_ok bits ?e"
    using assms(1) by (simp add: entry_ok_def a PhysAddr_new_def split: if_splits)
  then have addr: "Entry_addr bits ?e = Some pa" by (simp add: Entry_addr_eq a)
  have fl: "bit (Entry_flags ?e) n \<longleftrightarrow> bit f n" if "n \<in> {1, 2, 3, 4, 8, 63}" for n
    using that pa [of n] by (auto simp: bit_Entry_flags be)
  have "EF_cache_type (Entry_flags ?e) = ms_cache s"
    using assms(4) by (auto simp: EF_cache_type_def flags_contain_bits fl bf)
  moreover have "EF_perms (Entry_flags ?e) = ms_perms s"
    using assms(3) by (intro Protections.equality) (simp_all add: EF_perms_def flags_contain_bits fl bf)
  moreover have "EF_flags (Entry_flags ?e) = ms_flags s"
    using MappingFlags_eqI [OF assms(5)] by (simp add: EF_flags_def flags_contain_bits fl bf)
  ultimately have st: "EF_settings (Entry_flags ?e) = s" by (simp add: EF_settings_def)
  have "\<not> bit (pa_raw pa) 7" "\<not> bit f 7" using pa [of 7] by (auto simp: bf)
  then show ?thesis using f addr st by (simp add: be)
qed



end
