(* ===== verification/Tlb.thy ===== *)
theory Tlb
  imports Address
begin

text \<open>
  Cache line flushing and TLB shootdown of the amd64 kernel
  (\<^verbatim>\<open>arch/amd64/memory/pagetables/consistency.rs\<close>).

  The hardware is seen through the instructions the code issues: a \<open>tlb_op\<close> is a reload of
  \<^verbatim>\<open>cr3\<close>, a toggle of the global page bit of \<^verbatim>\<open>cr4\<close>, or an \<^verbatim>\<open>invlpg\<close>.  The functions that
  issue them return the list of issued operations; the control registers they read, \<^verbatim>\<open>cr3\<close>
  and whether \<^verbatim>\<open>cr4\<close> has global pages enabled, are arguments.  Whether a spinning CPU gets
  the manual lock of \<^verbatim>\<open>TlbShootdownInfo\<close> within its bound is decided by the other CPUs, so it
  is an argument of \<open>insert\<close> and a choice of the step relation.
\<close>

section \<open>Invalidation instructions\<close>

datatype tlb_op = Cr3Reload | Cr4Toggle | Invlpg u64

type_synonym InvInstruction = u64

definition ADDR_MASK :: u64 where
  "ADDR_MASK = NOT 0xfff"

definition InvInstruction_new :: "VirtAddr \<Rightarrow> bool \<Rightarrow> bool \<Rightarrow> u8 \<Rightarrow> InvInstruction" where
  "InvInstruction_new addr global terminal level =
     (va_raw addr AND ADDR_MASK) OR (if global then push_bit 0 1 else 0) OR
     (if terminal then push_bit 1 1 else 0) OR push_bit 2 (ucast level)"

definition inst_addr :: "InvInstruction \<Rightarrow> VirtAddr option" where
  "inst_addr i = (case VirtAddr_new (i AND ADDR_MASK) of Inr v \<Rightarrow> Some v | Inl _ \<Rightarrow> panic)"

definition inst_is_global :: "InvInstruction \<Rightarrow> bool" where
  "inst_is_global i \<longleftrightarrow> i AND 1 \<noteq> 0"

definition inst_is_terminal :: "InvInstruction \<Rightarrow> bool" where
  "inst_is_terminal i \<longleftrightarrow> i AND 2 \<noteq> 0"

definition inst_level :: "InvInstruction \<Rightarrow> u8" where
  "inst_level i = ucast (drop_bit 2 i AND 0xff)"

definition inst_execute :: "InvInstruction \<Rightarrow> tlb_op option" where
  "inst_execute i = do { v \<leftarrow> inst_addr i; Some (Invlpg (va_raw v)) }"

section \<open>Invalidation commands\<close>

definition MAX_INVALIDATION_INSTRUCTIONS :: nat where
  "MAX_INVALIDATION_INSTRUCTIONS = 16"

record TlbInvData =
  target_cr3 :: u64
  instructions :: "InvInstruction list"
  inv_len :: nat
  inv_flags :: u8

definition INV_GLOBAL :: u8 where "INV_GLOBAL = 1"
definition INV_FULL :: u8 where "INV_FULL = 2"

definition set_global :: "TlbInvData \<Rightarrow> TlbInvData" where
  "set_global d = d\<lparr>inv_flags := inv_flags d OR INV_GLOBAL\<rparr>"

definition set_full :: "TlbInvData \<Rightarrow> TlbInvData" where
  "set_full d = d\<lparr>inv_flags := inv_flags d OR INV_FULL\<rparr>"

definition is_full :: "TlbInvData \<Rightarrow> bool" where
  "is_full d \<longleftrightarrow> inv_flags d AND INV_FULL \<noteq> 0"

definition is_global :: "TlbInvData \<Rightarrow> bool" where
  "is_global d \<longleftrightarrow> inv_flags d AND INV_GLOBAL \<noteq> 0"

definition inv_instructions :: "TlbInvData \<Rightarrow> InvInstruction list" where
  "inv_instructions d = take (inv_len d) (instructions d)"

definition TlbInvData_new :: "u64 \<Rightarrow> TlbInvData" where
  "TlbInvData_new target = \<lparr>target_cr3 = target,
     instructions = replicate MAX_INVALIDATION_INSTRUCTIONS
       (InvInstruction_new (VirtAddr 0) False False 0),
     inv_len = 0, inv_flags = 0\<rparr>"

definition inv_enqueue :: "InvInstruction \<Rightarrow> TlbInvData \<Rightarrow> TlbInvData" where
  "inv_enqueue inst d =
     (let d = (if inst_is_global inst then set_global d else d)
      in if inv_len d = MAX_INVALIDATION_INSTRUCTIONS then set_full d
         else d\<lparr>instructions := (instructions d)[inv_len d := inst], inv_len := inv_len d + 1\<rparr>)"

definition inv_merge :: "TlbInvData \<Rightarrow> TlbInvData \<Rightarrow> TlbInvData" where
  "inv_merge d other =
     (if target_cr3 other \<noteq> target_cr3 d then set_full (set_global d)
      else
        let d = (if is_full other then set_full d else d);
            d = (if is_global other then set_global d else d)
        in if inv_len d + inv_len other > MAX_INVALIDATION_INSTRUCTIONS then set_full d
           else fold inv_enqueue (inv_instructions other) d)"

definition has_invalidations :: "TlbInvData \<Rightarrow> bool" where
  "has_invalidations d \<longleftrightarrow> inv_len d > 0 \<or> is_full d"

definition inv_reset :: "TlbInvData \<Rightarrow> TlbInvData option" where
  "inv_reset d = do {
     let d = TlbInvData_new (target_cr3 d);
     assert_that (\<not> has_invalidations d);
     Some d }"

definition tlb_non_global_inv :: "tlb_op list" where
  "tlb_non_global_inv = [Cr3Reload]"

definition tlb_global_inv :: "bool \<Rightarrow> tlb_op list" where
  "tlb_global_inv pge = (if pge then [Cr4Toggle] else tlb_non_global_inv)"

definition do_invalidation :: "u64 \<Rightarrow> bool \<Rightarrow> TlbInvData \<Rightarrow> tlb_op list option" where
  "do_invalidation our_cr3 pge d =
     (if \<not> has_invalidations d then Some []
      else if our_cr3 \<noteq> target_cr3 d \<and> \<not> is_global d then Some []
      else if is_full d
        then Some (if is_global d then tlb_global_inv pge else tlb_non_global_inv)
      else those (map inst_execute (inv_instructions d)))"

section \<open>Cache lines\<close>

type_synonym ArchCacheLineMgr = "u64 option"

definition CACHE_LINE_SIZE :: u64 where
  "CACHE_LINE_SIZE = 64"

text \<open>The lines that \<^verbatim>\<open>clflush\<close> writes back are returned beside the new state.\<close>

definition cl_do_flush :: "ArchCacheLineMgr \<Rightarrow> u64 list \<times> ArchCacheLineMgr" where
  "cl_do_flush dirty = (case dirty of Some addr \<Rightarrow> ([addr], None) | None \<Rightarrow> ([], None))"

definition cl_flush :: "VirtAddr \<Rightarrow> ArchCacheLineMgr \<Rightarrow> u64 list \<times> ArchCacheLineMgr" where
  "cl_flush line dirty =
     (let addr = va_raw line AND NOT (CACHE_LINE_SIZE - 1) in
      case dirty of
        Some d \<Rightarrow> if d \<noteq> addr then (fst (cl_do_flush dirty), Some addr) else ([], dirty)
      | None \<Rightarrow> ([], Some addr))"

definition cl_drop :: "ArchCacheLineMgr \<Rightarrow> u64 list" where
  "cl_drop dirty = fst (cl_do_flush dirty)"

section \<open>The shootdown mailbox of a processor\<close>

definition NUM_TLB_SHOOTDOWN_ENTRIES :: nat where
  "NUM_TLB_SHOOTDOWN_ENTRIES = 4"

record TlbShootdownInfo =
  sd_lock :: bool
  sd_data :: "TlbInvData option list"
  sd_full_invl :: bool

definition TlbShootdownInfo_new :: TlbShootdownInfo where
  "TlbShootdownInfo_new = \<lparr>sd_lock = False, sd_data = [None, None, None, None], sd_full_invl = False\<rparr>"

text \<open>The three searches of \<open>insert\<close>: an empty slot, a slot with the same target, slot 0.\<close>

fun insert_empty :: "TlbInvData \<Rightarrow> TlbInvData option list \<Rightarrow> TlbInvData option list option" where
  "insert_empty d [] = None"
| "insert_empty d (None # es) = Some (Some d # es)"
| "insert_empty d (Some e # es) = map_option ((#) (Some e)) (insert_empty d es)"

fun insert_same_target :: "TlbInvData \<Rightarrow> TlbInvData option list \<Rightarrow> TlbInvData option list option" where
  "insert_same_target d [] = None"
| "insert_same_target d (None # es) = None"
| "insert_same_target d (Some e # es) =
     (if target_cr3 e = target_cr3 d then Some (Some (inv_merge e d) # es)
      else map_option ((#) (Some e)) (insert_same_target d es))"

definition sd_insert_locked :: "TlbInvData \<Rightarrow> TlbInvData option list \<Rightarrow> TlbInvData option list option" where
  "sd_insert_locked d data =
     (case insert_empty d data of
        Some data' \<Rightarrow> Some data'
      | None \<Rightarrow>
          (case insert_same_target d data of
             Some data' \<Rightarrow> Some data'
           | None \<Rightarrow> (case data of Some e # es \<Rightarrow> Some (Some (inv_merge e d) # es) | _ \<Rightarrow> panic)))"

definition sd_insert :: "bool \<Rightarrow> TlbInvData \<Rightarrow> TlbShootdownInfo \<Rightarrow> TlbShootdownInfo option" where
  "sd_insert acquired d info =
     (if \<not> acquired then Some (info\<lparr>sd_full_invl := True\<rparr>)
      else do { data \<leftarrow> sd_insert_locked d (sd_data info);
                Some (info\<lparr>sd_data := data, sd_lock := False\<rparr>) })"

definition sd_is_finished :: "TlbShootdownInfo \<Rightarrow> bool" where
  "sd_is_finished info \<longleftrightarrow>
     \<not> sd_full_invl info \<and> \<not> sd_lock info \<and> list_all (\<lambda>e. e = None) (sd_data info)"

definition sd_reset :: "TlbShootdownInfo \<Rightarrow> TlbShootdownInfo option" where
  "sd_reset info = do {
     assert_that (sd_lock info);
     Some (info\<lparr>sd_data := replicate NUM_TLB_SHOOTDOWN_ENTRIES None\<rparr>) }"

text \<open>
  The loop of \<open>complete\<close> over the slots: it returns the operations issued and whether it left
  early, after a full global invalidation.
\<close>

fun complete_loop :: "u64 \<Rightarrow> bool \<Rightarrow> TlbInvData option list \<Rightarrow> (tlb_op list \<times> bool) option" where
  "complete_loop cr3 pge [] = Some ([], False)"
| "complete_loop cr3 pge (None # es) = complete_loop cr3 pge es"
| "complete_loop cr3 pge (Some d # es) = do {
     ops \<leftarrow> do_invalidation cr3 pge d;
     if is_full d \<and> is_global d then Some (ops, True)
     else do { (ops', early) \<leftarrow> complete_loop cr3 pge es; Some (ops @ ops', early) } }"

text \<open>
  \<open>complete\<close> in two parts: taking the lock together with the swap of the request for a full
  invalidation, and the rest, which runs with the lock held.
\<close>

definition sd_complete_begin :: "TlbShootdownInfo \<Rightarrow> bool \<times> TlbShootdownInfo" where
  "sd_complete_begin info = (sd_full_invl info, info\<lparr>sd_lock := True, sd_full_invl := False\<rparr>)"

definition sd_complete_end ::
  "u64 \<Rightarrow> bool \<Rightarrow> bool \<Rightarrow> TlbShootdownInfo \<Rightarrow> (tlb_op list \<times> TlbShootdownInfo) option" where
  "sd_complete_end cr3 pge full_invl info =
     (if full_invl then do {
        let data = set_full (set_global (TlbInvData_new 0));
        ops \<leftarrow> do_invalidation cr3 pge data;
        info \<leftarrow> sd_reset info;
        Some (ops, info\<lparr>sd_lock := False\<rparr>) }
      else do {
        (ops, early) \<leftarrow> complete_loop cr3 pge (sd_data info);
        info \<leftarrow> (if early then sd_reset info
                 else Some (info\<lparr>sd_data := map (\<lambda>_. None) (sd_data info)\<rparr>));
        Some (ops, info\<lparr>sd_lock := False\<rparr>) })"

definition sd_complete :: "u64 \<Rightarrow> bool \<Rightarrow> TlbShootdownInfo \<Rightarrow> (tlb_op list \<times> TlbShootdownInfo) option" where
  "sd_complete cr3 pge info =
     (let (full_invl, info) = sd_complete_begin info in sd_complete_end cr3 pge full_invl info)"

section \<open>The manager of one operation's invalidations\<close>

type_synonym ArchTlbMgr = TlbInvData

definition ArchTlbMgr_new :: "PhysAddr \<Rightarrow> ArchTlbMgr option" where
  "ArchTlbMgr_new target = do {
     let data = TlbInvData_new (pa_raw target);
     assert_that (\<not> has_invalidations data);
     Some data }"

definition tlb_set_full_global :: "ArchTlbMgr \<Rightarrow> ArchTlbMgr" where
  "tlb_set_full_global m = set_global (set_full m)"

definition tlb_enqueue :: "VirtAddr \<Rightarrow> bool \<Rightarrow> bool \<Rightarrow> nat \<Rightarrow> ArchTlbMgr \<Rightarrow> ArchTlbMgr" where
  "tlb_enqueue addr global terminal level m =
     inv_enqueue (InvInstruction_new addr global terminal (of_nat level)) m"

definition MAX_ITERS :: nat where
  "MAX_ITERS = 5000"

text \<open>
  The wait for one processor: \<open>finished k\<close> is what \<^verbatim>\<open>is_finished\<close> returns at the \<open>k\<close>-th poll.
  The result is the number of extra interrupts sent and whether the wait gave up.
\<close>

function shootdown_wait :: "(nat \<Rightarrow> bool) \<Rightarrow> nat \<Rightarrow> nat \<times> bool" where
  "shootdown_wait finished iters =
     (let iters = iters + 1;
          ipi = (if iters \<ge> MAX_ITERS div 2 then 1 else 0)
      in if finished iters \<or> iters \<ge> MAX_ITERS then (ipi, iters = MAX_ITERS)
         else let (n, w) = shootdown_wait finished iters in (ipi + n, w))"
  by pat_completeness auto
termination by (relation "measure (\<lambda>(_, iters). MAX_ITERS - iters)") auto

declare shootdown_wait.simps [simp del]

text \<open>
  \<open>finish\<close>: the command goes to the mailbox of every other active processor (\<open>acquired p\<close>
  tells whether the lock of processor \<open>p\<close> was obtained), then the interrupt is sent and the
  local invalidation done; \<open>finished p\<close> are the polls of processor \<open>p\<close>.
\<close>

definition tlb_finish ::
  "u64 \<Rightarrow> bool \<Rightarrow> (nat \<Rightarrow> bool) \<Rightarrow> (nat \<Rightarrow> nat \<Rightarrow> bool) \<Rightarrow> nat \<Rightarrow> nat list \<Rightarrow> ArchTlbMgr \<Rightarrow>
   (nat \<Rightarrow> TlbShootdownInfo) \<Rightarrow> (tlb_op list \<times> (nat \<times> bool) list \<times> ArchTlbMgr \<times> (nat \<Rightarrow> TlbShootdownInfo)) option" where
  "tlb_finish cr3 pge acquired finished self active m boxes =
     (if \<not> has_invalidations m then Some ([], [], m, boxes)
      else do {
        let others = filter (\<lambda>p. p \<noteq> self) active;
        boxes \<leftarrow> foldM (\<lambda>p boxes. do {
            b \<leftarrow> sd_insert (acquired p) m (boxes p);
            Some (boxes(p := b)) }) others boxes;
        ops \<leftarrow> do_invalidation cr3 pge m;
        let waits = map (\<lambda>p. shootdown_wait (finished p) 0) others;
        m \<leftarrow> inv_reset m;
        Some (ops, waits, m, boxes) })"

section \<open>What a command demands\<close>

definition flushed_all :: "bool \<Rightarrow> tlb_op list \<Rightarrow> bool" where
  "flushed_all pge ops \<longleftrightarrow> Cr4Toggle \<in> set ops \<or> \<not> pge \<and> Cr3Reload \<in> set ops"

definition flushed_non_global :: "tlb_op list \<Rightarrow> bool" where
  "flushed_non_global ops \<longleftrightarrow> Cr4Toggle \<in> set ops \<or> Cr3Reload \<in> set ops"

definition inst_done :: "bool \<Rightarrow> tlb_op list \<Rightarrow> InvInstruction \<Rightarrow> bool" where
  "inst_done pge ops i \<longleftrightarrow>
     (if inst_is_global i then flushed_all pge ops else flushed_non_global ops) \<or>
     map_option va_raw (inst_addr i) \<in> Some ` {a. Invlpg a \<in> set ops}"

text \<open>
  The operations \<open>ops\<close> on a processor running on \<open>cr3\<close> carry out the command \<open>d\<close>: if the command
  concerns the processor at all, a full command is answered by a flush of the global or the
  non-global translations and every listed instruction by a flush or by its \<^verbatim>\<open>invlpg\<close>.
\<close>

definition satisfied :: "u64 \<Rightarrow> bool \<Rightarrow> tlb_op list \<Rightarrow> TlbInvData \<Rightarrow> bool" where
  "satisfied cr3 pge ops d \<longleftrightarrow>
     (cr3 = target_cr3 d \<or> is_global d \<longrightarrow>
       (is_full d \<longrightarrow> (if is_global d then flushed_all pge ops else flushed_non_global ops)) \<and>
       (\<forall>i\<in>set (inv_instructions d). inst_done pge ops i))"

definition covered_by :: "TlbInvData \<Rightarrow> TlbInvData \<Rightarrow> bool" where
  "covered_by d e \<longleftrightarrow> (\<forall>cr3 pge ops. satisfied cr3 pge ops e \<longrightarrow> satisfied cr3 pge ops d)"

definition inv_wf :: "TlbInvData \<Rightarrow> bool" where
  "inv_wf d \<longleftrightarrow> length (instructions d) = 16 \<and> inv_len d \<le> 16 \<and>
     (\<forall>i\<in>set (inv_instructions d). inst_addr i \<noteq> None \<and> (inst_is_global i \<longrightarrow> is_global d))"

section \<open>Instructions round trip\<close>

lemma ADDR_MASK_eq: "ADDR_MASK = NOT (mask 12)"
  by (simp add: ADDR_MASK_def mask_eq_exp_minus_1)

lemma bit_ADDR_MASK: "bit ADDR_MASK n \<longleftrightarrow> 12 \<le> n \<and> n < 64"
  unfolding ADDR_MASK_eq by (auto simp: bit_not_iff bit_mask_iff)

lemma bit_InvInstruction_new:
  "bit (InvInstruction_new a g t l) n \<longleftrightarrow>
     12 \<le> n \<and> bit (va_raw a) n \<or> n = 0 \<and> g \<or> n = 1 \<and> t \<or> 2 \<le> n \<and> n < 10 \<and> bit l (n - 2)"
proof -
  have "bit l (n - 2) \<and> 2 \<le> n \<longrightarrow> n < 10"
    using bit_less_LENGTH [of l "n - 2"] by auto
  moreover have "bit (va_raw a) n \<longrightarrow> n < 64"
    using bit_less_LENGTH [of "va_raw a" n] by simp
  moreover have "bit (if g then push_bit 0 1 else 0 :: u64) n \<longleftrightarrow> n = 0 \<and> g"
    "bit (if t then push_bit 1 1 else 0 :: u64) n \<longleftrightarrow> n = 1 \<and> t"
    by (simp_all only: bit_push_one if_distrib [of "\<lambda>w. bit w n"] bit_0_eq) auto
  moreover have "bit (push_bit 2 (ucast l :: u64)) n \<longleftrightarrow> 2 \<le> n \<and> n < 64 \<and> bit l (n - 2)"
    by (auto simp: bit_push_bit_iff bit_ucast_iff)
  ultimately show ?thesis
    unfolding InvInstruction_new_def bit_or_iff bit_and_iff bit_ADDR_MASK by auto
qed

lemma canonical_page:
  assumes "canonical v"
  shows "canonical (v AND ADDR_MASK)"
proof -
  have "bit (v AND ADDR_MASK) n = bit (v AND ADDR_MASK) 47" if "47 \<le> n" "n < 64" for n
  proof -
    have "bit v n = bit v 47" using assms that unfolding canonical_bits by blast
    then show ?thesis using that by (simp add: bit_and_iff bit_ADDR_MASK)
  qed
  then show ?thesis unfolding canonical_bits by blast
qed

lemma inst_addr_new:
  assumes "canonical (va_raw a)"
  shows "inst_addr (InvInstruction_new a g t l) = Some (VirtAddr (va_raw a AND ADDR_MASK))"
proof -
  have "InvInstruction_new a g t l AND ADDR_MASK = va_raw a AND ADDR_MASK"
    by (rule bit_word_eqI) (auto simp: bit_and_iff bit_ADDR_MASK bit_InvInstruction_new)
  then show ?thesis
    using canonical_page [OF assms] VirtAddr_new_iff [of "va_raw a AND ADDR_MASK" "VirtAddr (va_raw a AND ADDR_MASK)"]
    by (simp add: inst_addr_def)
qed

lemma inst_is_global_bit: "inst_is_global i \<longleftrightarrow> bit i 0"
  by (simp add: inst_is_global_def and_1_eq_0)

lemma inst_is_terminal_bit: "inst_is_terminal i \<longleftrightarrow> bit i 1"
  by (simp add: inst_is_terminal_def and_2_eq_0)

lemma inst_level_new: "inst_level (InvInstruction_new a g t l) = l"
proof (rule bit_word_eqI)
  fix n assume n: "n < LENGTH(8)"
  have "(0xff :: u64) = mask 8" by (simp add: mask_eq_exp_minus_1)
  then have "bit (0xff :: u64) n \<longleftrightarrow> n < 8" by (simp only: bit_mask_iff) auto
  with n show "bit (inst_level (InvInstruction_new a g t l)) n = bit l n"
    by (simp add: inst_level_def bit_ucast_iff bit_and_iff bit_drop_bit_eq bit_InvInstruction_new)
qed

section \<open>Commands\<close>

lemma flag_simps [simp]:
  "is_full (set_full d)" "is_global (set_global d)"
  "is_full (set_global d) = is_full d" "is_global (set_full d) = is_global d"
  "target_cr3 (set_full d) = target_cr3 d" "target_cr3 (set_global d) = target_cr3 d"
  "inv_len (set_full d) = inv_len d" "inv_len (set_global d) = inv_len d"
  "instructions (set_full d) = instructions d" "instructions (set_global d) = instructions d"
  "inv_instructions (set_full d) = inv_instructions d"
  "inv_instructions (set_global d) = inv_instructions d"
  by (simp_all add: is_full_def is_global_def set_full_def set_global_def INV_FULL_def INV_GLOBAL_def
      and_1_eq_0 and_2_eq_0 bit_or_iff inv_instructions_def)

lemma array_update_simps [simp]:
  "is_full (d\<lparr>instructions := a, inv_len := n\<rparr>) = is_full d"
  "is_global (d\<lparr>instructions := a, inv_len := n\<rparr>) = is_global d"
  by (simp_all add: is_full_def is_global_def)

lemma inv_enqueue_simps [simp]:
  "target_cr3 (inv_enqueue i d) = target_cr3 d"
  "is_global (inv_enqueue i d) \<longleftrightarrow> is_global d \<or> inst_is_global i"
  "is_full (inv_enqueue i d) \<longleftrightarrow> is_full d \<or> inv_len d = 16"
  "inv_len (inv_enqueue i d) = (if inv_len d = 16 then 16 else inv_len d + 1)"
  "length (instructions (inv_enqueue i d)) = length (instructions d)"
  by (auto simp: inv_enqueue_def Let_def MAX_INVALIDATION_INSTRUCTIONS_def)

lemma inv_instructions_enqueue:
  "length (instructions d) = 16 \<Longrightarrow> inv_len d < 16 \<Longrightarrow>
   inv_instructions (inv_enqueue i d) = inv_instructions d @ [i]"
  by (simp add: inv_instructions_def inv_enqueue_def Let_def MAX_INVALIDATION_INSTRUCTIONS_def
      take_Suc_conv_app_nth)

lemma inv_instructions_enqueue_full:
  "inv_len d = 16 \<Longrightarrow> inv_instructions (inv_enqueue i d) = inv_instructions d"
  by (simp add: inv_enqueue_def Let_def MAX_INVALIDATION_INSTRUCTIONS_def)

lemma inv_wf_new: "inv_wf (TlbInvData_new t)"
  by (simp add: inv_wf_def TlbInvData_new_def inv_instructions_def MAX_INVALIDATION_INSTRUCTIONS_def)

lemma inv_wf_set: "inv_wf d \<Longrightarrow> inv_wf (set_full d)" "inv_wf d \<Longrightarrow> inv_wf (set_global d)"
  by (simp_all add: inv_wf_def)

lemma inv_wf_enqueue:
  assumes "inv_wf d" and "inst_addr i \<noteq> None"
  shows "inv_wf (inv_enqueue i d)"
proof (cases "inv_len d = 16")
  case True
  with assms show ?thesis by (auto simp: inv_wf_def inv_instructions_enqueue_full)
next
  case False
  with assms show ?thesis by (auto simp: inv_wf_def inv_instructions_enqueue)
qed

text \<open>Enqueueing a list that fits.\<close>

lemma fold_enqueue:
  assumes "length (instructions d) = 16" and "inv_len d + length xs \<le> 16"
  shows "inv_instructions (fold inv_enqueue xs d) = inv_instructions d @ xs \<and>
    inv_len (fold inv_enqueue xs d) = inv_len d + length xs \<and>
    length (instructions (fold inv_enqueue xs d)) = 16 \<and>
    target_cr3 (fold inv_enqueue xs d) = target_cr3 d \<and>
    is_full (fold inv_enqueue xs d) = is_full d \<and>
    (is_global (fold inv_enqueue xs d) \<longleftrightarrow> is_global d \<or> (\<exists>i\<in>set xs. inst_is_global i))"
  using assms
proof (induction xs arbitrary: d)
  case (Cons i xs)
  then have "length (instructions (inv_enqueue i d)) = 16"
    and "inv_len (inv_enqueue i d) + length xs \<le> 16"
    and "inv_instructions (inv_enqueue i d) = inv_instructions d @ [i]"
    by (auto simp: inv_instructions_enqueue)
  with Cons.IH [of "inv_enqueue i d"] Cons.prems show ?case by auto
qed simp

lemma length_inv_instructions: "inv_wf d \<Longrightarrow> length (inv_instructions d) = inv_len d"
  by (simp add: inv_wf_def inv_instructions_def)

lemma flushed_all_satisfied:
  assumes "flushed_all pge ops"
  shows "satisfied cr3 pge ops d"
proof -
  have "flushed_non_global ops" using assms by (auto simp: flushed_all_def flushed_non_global_def)
  then show ?thesis using assms by (simp add: satisfied_def inst_done_def)
qed

lemma covered_by_refl: "covered_by d d"
  by (simp add: covered_by_def)

lemma covered_by_trans: "covered_by d e \<Longrightarrow> covered_by e f \<Longrightarrow> covered_by d f"
  by (simp add: covered_by_def)

text \<open>
  A command covers another one with the same target if its flags include the other's and it
  is full or lists the other's instructions.
\<close>

lemma covered_byI:
  assumes "inv_wf d" and "target_cr3 d = target_cr3 e"
    and "is_global d \<Longrightarrow> is_global e" and "is_full d \<Longrightarrow> is_full e"
    and "is_full e \<or> set (inv_instructions d) \<subseteq> set (inv_instructions e)"
  shows "covered_by d e"
  unfolding covered_by_def
proof (intro allI impI)
  fix cr3 pge ops assume sat: "satisfied cr3 pge ops e"
  have ng: "flushed_all pge ops \<Longrightarrow> flushed_non_global ops"
    by (auto simp: flushed_all_def flushed_non_global_def)
  show "satisfied cr3 pge ops d"
  proof (cases "is_full e \<and> (cr3 = target_cr3 e \<or> is_global e)")
    case True
    then have "if is_global e then flushed_all pge ops else flushed_non_global ops"
      using sat by (simp add: satisfied_def)
    moreover have "\<forall>i\<in>set (inv_instructions d). inst_is_global i \<longrightarrow> is_global e"
      using assms(1,3) by (auto simp: inv_wf_def)
    ultimately show ?thesis
      using assms(3) ng by (auto simp: satisfied_def inst_done_def split: if_splits)
  next
    case False
    with assms sat show ?thesis by (auto simp: satisfied_def)
  qed
qed

lemma inv_merge_covers:
  assumes d: "inv_wf d" and e: "inv_wf e"
  shows "covered_by d (inv_merge d e) \<and> covered_by e (inv_merge d e) \<and> inv_wf (inv_merge d e)"
proof (cases "target_cr3 e = target_cr3 d")
  case False
  then have m: "inv_merge d e = set_full (set_global d)" by (simp add: inv_merge_def)
  have "satisfied cr3 pge ops (inv_merge d e) \<Longrightarrow> flushed_all pge ops" for cr3 pge ops
    by (simp add: m satisfied_def)
  then have "covered_by f (inv_merge d e)" for f
    using flushed_all_satisfied by (auto simp: covered_by_def)
  then show ?thesis using inv_wf_set d by (simp add: m)
next
  case True
  define d' where "d' = (let d = (if is_full e then set_full d else d)
    in if is_global e then set_global d else d)"
  have d': "inv_wf d'" "target_cr3 d' = target_cr3 d" "inv_len d' = inv_len d"
    "inv_instructions d' = inv_instructions d" "is_full d' \<longleftrightarrow> is_full d \<or> is_full e"
    "is_global d' \<longleftrightarrow> is_global d \<or> is_global e"
    using d inv_wf_set by (simp_all add: d'_def Let_def)
  have m: "inv_merge d e = (if inv_len d + inv_len e > 16 then set_full d'
      else fold inv_enqueue (inv_instructions e) d')"
    using True by (simp add: inv_merge_def Let_def d'_def MAX_INVALIDATION_INSTRUCTIONS_def)
  show ?thesis
  proof (cases "inv_len d + inv_len e > 16")
    case long: True
    then have m: "inv_merge d e = set_full d'" by (simp add: m)
    have "covered_by d (set_full d')" "covered_by e (set_full d')"
      by (rule covered_byI; use d e d' True in simp)+
    then show ?thesis using inv_wf_set(1) [OF d'(1)] by (simp only: m simp_thms)
  next
    case False
    then have f: "inv_len d' + length (inv_instructions e) \<le> 16" "length (instructions d') = 16"
      using d e d' by (simp_all add: length_inv_instructions inv_wf_def [of d'])
    note g = fold_enqueue [OF f(2,1)]
    have m: "inv_merge d e = fold inv_enqueue (inv_instructions e) d'" (is "_ = ?m")
      using False by (simp add: m)
    have "inv_wf ?m"
      using d' e g f by (auto simp: inv_wf_def)
    moreover have "covered_by d ?m" "covered_by e ?m"
      by (rule covered_byI; use d e d' True g in auto)+
    ultimately show ?thesis by (simp only: m simp_thms)
  qed
qed

lemma those_Some_iff: "those xs = Some ys \<longleftrightarrow> xs = map Some ys"
proof (induction xs arbitrary: ys)
  case (Cons x xs)
  then show ?case by (cases x; cases ys) auto
qed auto

lemma those_map_Some:
  assumes "\<forall>x\<in>set xs. f x \<noteq> None"
  shows "\<exists>ys. those (map f xs) = Some ys \<and> length ys = length xs"
  using assms by (induction xs) auto

lemma do_invalidation_satisfies:
  assumes "inv_wf d"
  shows "\<exists>ops. do_invalidation cr3 pge d = Some ops \<and> satisfied cr3 pge ops d"
proof -
  have ex: "\<forall>i\<in>set (inv_instructions d). inst_execute i \<noteq> None"
    using assms by (auto simp: inv_wf_def inst_execute_def)
  from those_map_Some [OF this] obtain ops where
    ops: "those (map inst_execute (inv_instructions d)) = Some ops" by blast
  have hit: "inst_done pge ops i" if i: "i \<in> set (inv_instructions d)" for i
  proof -
    from ex i obtain v where v: "inst_addr i = Some v" "inst_execute i = Some (Invlpg (va_raw v))"
      by (cases "inst_addr i") (auto simp: inst_execute_def)
    have "Some (Invlpg (va_raw v)) \<in> Some ` set ops"
      using ops i v(2) unfolding those_Some_iff by (metis image_eqI image_set)
    then show ?thesis by (auto simp: inst_done_def v(1))
  qed
  have empty: "inv_instructions d = []" if "inv_len d = 0"
    using that by (simp add: inv_instructions_def)
  have g: "inst_is_global i \<Longrightarrow> is_global d" if "i \<in> set (inv_instructions d)" for i
    using assms that by (auto simp: inv_wf_def)
  consider "\<not> has_invalidations d" | "has_invalidations d" "cr3 \<noteq> target_cr3 d" "\<not> is_global d"
    | "has_invalidations d" "cr3 = target_cr3 d \<or> is_global d" "is_full d"
    | "has_invalidations d" "cr3 = target_cr3 d \<or> is_global d" "\<not> is_full d"
    by blast
  then show ?thesis
  proof cases
    case 1
    then show ?thesis
      using empty by (simp add: do_invalidation_def satisfied_def has_invalidations_def)
  next
    case 3
    then have d: "do_invalidation cr3 pge d =
        Some (if is_global d then tlb_global_inv pge else tlb_non_global_inv)"
      by (auto simp: do_invalidation_def)
    have "flushed_all pge (tlb_global_inv pge)" "flushed_non_global tlb_non_global_inv"
      by (simp_all add: tlb_global_inv_def tlb_non_global_inv_def flushed_all_def flushed_non_global_def)
    then show ?thesis
      using d g flushed_all_satisfied by (auto simp: satisfied_def inst_done_def)
  qed (use ops hit in \<open>auto simp: do_invalidation_def satisfied_def\<close>)
qed

section \<open>The shootdown protocol\<close>

text \<open>
  The mailbox of one processor together with two ghost components: the request for a full
  invalidation that a running handler has taken, and the commands that were sent and are not
  carried out yet.  A sender that finds the lock free files its command; one that does not get
  the lock raises the full invalidation flag, also while the handler runs.  The handler runs
  on whatever page tables are then active.
\<close>

record sd_state =
  sd_info :: TlbShootdownInfo
  sd_handler :: "bool option"
  sd_outstanding :: "TlbInvData set"

definition sd_initial :: sd_state where
  "sd_initial = \<lparr>sd_info = TlbShootdownInfo_new, sd_handler = None, sd_outstanding = {}\<rparr>"

inductive sd_step :: "sd_state \<Rightarrow> sd_state \<Rightarrow> bool" where
  insert_filed: "\<lbrakk>inv_wf d; \<not> sd_lock (sd_info s); sd_insert True d (sd_info s) = Some info\<rbrakk> \<Longrightarrow>
    sd_step s (s\<lparr>sd_info := info, sd_outstanding := insert d (sd_outstanding s)\<rparr>)"
| insert_gave_up: "\<lbrakk>inv_wf d; sd_insert False d (sd_info s) = Some info\<rbrakk> \<Longrightarrow>
    sd_step s (s\<lparr>sd_info := info, sd_outstanding := insert d (sd_outstanding s)\<rparr>)"
| complete_begin: "\<lbrakk>sd_handler s = None; \<not> sd_lock (sd_info s);
      sd_complete_begin (sd_info s) = (full_invl, info)\<rbrakk> \<Longrightarrow>
    sd_step s (s\<lparr>sd_info := info, sd_handler := Some full_invl\<rparr>)"
| complete_end: "\<lbrakk>sd_handler s = Some full_invl;
      sd_complete_end cr3 pge full_invl (sd_info s) = Some (ops, info)\<rbrakk> \<Longrightarrow>
    sd_step s (s\<lparr>sd_info := info, sd_handler := None,
      sd_outstanding := {d \<in> sd_outstanding s. \<not> satisfied cr3 pge ops d}\<rparr>)"

definition sd_inv :: "sd_state \<Rightarrow> bool" where
  "sd_inv s \<longleftrightarrow>
     length (sd_data (sd_info s)) = 4 \<and>
     (\<forall>e. Some e \<in> set (sd_data (sd_info s)) \<longrightarrow> inv_wf e) \<and>
     (sd_lock (sd_info s) \<longleftrightarrow> sd_handler s \<noteq> None) \<and>
     (\<forall>d\<in>sd_outstanding s. sd_full_invl (sd_info s) \<or> sd_handler s = Some True \<or>
        (\<exists>e. Some e \<in> set (sd_data (sd_info s)) \<and> covered_by d e))"

text \<open>What inserting a command does to the slots.\<close>

definition slots_cover :: "TlbInvData option list \<Rightarrow> TlbInvData \<Rightarrow> bool" where
  "slots_cover data d \<longleftrightarrow> (\<exists>e. Some e \<in> set data \<and> covered_by d e)"

lemma slots_cover_tl: "slots_cover es d \<Longrightarrow> slots_cover (x # es) d"
  by (auto simp: slots_cover_def)

lemma slots_cover_hd: "covered_by d e \<Longrightarrow> slots_cover (Some e # es) d"
  by (auto simp: slots_cover_def)

lemma slots_cover_mem: "Some e \<in> set data \<Longrightarrow> slots_cover data e"
  by (auto simp: slots_cover_def intro: covered_by_refl)

lemma insert_empty_cover:
  "insert_empty d data = Some data' \<Longrightarrow>
   length data' = length data \<and> set data' \<subseteq> insert (Some d) (set data) \<and>
   slots_cover data' d \<and> (\<forall>e. Some e \<in> set data \<longrightarrow> Some e \<in> set data')"
  by (induction d data arbitrary: data' rule: insert_empty.induct)
    (auto simp: slots_cover_def covered_by_refl)

lemma insert_empty_None: "insert_empty d data = None \<Longrightarrow> None \<notin> set data"
  by (induction d data rule: insert_empty.induct) auto

lemma insert_same_target_cover:
  "\<lbrakk>insert_same_target d data = Some data'; inv_wf d; \<forall>e. Some e \<in> set data \<longrightarrow> inv_wf e\<rbrakk> \<Longrightarrow>
   length data' = length data \<and> (\<forall>e. Some e \<in> set data' \<longrightarrow> inv_wf e) \<and>
   slots_cover data' d \<and> (\<forall>e. Some e \<in> set data \<longrightarrow> slots_cover data' e)"
proof (induction d data arbitrary: data' rule: insert_same_target.induct)
  case (3 d e es)
  show ?case
  proof (cases "target_cr3 e = target_cr3 d")
    case True
    then have data': "data' = Some (inv_merge e d) # es" using 3(2) by simp
    note m = inv_merge_covers [of e d]
    have "inv_wf f" if "Some f \<in> set data'" for f
      using that m 3(3,4) by (auto simp: data')
    moreover have "slots_cover data' f" if "Some f \<in> set (Some e # es)" for f
      using that m 3(3,4) slots_cover_hd slots_cover_tl slots_cover_mem by (auto simp: data')
    ultimately show ?thesis
      using m 3(3,4) slots_cover_hd by (simp add: data')
  next
    case False
    with 3 obtain es' where es': "insert_same_target d es = Some es'" "data' = Some e # es'" by auto
    have IH: "length es' = length es \<and> (\<forall>e. Some e \<in> set es' \<longrightarrow> inv_wf e) \<and>
        slots_cover es' d \<and> (\<forall>e. Some e \<in> set es \<longrightarrow> slots_cover es' e)"
      using 3(1) [OF False es'(1)] 3(3,4) by simp
    have "slots_cover data' f" if "Some f \<in> set (Some e # es)" for f
      using that IH slots_cover_tl slots_cover_mem by (auto simp: es'(2))
    then show ?thesis
      using IH 3(4) slots_cover_tl by (simp add: es'(2))
  qed
qed simp_all

lemma sd_insert_locked_cover:
  assumes "inv_wf d" and "\<forall>e. Some e \<in> set data \<longrightarrow> inv_wf e" and "length data = 4"
  shows "\<exists>data'. sd_insert_locked d data = Some data' \<and> length data' = 4 \<and>
    (\<forall>e. Some e \<in> set data' \<longrightarrow> inv_wf e) \<and> slots_cover data' d \<and>
    (\<forall>e. Some e \<in> set data \<longrightarrow> slots_cover data' e)"
proof (cases "insert_empty d data")
  case (Some data')
  note c = insert_empty_cover [OF this]
  have "inv_wf e" if "Some e \<in> set data'" for e
    using c assms that by blast
  moreover have "slots_cover data' e" if "Some e \<in> set data" for e
    using c that slots_cover_mem by blast
  ultimately show ?thesis
    using c assms(3) Some by (simp add: sd_insert_locked_def)
next
  case None
  show ?thesis
  proof (cases "insert_same_target d data")
    case (Some data')
    with None insert_same_target_cover [OF Some assms(1,2)] assms(3) show ?thesis
      by (simp add: sd_insert_locked_def)
  next
    case none: None
    from assms(3) obtain x es where data: "data = x # es" by (cases data) auto
    with insert_empty_None [OF None] obtain e where e: "x = Some e" by (cases x) auto
    note m = inv_merge_covers [of e d]
    have "sd_insert_locked d data = Some (Some (inv_merge e d) # es)"
      using None none by (simp add: sd_insert_locked_def data e)
    moreover have "inv_wf f" if "Some f \<in> set (Some (inv_merge e d) # es)" for f
      using that m assms(1,2) by (auto simp: data e)
    moreover have "slots_cover (Some (inv_merge e d) # es) f" if "Some f \<in> set data" for f
      using that m assms(1,2) slots_cover_hd slots_cover_tl slots_cover_mem by (auto simp: data e)
    ultimately show ?thesis
      using m assms slots_cover_hd by (simp add: data e)
  qed
qed

lemma satisfied_mono:
  assumes "satisfied cr3 pge ops d" and "set ops \<subseteq> set ops'"
  shows "satisfied cr3 pge ops' d"
proof -
  have f: "flushed_all pge ops \<Longrightarrow> flushed_all pge ops'"
    "flushed_non_global ops \<Longrightarrow> flushed_non_global ops'"
    using assms(2) by (auto simp: flushed_all_def flushed_non_global_def)
  then have "inst_done pge ops i \<Longrightarrow> inst_done pge ops' i" for i
    using assms(2) by (auto simp: inst_done_def split: if_splits)
  with f assms(1) show ?thesis by (simp add: satisfied_def split: if_splits)
qed

lemma do_invalidation_full_global:
  assumes "inv_wf d" and "is_full d" and "is_global d"
  shows "\<exists>ops. do_invalidation cr3 pge d = Some ops \<and> flushed_all pge ops"
  using do_invalidation_satisfies [OF assms(1), of cr3 pge] assms(2,3)
  by (auto simp: satisfied_def)

lemma complete_loop_satisfies:
  "\<forall>e. Some e \<in> set data \<longrightarrow> inv_wf e \<Longrightarrow>
   \<exists>ops early. complete_loop cr3 pge data = Some (ops, early) \<and>
     (\<forall>e. Some e \<in> set data \<longrightarrow> satisfied cr3 pge ops e)"
proof (induction cr3 pge data rule: complete_loop.induct)
  case (3 cr3 pge d es)
  obtain ops where ops: "do_invalidation cr3 pge d = Some ops" "satisfied cr3 pge ops d"
    using do_invalidation_satisfies [of d cr3 pge] 3(2) by auto
  show ?case
  proof (cases "is_full d \<and> is_global d")
    case True
    with ops have "flushed_all pge ops" by (simp add: satisfied_def)
    then show ?thesis using True ops(1) flushed_all_satisfied by auto
  next
    case False
    with 3(1) [OF ops(1) False] 3(2) obtain ops' early where
      l: "complete_loop cr3 pge es = Some (ops', early)"
        "\<forall>e. Some e \<in> set es \<longrightarrow> satisfied cr3 pge ops' e" by auto
    have "satisfied cr3 pge (ops @ ops') e" if "Some e \<in> set (Some d # es)" for e
      using that l(2) ops(2) satisfied_mono [of cr3 pge _ e "ops @ ops'"] by auto
    then show ?thesis using False ops(1) l(1) by auto
  qed
qed auto

text \<open>The second part of the handler always returns, and empties the slots.\<close>

lemma sd_complete_end_satisfies:
  assumes "\<forall>e. Some e \<in> set (sd_data info) \<longrightarrow> inv_wf e" and "sd_lock info"
    and "length (sd_data info) = 4"
  shows "\<exists>ops. sd_complete_end cr3 pge full_invl info =
      Some (ops, info\<lparr>sd_data := replicate 4 None, sd_lock := False\<rparr>) \<and>
    (full_invl \<longrightarrow> flushed_all pge ops) \<and>
    (\<forall>e. Some e \<in> set (sd_data info) \<longrightarrow> satisfied cr3 pge ops e)"
proof (cases full_invl)
  case True
  have "inv_wf (set_full (set_global (TlbInvData_new 0)))"
    by (intro inv_wf_set inv_wf_new)
  from do_invalidation_full_global [OF this] obtain ops where
    "do_invalidation cr3 pge (set_full (set_global (TlbInvData_new 0))) = Some ops" "flushed_all pge ops"
    by auto
  then show ?thesis
    using True assms(2) flushed_all_satisfied
    by (simp add: sd_complete_end_def sd_reset_def NUM_TLB_SHOOTDOWN_ENTRIES_def)
next
  case False
  obtain ops early where l: "complete_loop cr3 pge (sd_data info) = Some (ops, early)"
    "\<forall>e. Some e \<in> set (sd_data info) \<longrightarrow> satisfied cr3 pge ops e"
    using complete_loop_satisfies [OF assms(1)] by blast
  have "map (\<lambda>_. None) (sd_data info) = replicate 4 (None :: TlbInvData option)"
    using assms(3) by (simp add: map_replicate_const)
  with l False assms(2) show ?thesis
    by (simp add: sd_complete_end_def sd_reset_def NUM_TLB_SHOOTDOWN_ENTRIES_def)
qed

lemma sd_inv_initial: "sd_inv sd_initial"
  by (simp add: sd_inv_def sd_initial_def TlbShootdownInfo_new_def)

lemma sd_inv_outstanding:
  "sd_inv s \<longleftrightarrow> length (sd_data (sd_info s)) = 4 \<and>
     (\<forall>e. Some e \<in> set (sd_data (sd_info s)) \<longrightarrow> inv_wf e) \<and>
     (sd_lock (sd_info s) \<longleftrightarrow> sd_handler s \<noteq> None) \<and>
     (\<forall>d\<in>sd_outstanding s. sd_full_invl (sd_info s) \<or> sd_handler s = Some True \<or>
        slots_cover (sd_data (sd_info s)) d)"
  by (simp add: sd_inv_def slots_cover_def)

lemma sd_end_outstanding:
  assumes "sd_inv s" and "sd_handler s = Some full_invl"
  shows "\<exists>ops. sd_complete_end cr3 pge full_invl (sd_info s) =
      Some (ops, (sd_info s)\<lparr>sd_data := replicate 4 None, sd_lock := False\<rparr>) \<and>
    (\<not> sd_full_invl (sd_info s) \<longrightarrow> (\<forall>d\<in>sd_outstanding s. satisfied cr3 pge ops d))"
proof -
  note i = assms(1) [unfolded sd_inv_outstanding]
  obtain ops where ops: "sd_complete_end cr3 pge full_invl (sd_info s) =
      Some (ops, (sd_info s)\<lparr>sd_data := replicate 4 None, sd_lock := False\<rparr>)"
    and full: "full_invl \<longrightarrow> flushed_all pge ops"
    and slots: "\<forall>e. Some e \<in> set (sd_data (sd_info s)) \<longrightarrow> satisfied cr3 pge ops e"
    using sd_complete_end_satisfies [of "sd_info s" cr3 pge full_invl] i assms(2) by auto
  have "satisfied cr3 pge ops d" if d: "d \<in> sd_outstanding s" "\<not> sd_full_invl (sd_info s)" for d
  proof (cases full_invl)
    case True
    then show ?thesis using full flushed_all_satisfied by simp
  next
    case False
    with i d assms(2) have "slots_cover (sd_data (sd_info s)) d" by auto
    then show ?thesis using slots by (auto simp: slots_cover_def covered_by_def)
  qed
  with ops show ?thesis by blast
qed

lemma sd_inv_step:
  assumes "sd_step s s'" and "sd_inv s"
  shows "sd_inv s'"
  using assms
proof cases
  case (insert_filed d info)
  note i = assms(2) [unfolded sd_inv_outstanding]
  obtain data' where data': "sd_insert_locked d (sd_data (sd_info s)) = Some data'" "length data' = 4"
    "\<forall>e. Some e \<in> set data' \<longrightarrow> inv_wf e" "slots_cover data' d"
    "\<forall>e. Some e \<in> set (sd_data (sd_info s)) \<longrightarrow> slots_cover data' e"
    using sd_insert_locked_cover [OF insert_filed(2)] i by blast
  have "slots_cover data' f" if "slots_cover (sd_data (sd_info s)) f" for f
    using that data'(5) covered_by_trans unfolding slots_cover_def by blast
  then show ?thesis
    using i data' insert_filed by (auto simp: sd_inv_outstanding sd_insert_def)
next
  case (insert_gave_up d info)
  then show ?thesis using assms(2) by (auto simp: sd_inv_outstanding sd_insert_def)
next
  case (complete_begin full_invl info)
  then show ?thesis using assms(2) by (auto simp: sd_inv_outstanding sd_complete_begin_def)
next
  case (complete_end full_invl cr3 pge ops info)
  with sd_end_outstanding [OF assms(2), of full_invl cr3 pge] have
    "info = (sd_info s)\<lparr>sd_data := replicate 4 None, sd_lock := False\<rparr>"
    "\<not> sd_full_invl (sd_info s) \<Longrightarrow> \<forall>d\<in>sd_outstanding s. satisfied cr3 pge ops d"
    by auto
  then show ?thesis using complete_end(1) by (auto simp: sd_inv_outstanding)
qed

lemma sd_inv_reachable: "sd_step\<^sup>*\<^sup>* sd_initial s \<Longrightarrow> sd_inv s"
  by (induction rule: rtranclp_induct) (auto intro: sd_inv_initial sd_inv_step)

section \<open>Properties\<close>


text \<open>A run that sends one command and handles it.\<close>

definition demo_command :: TlbInvData where
  "demo_command = tlb_enqueue (VirtAddr 0x1000) False True 0 (TlbInvData_new 0x5000)"

definition demo_sent :: sd_state where
  "demo_sent = \<lparr>sd_info = TlbShootdownInfo_new\<lparr>sd_data := [Some demo_command, None, None, None]\<rparr>,
     sd_handler = None, sd_outstanding = {demo_command}\<rparr>"

definition demo_handling :: sd_state where
  "demo_handling = demo_sent\<lparr>sd_info := (sd_info demo_sent)\<lparr>sd_lock := True\<rparr>, sd_handler := Some False\<rparr>"

lemma demo_command_wf: "inv_wf demo_command"
proof -
  have "canonical (va_raw (VirtAddr 0x1000))"
    using VirtAddr_new_iff [of "0x1000" "VirtAddr 0x1000"] by (simp add: VirtAddr_new_def)
  from inst_addr_new [OF this] show ?thesis
    by (simp add: demo_command_def tlb_enqueue_def inv_wf_enqueue inv_wf_new)
qed

lemma demo_run: "sd_step\<^sup>*\<^sup>* sd_initial demo_handling"
proof -
  have "sd_step sd_initial demo_sent"
    using insert_filed [OF demo_command_wf, where s = sd_initial]
    by (simp add: sd_initial_def demo_sent_def TlbShootdownInfo_new_def sd_insert_def
        sd_insert_locked_def)
  moreover have "sd_step demo_sent demo_handling"
    using complete_begin [where s = demo_sent and full_invl = False]
    by (simp add: demo_sent_def demo_handling_def TlbShootdownInfo_new_def sd_complete_begin_def)
  ultimately show ?thesis by (meson converse_rtranclp_into_rtranclp rtranclp.rtrancl_refl)
qed




text \<open>
  C35.  Packing an invalidation into a word loses nothing: the page address, the two flags and the
  level of a packed instruction are the ones it was built from.
\<close>

theorem InvInstruction_roundtrip:
  assumes "canonical (va_raw a)"
  shows "inst_addr (InvInstruction_new a g t l) = Some (VirtAddr (va_raw a AND ADDR_MASK)) \<and>
    inst_is_global (InvInstruction_new a g t l) = g \<and>
    inst_is_terminal (InvInstruction_new a g t l) = t \<and>
    inst_level (InvInstruction_new a g t l) = l"
  using inst_addr_new [OF assms]
  by (simp add: inst_is_global_bit inst_is_terminal_bit inst_level_new bit_InvInstruction_new)

text \<open>An instance at a huge global page of kernel memory.\<close>

theorem InvInstruction_roundtrip_witness:
  "inst_addr (InvInstruction_new (VirtAddr 0xffff800000201234) True True 1) =
     Some (VirtAddr 0xffff800000201000)"
proof -
  have "canonical (va_raw (VirtAddr 0xffff800000201234))"
    using VirtAddr_new_iff [of "0xffff800000201234" "VirtAddr 0xffff800000201234"]
    by (simp add: VirtAddr_new_def)
  from InvInstruction_roundtrip [OF this, of True True 1] show ?thesis
    by (simp add: ADDR_MASK_def)
qed

end
