(* ===== verification/Page_Table.thy ===== *)
theory Page_Table
  imports Entry Tlb
begin

text \<open>
  The architecture independent page table code
  (\<^verbatim>\<open>src/kernel/src/memory/pagetables/\<close>): mapping cursors, providers of physical memory,
  the recursive operations on tables, the mapper and the map reader.

  Tables live in an explicit store \<open>st_tables\<close> from kernel virtual addresses to tables: a
  reference to a table is the address that \<^verbatim>\<open>kernel_vaddr\<close> computes for it, so two entries
  that hold the same physical address share a table.  The environment \<open>mmu\<close> has what the code
  takes from elsewhere: the physical address width, the offset of the physical memory map, the
  frame allocator, the map from addresses to frames, and the intrusive list that collects
  frames to free.  A frame is its start address.  A frame allocated with the \<^verbatim>\<open>ZEROED\<close> flag is
  handed out zeroed, so \<open>populate\<close> makes the new table all zero.  The Boolean result of the
  operations that return \<^verbatim>\<open>Option<()>\<close> tells \<^verbatim>\<open>Some(())\<close> from \<^verbatim>\<open>None\<close>.
\<close>

section \<open>Cursors\<close>

record MappingCursor =
  mc_start :: VirtAddr
  mc_len :: usize

definition MappingCursor_new :: "VirtAddr \<Rightarrow> usize \<Rightarrow> MappingCursor" where
  "MappingCursor_new start len = \<lparr>mc_start = start, mc_len = len\<rparr>"

definition cursor_advance :: "MappingCursor \<Rightarrow> usize \<Rightarrow> MappingCursor option option" where
  "cursor_advance c len =
     (if mc_len c \<le> len then Some None
      else do {
        r \<leftarrow> VirtAddr_offset (mc_start c) (Usize len);
        (case r of
           Inl _ \<Rightarrow> Some None
         | Inr vaddr \<Rightarrow> Some (Some (c\<lparr>mc_start := vaddr, mc_len := mc_len c - len\<rparr>))) })"

definition align_advance :: "MappingCursor \<Rightarrow> usize \<Rightarrow> MappingCursor option option" where
  "align_advance c len = do {
     r \<leftarrow> VirtAddr_align_up (mc_start c) len;
     (case r of
        Inl _ \<Rightarrow> Some None
      | Inr vaddr \<Rightarrow>
          if vaddr = mc_start c then
            (if mc_len c \<le> len then Some None
             else do {
               r \<leftarrow> VirtAddr_offset (mc_start c) (Usize len);
               (case r of
                  Inl _ \<Rightarrow> Some None
                | Inr start \<Rightarrow> Some (Some (c\<lparr>mc_start := start, mc_len := mc_len c - len\<rparr>))) })
          else do {
            thislen \<leftarrow> VirtAddr_sub vaddr (mc_start c);
            if mc_len c \<le> thislen then Some None
            else Some (Some (c\<lparr>mc_len := mc_len c - thislen, mc_start := vaddr\<rparr>)) }) }"

section \<open>Providers of physical memory\<close>

record PhysMapInfo =
  pm_addr :: PhysAddr
  pm_len :: usize
  pm_settings :: MappingSettings

record 'p PhysAddrProvider =
  p_peek :: "'p \<Rightarrow> (PhysMapInfo option \<times> 'p) option"
  p_consume :: "usize \<Rightarrow> 'p \<Rightarrow> 'p option"

text \<open>The provider of a contiguous range.\<close>

record ContiguousProvider =
  cp_next :: "PhysAddr option"
  cp_rem :: usize
  cp_settings :: MappingSettings

definition ContiguousProvider_new :: "PhysAddr \<Rightarrow> usize \<Rightarrow> MappingSettings \<Rightarrow> ContiguousProvider" where
  "ContiguousProvider_new start len settings =
     \<lparr>cp_next = Some start, cp_rem = len, cp_settings = settings\<rparr>"

definition ContiguousProvider_peek ::
  "ContiguousProvider \<Rightarrow> (PhysMapInfo option \<times> ContiguousProvider) option" where
  "ContiguousProvider_peek cp = Some (case cp_next cp of
     None \<Rightarrow> (None, cp)
   | Some a \<Rightarrow> (Some \<lparr>pm_addr = a, pm_len = cp_rem cp, pm_settings = cp_settings cp\<rparr>, cp))"

definition ContiguousProvider_consume ::
  "nat \<Rightarrow> usize \<Rightarrow> ContiguousProvider \<Rightarrow> ContiguousProvider option" where
  "ContiguousProvider_consume bits len cp = (case cp_next cp of
     None \<Rightarrow> Some cp
   | Some next \<Rightarrow> do {
       r \<leftarrow> PhysAddr_offset bits next (Usize len);
       (case r of
          Inl _ \<Rightarrow> Some cp
        | Inr n \<Rightarrow> Some (cp\<lparr>cp_next := Some n, cp_rem := saturating_sub (cp_rem cp) len\<rparr>)) })"

definition contiguous :: "nat \<Rightarrow> ContiguousProvider PhysAddrProvider" where
  "contiguous bits = \<lparr>p_peek = ContiguousProvider_peek, p_consume = ContiguousProvider_consume bits\<rparr>"

text \<open>
  The provider of freshly allocated zeroed frames: its state is the allocator's state with the
  frame not yet consumed.  A frame is its start address and size; \<^verbatim>\<open>alloc_frame\<close> panics when
  there is none.
\<close>

record 'f ZeroPageProvider =
  zp_alloc :: 'f
  zp_settings :: MappingSettings
  zp_current :: "(PhysAddr \<times> usize) option"

definition ZeroPageProvider_new :: "'f \<Rightarrow> MappingSettings \<Rightarrow> 'f ZeroPageProvider" where
  "ZeroPageProvider_new a settings = \<lparr>zp_alloc = a, zp_settings = settings, zp_current = None\<rparr>"

definition ZeroPageProvider_peek ::
  "('f \<Rightarrow> ((PhysAddr \<times> usize) \<times> 'f) option) \<Rightarrow> 'f ZeroPageProvider \<Rightarrow>
   (PhysMapInfo option \<times> 'f ZeroPageProvider) option" where
  "ZeroPageProvider_peek alloc zp = (case zp_current zp of
     Some frame \<Rightarrow>
       Some (Some \<lparr>pm_addr = fst frame, pm_len = snd frame, pm_settings = zp_settings zp\<rparr>, zp)
   | None \<Rightarrow> do {
       (frame, a) \<leftarrow> alloc (zp_alloc zp);
       Some (Some \<lparr>pm_addr = fst frame, pm_len = snd frame, pm_settings = zp_settings zp\<rparr>,
         zp\<lparr>zp_alloc := a, zp_current := Some frame\<rparr>) })"

definition ZeroPageProvider_consume :: "usize \<Rightarrow> 'f ZeroPageProvider \<Rightarrow> 'f ZeroPageProvider option" where
  "ZeroPageProvider_consume len zp = Some (zp\<lparr>zp_current := None\<rparr>)"

definition ZeroPageProvider_drop ::
  "(PhysAddr \<times> usize \<Rightarrow> 'f \<Rightarrow> 'f) \<Rightarrow> 'f ZeroPageProvider \<Rightarrow> 'f" where
  "ZeroPageProvider_drop free zp = (case zp_current zp of
     Some f \<Rightarrow> free f (zp_alloc zp) | None \<Rightarrow> zp_alloc zp)"

section \<open>Consistency\<close>

record 'l Consistency =
  c_cl :: ArchCacheLineMgr
  c_clflushed :: "u64 list"
  c_tlb :: ArchTlbMgr
  c_pages :: 'l
  c_shared :: 'l

record ('f, 'l) mmu =
  phys_bits :: nat
  phys_off :: u64
  try_alloc_frame :: "'f \<Rightarrow> PhysAddr option \<times> 'f"
  get_frame :: "PhysAddr \<Rightarrow> PhysAddr option"
  list_new :: 'l
  list_push_back :: "PhysAddr \<Rightarrow> 'l \<Rightarrow> 'l"
  list_pop_back :: "'l \<Rightarrow> (PhysAddr \<times> 'l) option"

definition Consistency_new :: "('f, 'l) mmu \<Rightarrow> PhysAddr \<Rightarrow> 'l Consistency option" where
  "Consistency_new env target = do {
     tlb \<leftarrow> ArchTlbMgr_new target;
     Some \<lparr>c_cl = None, c_clflushed = [], c_tlb = tlb, c_pages = list_new env, c_shared = list_new env\<rparr> }"

definition Consistency_new_full_global :: "('f, 'l) mmu \<Rightarrow> 'l Consistency option" where
  "Consistency_new_full_global env = do {
     this \<leftarrow> Consistency_new env (PhysAddr 0);
     Some (this\<lparr>c_tlb := tlb_set_full_global (c_tlb this)\<rparr>) }"

definition consist_enqueue :: "VirtAddr \<Rightarrow> bool \<Rightarrow> bool \<Rightarrow> nat \<Rightarrow> 'l Consistency \<Rightarrow> 'l Consistency" where
  "consist_enqueue addr global terminal level c =
     c\<lparr>c_tlb := tlb_enqueue addr global terminal level (c_tlb c)\<rparr>"

definition consist_flush :: "VirtAddr \<Rightarrow> 'l Consistency \<Rightarrow> 'l Consistency" where
  "consist_flush addr c =
     (let (lines, cl) = cl_flush addr (c_cl c)
      in c\<lparr>c_cl := cl, c_clflushed := c_clflushed c @ lines\<rparr>)"

definition consist_free_frame :: "('f, 'l) mmu \<Rightarrow> PhysAddr \<Rightarrow> 'l Consistency \<Rightarrow> 'l Consistency" where
  "consist_free_frame env frame c = c\<lparr>c_pages := list_push_back env frame (c_pages c)\<rparr>"

definition consist_free_shared_frame :: "('f, 'l) mmu \<Rightarrow> PhysAddr \<Rightarrow> 'l Consistency \<Rightarrow> 'l Consistency" where
  "consist_free_shared_frame env frame c = c\<lparr>c_shared := list_push_back env frame (c_shared c)\<rparr>"

definition into_deferred :: "'l Consistency \<Rightarrow> 'l \<times> 'l" where
  "into_deferred c = (c_pages c, c_shared c)"

section \<open>Tables\<close>

record ('f, 'l) pt_state =
  st_tables :: "u64 \<Rightarrow> Table"
  st_alloc :: 'f
  st_consist :: "'l Consistency"

text \<open>The address of the table that an entry refers to; \<^verbatim>\<open>None\<close> of the source is the inner one.\<close>

definition next_table :: "('f, 'l) mmu \<Rightarrow> Table \<Rightarrow> nat \<Rightarrow> u64 option option" where
  "next_table env t index =
     (let entry = t index in
      if \<not> Entry_is_present entry \<or> Entry_is_huge entry then Some None
      else do {
        a \<leftarrow> Entry_table_addr (phys_bits env) entry;
        v \<leftarrow> phys_to_virt (phys_off env) a;
        Some (Some (va_raw v)) })"

definition next_table_frame :: "('f, 'l) mmu \<Rightarrow> Table \<Rightarrow> nat \<Rightarrow> PhysAddr option option" where
  "next_table_frame env t index =
     (let entry = t index in
      if \<not> Entry_is_present entry \<or> Entry_is_huge entry then Some None
      else do {
        a \<leftarrow> Entry_table_addr (phys_bits env) entry;
        (case PhysAddr_new (phys_bits env) (pa_raw a) of
           Inl _ \<Rightarrow> panic
         | Inr a \<Rightarrow> Some (get_frame env a)) })"

definition can_map_at :: "VirtAddr \<Rightarrow> PhysAddr \<Rightarrow> usize \<Rightarrow> usize \<Rightarrow> nat \<Rightarrow> bool option" where
  "can_map_at vaddr paddr remain phys_len level = do {
     page_size \<leftarrow> level_to_page_size level;
     va \<leftarrow> VirtAddr_is_aligned_to vaddr page_size;
     pa \<leftarrow> PhysAddr_is_aligned_to paddr page_size;
     Some (va \<and> remain \<ge> page_size \<and> pa \<and> can_map_at_level level \<and> phys_len \<ge> page_size) }"

definition populate ::
  "('f, 'l) mmu \<Rightarrow> u64 \<Rightarrow> nat \<Rightarrow> EntryFlags \<Rightarrow> ('f, 'l) pt_state \<Rightarrow> (bool \<times> ('f, 'l) pt_state) option" where
  "populate env ptr index flags st =
     (let t = st_tables st ptr; count = read_count t in
      if Entry_is_present (t index) then Some (True, st)
      else (case try_alloc_frame env (st_alloc st) of
         (None, a) \<Rightarrow> Some (False, st\<lparr>st_alloc := a\<rparr>)
       | (Some frame, a) \<Rightarrow> do {
           v \<leftarrow> phys_to_virt (phys_off env) frame;
           let tables = (st_tables st)(va_raw v := \<lambda>_. 0);
           let t = (tables ptr)(index := Entry_new frame flags);
           count \<leftarrow> checked_add count 1;
           t \<leftarrow> set_count (phys_bits env) count t;
           Some (True, st\<lparr>st_tables := tables(ptr := t), st_alloc := a\<rparr>) }))"

definition update_entry ::
  "('f, 'l) mmu \<Rightarrow> u64 \<Rightarrow> nat \<Rightarrow> Entry \<Rightarrow> VirtAddr \<Rightarrow> bool \<Rightarrow> nat \<Rightarrow>
   ('f, 'l) pt_state \<Rightarrow> ('f, 'l) pt_state option" where
  "update_entry env ptr index new_entry vaddr was_terminal level st =
     (let t = st_tables st ptr; count = read_count t; entry = t index in
      if entry = new_entry then Some st
      else do {
        let was_present = Entry_is_present entry;
        let was_global = flags_contain (ms_flags (EF_settings (Entry_flags entry))) MF_GLOBAL;
        let t = t(index := new_entry);
        let entry_addr = VirtAddr (ptr + 8 * of_nat index);
        let consist = consist_flush entry_addr (st_consist st);
        let consist = (if was_present then consist_enqueue vaddr was_global was_terminal level consist
                       else consist);
        count \<leftarrow> (if was_present \<and> \<not> Entry_is_present new_entry then checked_sub count 1
                 else if \<not> was_present \<and> Entry_is_present new_entry then checked_add count 1
                 else Some count);
        t \<leftarrow> set_count (phys_bits env) count t;
        Some (st\<lparr>st_tables := (st_tables st)(ptr := t), st_consist := consist\<rparr>) })"

text \<open>The flags of a leaf entry at a level.\<close>

definition leaf_flags :: "MappingSettings \<Rightarrow> nat \<Rightarrow> EntryFlags option" where
  "leaf_flags settings level = do {
     f \<leftarrow> EF_from settings;
     Some (f OR (if level \<noteq> last_level then EF_huge else EF_leaf)) }"

text \<open>
  \<^verbatim>\<open>Table::map\<close>: the loop over the entries of the table at \<open>ptr\<close> from index \<open>idx\<close>, which
  recurses into the next level.  The result of the recursive call is ignored, as in the source.
\<close>

function Table_map_from ::
  "('f, 'l) mmu \<Rightarrow> 'p PhysAddrProvider \<Rightarrow> u64 \<Rightarrow> nat \<Rightarrow> nat \<Rightarrow> MappingCursor \<Rightarrow> 'p \<Rightarrow>
   ('f, 'l) pt_state \<Rightarrow> (bool \<times> 'p \<times> ('f, 'l) pt_state) option" where
  "Table_map_from env pr ptr level idx cursor p st =
     (if idx \<ge> PAGE_TABLE_ENTRIES then Some (True, p, st)
      else do {
        let entry = st_tables st ptr idx;
        let is_huge = (Entry_is_huge entry \<and> can_map_at_level level);
        (info, p) \<leftarrow> p_peek pr p;
        (case info of
           None \<Rightarrow> Some (False, p, st)
         | Some paddr \<Rightarrow> do {
             (ok, p, st) \<leftarrow>
               (if Entry_is_present entry \<and> (is_huge \<or> level = last_level) then do {
                  page_size \<leftarrow> level_to_page_size level;
                  p \<leftarrow> p_consume pr page_size p;
                  Some (True, p, st) }
                else do {
                  can \<leftarrow> can_map_at (mc_start cursor) (pm_addr paddr) (mc_len cursor) (pm_len paddr) level;
                  if can then do {
                    flags \<leftarrow> leaf_flags (pm_settings paddr) level;
                    st \<leftarrow> update_entry env ptr idx (Entry_new (pm_addr paddr) flags)
                            (mc_start cursor) True level st;
                    page_size \<leftarrow> level_to_page_size level;
                    p \<leftarrow> p_consume pr page_size p;
                    Some (True, p, st) }
                  else do {
                    assert_that (level \<noteq> last_level);
                    (ok, st) \<leftarrow> populate env ptr idx EF_intermediate st;
                    if \<not> ok then Some (False, p, st)
                    else do {
                      next \<leftarrow> next_table env (st_tables st ptr) idx;
                      next \<leftarrow> next;
                      level' \<leftarrow> next_level level;
                      start_index \<leftarrow> get_index (mc_start cursor) level';
                      (_, p, st) \<leftarrow> Table_map_from env pr next level' start_index cursor p st;
                      Some (True, p, st) } } });
             if \<not> ok then Some (False, p, st)
             else do {
               page_size \<leftarrow> level_to_page_size level;
               next \<leftarrow> align_advance cursor page_size;
               (case next of
                  Some cursor \<Rightarrow> Table_map_from env pr ptr level (idx + 1) cursor p st
                | None \<Rightarrow> Some (True, p, st)) } }) })"
  by pat_completeness auto
termination
  by (relation "measures [\<lambda>(_, _, _, level, _). level, \<lambda>(_, _, _, _, idx, _). 512 - idx]")
    (auto simp: next_level_def PAGE_TABLE_ENTRIES_def split: if_splits)

declare Table_map_from.simps [simp del]

definition Table_map where
  "Table_map env pr ptr cursor level p st = do {
     start_index \<leftarrow> get_index (mc_start cursor) level;
     Table_map_from env pr ptr level start_index cursor p st }"

function Table_unmap_from ::
  "('f, 'l) mmu \<Rightarrow> u64 \<Rightarrow> nat \<Rightarrow> nat \<Rightarrow> MappingCursor \<Rightarrow> ('f, 'l) pt_state \<Rightarrow>
   ('f, 'l) pt_state option" where
  "Table_unmap_from env ptr level idx cursor st =
     (if idx \<ge> PAGE_TABLE_ENTRIES then Some st
      else do {
        let entry = st_tables st ptr idx;
        let is_huge = (Entry_is_huge entry \<and> can_map_at_level level);
        st \<leftarrow>
          (if Entry_is_present entry \<and> (is_huge \<or> level = last_level) then
             update_entry env ptr idx Entry_new_unused (mc_start cursor) True level st
           else if Entry_is_present entry \<and> level \<noteq> last_level then
             (if \<not> flags_contain (Entry_flags entry) EF_SHARED_PAGE_TABLE then do {
                next \<leftarrow> next_table env (st_tables st ptr) idx;
                next \<leftarrow> next;
                level' \<leftarrow> next_level level;
                start_index \<leftarrow> get_index (mc_start cursor) level';
                st \<leftarrow> Table_unmap_from env next level' start_index cursor st;
                if read_count (st_tables st next) = 0 \<and> level \<noteq> top_level then do {
                  frame \<leftarrow> next_table_frame env (st_tables st ptr) idx;
                  frame \<leftarrow> frame;
                  let st = st\<lparr>st_consist := consist_free_frame env frame (st_consist st)\<rparr>;
                  update_entry env ptr idx Entry_new_unused (mc_start cursor) False level st }
                else Some st }
              else Some st)
           else Some st);
        page_size \<leftarrow> level_to_page_size level;
        next \<leftarrow> align_advance cursor page_size;
        (case next of
           Some cursor \<Rightarrow> Table_unmap_from env ptr level (idx + 1) cursor st
         | None \<Rightarrow> Some st) })"
  by pat_completeness auto
termination
  by (relation "measures [\<lambda>(_, _, level, _). level, \<lambda>(_, _, _, idx, _). 512 - idx]")
    (auto simp: next_level_def PAGE_TABLE_ENTRIES_def split: if_splits)

declare Table_unmap_from.simps [simp del]

definition Table_unmap where
  "Table_unmap env ptr cursor level st = do {
     start_index \<leftarrow> get_index (mc_start cursor) level;
     Table_unmap_from env ptr level start_index cursor st }"

function Table_change_from ::
  "('f, 'l) mmu \<Rightarrow> u64 \<Rightarrow> nat \<Rightarrow> MappingSettings \<Rightarrow> nat \<Rightarrow> MappingCursor \<Rightarrow> ('f, 'l) pt_state \<Rightarrow>
   ('f, 'l) pt_state option" where
  "Table_change_from env ptr level settings idx cursor st =
     (if idx \<ge> PAGE_TABLE_ENTRIES then Some st
      else do {
        let entry = st_tables st ptr idx;
        let is_present = Entry_is_present entry;
        let is_huge = (Entry_is_huge entry \<and> can_map_at_level level);
        addr \<leftarrow> Entry_addr (phys_bits env) entry;
        st \<leftarrow>
          (if is_present \<and> (is_huge \<or> level = last_level) then do {
             flags \<leftarrow> leaf_flags settings level;
             update_entry env ptr idx (Entry_new addr flags) (mc_start cursor) True level st }
           else if is_present \<and> level \<noteq> last_level then do {
             next \<leftarrow> next_table env (st_tables st ptr) idx;
             next \<leftarrow> next;
             level' \<leftarrow> next_level level;
             start_index \<leftarrow> get_index (mc_start cursor) level';
             Table_change_from env next level' settings start_index cursor st }
           else Some st);
        page_size \<leftarrow> level_to_page_size level;
        next \<leftarrow> align_advance cursor page_size;
        (case next of
           Some cursor \<Rightarrow> Table_change_from env ptr level settings (idx + 1) cursor st
         | None \<Rightarrow> Some st) })"
  by pat_completeness auto
termination
  by (relation "measures [\<lambda>(_, _, level, _). level, \<lambda>(_, _, _, _, idx, _). 512 - idx]")
    (auto simp: next_level_def PAGE_TABLE_ENTRIES_def split: if_splits)

declare Table_change_from.simps [simp del]

definition Table_change where
  "Table_change env ptr cursor level settings st = do {
     start_index \<leftarrow> get_index (mc_start cursor) level;
     Table_change_from env ptr level settings start_index cursor st }"

record MapInfo =
  mi_vaddr :: VirtAddr
  mi_paddr :: PhysAddr
  mi_settings :: MappingSettings
  mi_psize :: usize
  mi_is_shared_pt :: bool

function Table_readmap ::
  "('f, 'l) mmu \<Rightarrow> (u64 \<Rightarrow> Table) \<Rightarrow> u64 \<Rightarrow> MappingCursor \<Rightarrow> nat \<Rightarrow> (usize + MapInfo) option" where
  "Table_readmap env tables ptr cursor level = do {
     index \<leftarrow> get_index (mc_start cursor) level;
     let entry = tables ptr index;
     let is_huge = (Entry_is_huge entry \<and> can_map_at_level level);
     if Entry_is_present entry \<and> (is_huge \<or> level = last_level) then do {
       addr \<leftarrow> Entry_addr (phys_bits env) entry;
       page_size \<leftarrow> level_to_page_size level;
       Some (Inr \<lparr>mi_vaddr = mc_start cursor, mi_paddr = addr,
         mi_settings = EF_settings (Entry_flags entry), mi_psize = page_size,
         mi_is_shared_pt = flags_contain (Entry_flags entry) EF_SHARED_PAGE_TABLE\<rparr>) }
     else if Entry_is_present entry \<and> level \<noteq> last_level then do {
       next \<leftarrow> next_table env (tables ptr) index;
       next \<leftarrow> next;
       level' \<leftarrow> next_level level;
       Table_readmap env tables next cursor level' }
     else do {
       page_size \<leftarrow> level_to_page_size level;
       Some (Inl page_size) } }"
  by pat_completeness auto
termination
  by (relation "measure (\<lambda>(_, _, _, _, level). level)") (auto simp: next_level_def split: if_splits)

declare Table_readmap.simps [simp del]

section \<open>Shared page tables and the mapper\<close>

record Mapper =
  m_root :: PhysAddr
  m_start_level :: nat

definition Mapper_new :: "PhysAddr \<Rightarrow> Mapper" where
  "Mapper_new root = \<lparr>m_root = root, m_start_level = top_level\<rparr>"

definition set_start_level :: "nat \<Rightarrow> Mapper \<Rightarrow> Mapper" where
  "set_start_level level m = m\<lparr>m_start_level := level\<rparr>"

record SharedPageTable =
  spt_mapper :: Mapper
  spt_refs :: u64
  spt_settings :: MappingSettings

definition SharedPageTable_level :: "SharedPageTable \<Rightarrow> nat" where
  "SharedPageTable_level spt = m_start_level (spt_mapper spt)"

definition FRAME_SIZE :: usize where
  "FRAME_SIZE = 0x1000"

text \<open>The provider of the root of a shared table: its state is the \<^verbatim>\<open>done\<close> flag.\<close>

definition SharedRootPageProvider_peek :: "SharedPageTable \<Rightarrow> bool \<Rightarrow> (PhysMapInfo option \<times> bool) option" where
  "SharedRootPageProvider_peek spt done = Some
     (if \<not> done then (Some \<lparr>pm_addr = m_root (spt_mapper spt), pm_len = FRAME_SIZE,
        pm_settings = spt_settings spt\<rparr>, done)
      else (None, done))"

definition SharedRootPageProvider_consume :: "usize \<Rightarrow> bool \<Rightarrow> bool option" where
  "SharedRootPageProvider_consume len done = do {
     assert_that (len = FRAME_SIZE);
     Some True }"

function Table_shared_map ::
  "('f, 'l) mmu \<Rightarrow> u64 \<Rightarrow> MappingCursor \<Rightarrow> nat \<Rightarrow> SharedPageTable \<Rightarrow> ('f, 'l) pt_state \<Rightarrow>
   (bool \<times> ('f, 'l) pt_state) option" where
  "Table_shared_map env ptr cursor level spt st = do {
     index \<leftarrow> get_index (mc_start cursor) level;
     if level = SharedPageTable_level spt + 1 then do {
       (pinfo, _) \<leftarrow> SharedRootPageProvider_peek spt False;
       pinfo \<leftarrow> pinfo;
       let flags = EF_intermediate OR EF_SHARED_PAGE_TABLE;
       st \<leftarrow> update_entry env ptr index (Entry_new (pm_addr pinfo) flags) (mc_start cursor) False level st;
       Some (True, st) }
     else if level > SharedPageTable_level spt + 1 then do {
       assert_that (level \<noteq> last_level);
       (ok, st) \<leftarrow> populate env ptr index EF_intermediate st;
       if \<not> ok then Some (False, st)
       else do {
         next \<leftarrow> next_table env (st_tables st ptr) index;
         next \<leftarrow> next;
         level' \<leftarrow> next_level level;
         (_, st) \<leftarrow> Table_shared_map env next cursor level' spt st;
         Some (True, st) } }
     else panic }"
  by pat_completeness auto
termination
  by (relation "measure (\<lambda>(_, _, _, level, _). level)") (auto simp: next_level_def split: if_splits)

declare Table_shared_map.simps [simp del]

definition mapper_root_ptr :: "('f, 'l) mmu \<Rightarrow> Mapper \<Rightarrow> u64 option" where
  "mapper_root_ptr env m = do { v \<leftarrow> phys_to_virt (phys_off env) (m_root m); Some (va_raw v) }"

definition set_top_level_table ::
  "('f, 'l) mmu \<Rightarrow> Mapper \<Rightarrow> nat \<Rightarrow> Entry \<Rightarrow> ('f, 'l) pt_state \<Rightarrow> ('f, 'l) pt_state option" where
  "set_top_level_table env m index entry st = do {
     ptr \<leftarrow> mapper_root_ptr env m;
     let root = st_tables st ptr;
     old \<leftarrow> entry_index root index;
     let was_present = Entry_is_present old;
     let count = read_count root;
     let root = root(index := entry);
     count \<leftarrow> (if was_present \<and> \<not> Entry_is_present entry then checked_sub count 1
              else if \<not> was_present \<and> Entry_is_present entry then checked_add count 1
              else Some count);
     root \<leftarrow> set_count (phys_bits env) count root;
     Some (st\<lparr>st_tables := (st_tables st)(ptr := root)\<rparr>) }"

definition get_top_level_table ::
  "('f, 'l) mmu \<Rightarrow> Mapper \<Rightarrow> nat \<Rightarrow> ('f, 'l) pt_state \<Rightarrow> Entry option" where
  "get_top_level_table env m index st = do {
     ptr \<leftarrow> mapper_root_ptr env m;
     entry_index (st_tables st ptr) index }"

definition Mapper_map ::
  "('f, 'l) mmu \<Rightarrow> 'p PhysAddrProvider \<Rightarrow> Mapper \<Rightarrow> MappingCursor \<Rightarrow> 'p \<Rightarrow> 'l Consistency \<Rightarrow>
   ('f, 'l) pt_state \<Rightarrow> (('l \<times> 'l + unit) \<times> 'p \<times> ('f, 'l) pt_state) option" where
  "Mapper_map env pr m cursor p consist st = do {
     root \<leftarrow> mapper_root_ptr env m;
     (ok, p, st) \<leftarrow> Table_map env pr root cursor (m_start_level m) p (st\<lparr>st_consist := consist\<rparr>);
     Some ((if \<not> ok then Inl (into_deferred (st_consist st)) else Inr ()), p, st) }"

definition Mapper_unmap ::
  "('f, 'l) mmu \<Rightarrow> Mapper \<Rightarrow> MappingCursor \<Rightarrow> ('f, 'l) pt_state \<Rightarrow>
   (('l \<times> 'l) \<times> ('f, 'l) pt_state) option" where
  "Mapper_unmap env m cursor st = do {
     consist \<leftarrow> Consistency_new env (m_root m);
     root \<leftarrow> mapper_root_ptr env m;
     st \<leftarrow> Table_unmap env root cursor (m_start_level m) (st\<lparr>st_consist := consist\<rparr>);
     Some (into_deferred (st_consist st), st) }"

definition Mapper_change ::
  "('f, 'l) mmu \<Rightarrow> Mapper \<Rightarrow> MappingCursor \<Rightarrow> MappingSettings \<Rightarrow> ('f, 'l) pt_state \<Rightarrow>
   ('f, 'l) pt_state option" where
  "Mapper_change env m cursor settings st = do {
     consist \<leftarrow> Consistency_new env (m_root m);
     root \<leftarrow> mapper_root_ptr env m;
     Table_change env root cursor (m_start_level m) settings (st\<lparr>st_consist := consist\<rparr>) }"

definition Mapper_shared_map ::
  "('f, 'l) mmu \<Rightarrow> Mapper \<Rightarrow> MappingCursor \<Rightarrow> SharedPageTable \<Rightarrow> ('f, 'l) pt_state \<Rightarrow>
   (('l \<times> 'l) \<times> ('f, 'l) pt_state) option" where
  "Mapper_shared_map env m cursor spt st = do {
     consist \<leftarrow> Consistency_new env (m_root m);
     root \<leftarrow> mapper_root_ptr env m;
     (_, st) \<leftarrow> Table_shared_map env root cursor (m_start_level m) spt (st\<lparr>st_consist := consist\<rparr>);
     Some (into_deferred (st_consist st), st) }"

definition do_read_map ::
  "('f, 'l) mmu \<Rightarrow> (u64 \<Rightarrow> Table) \<Rightarrow> Mapper \<Rightarrow> MappingCursor \<Rightarrow> (usize + MapInfo) option" where
  "do_read_map env tables m cursor = do {
     root \<leftarrow> mapper_root_ptr env m;
     Table_readmap env tables root cursor (m_start_level m) }"

section \<open>Reading a range of mappings\<close>

text \<open>Every step of the reader makes its cursor shorter.\<close>

lemma level_to_page_size_pos: "level_to_page_size level = Some ps \<Longrightarrow> 0 < unat ps"
proof -
  assume "level_to_page_size level = Some ps"
  then have "ps = 2 ^ (12 + 9 * level)" "12 + 9 * level < 64"
    by (simp_all add: level_to_page_size_def TOP_LEVEL_def push_bit_eq_mult split: if_splits)
  then show ?thesis using unat_pow2 [of "12 + 9 * level", where ?'a = 64] by simp
qed

lemma Table_readmap_sizes:
  "Table_readmap env tables ptr cursor level = Some r \<Longrightarrow>
   case r of Inl skip \<Rightarrow> 0 < unat skip | Inr info \<Rightarrow> 0 < unat (mi_psize info)"
proof (induction env tables ptr cursor level arbitrary: r rule: Table_readmap.induct)
  case (1 env tables ptr cursor level)
  from 1(2) [unfolded Table_readmap.simps [of env tables ptr cursor level]]
  obtain index where g: "get_index (mc_start cursor) level = Some index" by (auto simp: bind_Some_iff)
  note e = 1(2) [unfolded Table_readmap.simps [of env tables ptr cursor level] g bind.simps Let_def]
  show ?case
  proof (cases "Entry_is_present (tables ptr index) \<and>
      (Entry_is_huge (tables ptr index) \<and> can_map_at_level level \<or> level = last_level)")
    case True
    with e show ?thesis by (auto simp: bind_Some_iff level_to_page_size_pos)
  next
    case leaf: False
    show ?thesis
    proof (cases "Entry_is_present (tables ptr index) \<and> level \<noteq> last_level")
      case True
      with leaf e obtain p l where n: "next_table env (tables ptr) index = Some (Some p)" "next_level level = Some l"
        and r: "Table_readmap env tables p cursor l = Some r"
        by (auto simp: bind_Some_iff)
      from 1(1) [OF g refl refl leaf True n(1) refl n(2) r] show ?thesis .
    next
      case False
      with leaf e show ?thesis by (auto simp: bind_Some_iff level_to_page_size_pos)
    qed
  qed
qed

lemma cursor_advance_shorter:
  "cursor_advance c len = Some (Some c') \<Longrightarrow> 0 < unat len \<Longrightarrow> unat (mc_len c') < unat (mc_len c)"
  by (cases "ok_or_noncanonical VirtAddr_new (checked_add (va_raw (mc_start c)) len)")
    (auto simp: cursor_advance_def VirtAddr_offset_def unat_sub word_le_nat_alt not_le split: if_splits)

function MapReader_next ::
  "('f, 'l) mmu \<Rightarrow> (u64 \<Rightarrow> Table) \<Rightarrow> Mapper \<Rightarrow> MappingCursor option \<Rightarrow>
   (MapInfo option \<times> MappingCursor option) option" where
  "MapReader_next env tables m cursor =
     (case cursor of
        Some cursor \<Rightarrow>
          if mc_len cursor = 0 then Some (None, Some cursor)
          else do {
            info \<leftarrow> do_read_map env tables m cursor;
            (case info of
               Inr info \<Rightarrow> do {
                 next \<leftarrow> cursor_advance cursor (mi_psize info);
                 Some (Some info, next) }
             | Inl skip \<Rightarrow> do {
                 next \<leftarrow> cursor_advance cursor skip;
                 MapReader_next env tables m next }) }
      | None \<Rightarrow> Some (None, None))"
  by pat_completeness auto
termination
proof (relation "measure (\<lambda>(_, _, _, c). case c of None \<Rightarrow> 0 | Some c \<Rightarrow> Suc (unat (mc_len c)))", goal_cases)
  case (2 env tables m cursor c info skip n)
  then have "0 < unat skip"
    using Table_readmap_sizes by (fastforce simp: do_read_map_def bind_Some_iff)
  with 2 cursor_advance_shorter [of c skip] show ?case by (auto split: option.splits)
qed simp

declare MapReader_next.simps [simp del]

definition cursor_size :: "MappingCursor option \<Rightarrow> nat" where
  "cursor_size c = (case c of None \<Rightarrow> 0 | Some c \<Rightarrow> Suc (unat (mc_len c)))"

lemma MapReader_next_shorter:
  "MapReader_next env tables m cursor = Some (Some info, cursor') \<Longrightarrow> cursor_size cursor' < cursor_size cursor"
proof (induction env tables m cursor rule: MapReader_next.induct)
  case (1 env tables m cursor)
  show ?case
  proof (cases cursor)
    case None
    with 1(2) show ?thesis by (simp add: MapReader_next.simps)
  next
    case (Some c)
    note e = 1(2) [unfolded Some, unfolded MapReader_next.simps [of env tables m "Some c"] option.case]
    then obtain r where c: "mc_len c \<noteq> 0" and r: "do_read_map env tables m c = Some r"
      by (auto simp: bind_Some_iff split: if_splits)
    have pos: "case r of Inl skip \<Rightarrow> 0 < unat skip | Inr info \<Rightarrow> 0 < unat (mi_psize info)"
      using r Table_readmap_sizes by (fastforce simp: do_read_map_def bind_Some_iff)
    show ?thesis
    proof (cases r)
      case (Inr i)
      with e c r have "cursor_advance c (mi_psize i) = Some cursor'"
        by (auto simp: bind_Some_iff)
      with pos Inr Some cursor_advance_shorter [of c "mi_psize i"] show ?thesis
        by (auto simp: cursor_size_def split: option.splits)
    next
      case (Inl skip)
      with e c r obtain n where n: "cursor_advance c skip = Some n"
        "MapReader_next env tables m n = Some (Some info, cursor')"
        by (auto simp: bind_Some_iff)
      from 1(1) [OF Some c r Inl n] have "cursor_size cursor' < cursor_size n" .
      moreover have "cursor_size n \<le> cursor_size cursor"
        using n(1) pos Inl Some cursor_advance_shorter [of c skip]
        by (auto simp: cursor_size_def split: option.splits)
      ultimately show ?thesis by simp
    qed
  qed
qed

text \<open>The reader that joins adjacent mappings; \<open>bits\<close> comes from the environment.\<close>

definition mergeable :: "nat \<Rightarrow> MapInfo \<Rightarrow> MapInfo \<Rightarrow> bool option" where
  "mergeable bits prev next = do {
     v \<leftarrow> VirtAddr_offset (mi_vaddr prev) (Usize (mi_psize prev));
     p \<leftarrow> PhysAddr_offset bits (mi_paddr prev) (Usize (mi_psize prev));
     Some (case (v, p) of
        (Inr last_next, Inr last_next_phys) \<Rightarrow>
          last_next = mi_vaddr next \<and> mi_settings prev = mi_settings next \<and>
          last_next_phys = mi_paddr next
      | _ \<Rightarrow> False) }"

function MapCoalescer_next ::
  "('f, 'l) mmu \<Rightarrow> (u64 \<Rightarrow> Table) \<Rightarrow> Mapper \<Rightarrow> MappingCursor option \<Rightarrow> MapInfo option \<Rightarrow>
   (MapInfo option \<times> MappingCursor option \<times> MapInfo option) option" where
  "MapCoalescer_next env tables m cursor prev = do {
     (next, cursor') \<leftarrow> MapReader_next env tables m cursor;
     (case next of
        Some next \<Rightarrow>
          (case prev of
             Some prev \<Rightarrow> do {
               join \<leftarrow> mergeable (phys_bits env) prev next;
               if join then do {
                 psize \<leftarrow> checked_add (mi_psize prev) (mi_psize next);
                 MapCoalescer_next env tables m cursor' (Some (prev\<lparr>mi_psize := psize\<rparr>)) }
               else Some (Some prev, cursor', Some next) }
           | None \<Rightarrow> MapCoalescer_next env tables m cursor' (Some next))
      | None \<Rightarrow> Some (prev, cursor', None)) }"
  by pat_completeness auto
termination
  by (relation "measure (\<lambda>(_, _, _, c, _). cursor_size c)") (auto dest: MapReader_next_shorter)

declare MapCoalescer_next.simps [simp del]

section \<open>Shared page tables\<close>

definition SharedPageTable_new ::
  "('f \<Rightarrow> PhysAddr \<times> 'f) \<Rightarrow> nat \<Rightarrow> MappingSettings \<Rightarrow> (PhysAddr \<rightharpoonup> SharedPageTable) \<Rightarrow> 'f \<Rightarrow>
   SharedPageTable \<times> (PhysAddr \<rightharpoonup> SharedPageTable) \<times> 'f" where
  "SharedPageTable_new alloc_frame level settings mgr a =
     (let (root_page, a) = alloc_frame a;
          mapper = set_start_level level (Mapper_new root_page);
          spt = \<lparr>spt_mapper = mapper, spt_refs = 1, spt_settings = settings\<rparr>
      in (spt, mgr(root_page \<mapsto> spt), a))"

definition inc_refs :: "SharedPageTable \<Rightarrow> SharedPageTable" where
  "inc_refs spt = spt\<lparr>spt_refs := spt_refs spt + 1\<rparr>"

definition dec_refs :: "SharedPageTable \<Rightarrow> SharedPageTable option" where
  "dec_refs spt = do {
     let old = spt_refs spt;
     let spt = spt\<lparr>spt_refs := old - 1\<rparr>;
     assert_that (old > 0);
     Some spt }"

definition align_addr :: "SharedPageTable \<Rightarrow> VirtAddr \<Rightarrow> VirtAddr option" where
  "align_addr spt addr = do {
     size \<leftarrow> (if SharedPageTable_level spt < 3
              then Some (push_bit (12 + 9 * SharedPageTable_level spt) 1) else panic);
     (case VirtAddr_new (va_raw addr AND NOT (size - 1)) of Inr v \<Rightarrow> Some v | Inl _ \<Rightarrow> panic) }"

definition SharedPageTable_map where
  "SharedPageTable_map env pr spt cursor p st = do {
     consist \<leftarrow> Consistency_new_full_global env;
     Mapper_map env pr (spt_mapper spt) cursor p consist st }"

definition SharedPageTable_change where
  "SharedPageTable_change env spt cursor settings st = Mapper_change env (spt_mapper spt) cursor settings st"

definition SharedPageTable_unmap where
  "SharedPageTable_unmap env spt cursor st = Mapper_unmap env (spt_mapper spt) cursor st"

text \<open>
  \<^verbatim>\<open>free_shared_frame\<close>.  The registry and its users share one \<^verbatim>\<open>Arc\<close> and so one reference count;
  the map holds the shared value.
\<close>

definition free_shared_frame ::
  "PhysAddr \<Rightarrow> (PhysAddr \<rightharpoonup> SharedPageTable) \<Rightarrow> (PhysAddr \<rightharpoonup> SharedPageTable) option" where
  "free_shared_frame frame mgr = do {
     spt \<leftarrow> mgr frame;
     spt \<leftarrow> dec_refs spt;
     Some (mgr(frame \<mapsto> spt)) }"

end
