(* ===== verification/Fifo.thy ===== *)
theory Fifo
  imports Prelude
begin

text \<open>
  The contract of a bounded queue: what its clients rely on and what follows from it alone.
  \<open>items\<close> is the abstract content, \<open>cap\<close> the capacity.  An implementation with finite counters
  keeps the contract for a number of insertions, \<open>lives\<close>.
\<close>

text \<open>Inserting a list and taking a number of items, with any operations.\<close>

fun enq_all :: "('a \<Rightarrow> 's \<Rightarrow> (bool \<times> 's) option) \<Rightarrow> 'a list \<Rightarrow> 's \<Rightarrow> (bool \<times> 's) option" where
  "enq_all enq [] s = Some (True, s)"
| "enq_all enq (x # xs) s = do {
     (ok, s) \<leftarrow> enq x s;
     (oks, s) \<leftarrow> enq_all enq xs s;
     Some (ok \<and> oks, s) }"

fun deq_many :: "('s \<Rightarrow> ('a option \<times> 's) option) \<Rightarrow> nat \<Rightarrow> 's \<Rightarrow> ('a option list \<times> 's) option" where
  "deq_many deq 0 s = Some ([], s)"
| "deq_many deq (Suc n) s = do {
     (x, s) \<leftarrow> deq s;
     (xs, s) \<leftarrow> deq_many deq n s;
     Some (x # xs, s) }"

locale bounded_fifo =
  fixes inv :: "'s \<Rightarrow> bool"
    and items :: "'s \<Rightarrow> 'a list"
    and cap :: "'s \<Rightarrow> nat"
    and lives :: "'s \<Rightarrow> nat"
    and enq :: "'a \<Rightarrow> 's \<Rightarrow> (bool \<times> 's) option"
    and deq :: "'s \<Rightarrow> ('a option \<times> 's) option"
  assumes enq_law: "inv s \<Longrightarrow> 0 < lives s \<Longrightarrow>
      \<exists>s'. enq x s = Some (length (items s) < cap s, s') \<and> inv s' \<and> cap s' = cap s \<and>
        items s' = (if length (items s) < cap s then items s @ [x] else items s) \<and>
        lives s \<le> Suc (lives s')"
    and deq_law: "inv s \<Longrightarrow>
      \<exists>s'. deq s = Some (case items s of [] \<Rightarrow> None | x # _ \<Rightarrow> Some x, s') \<and> inv s' \<and>
        cap s' = cap s \<and> items s' = tl (items s) \<and> lives s' = lives s"
begin

lemma enq_all_items:
  assumes "inv s" and "length xs \<le> lives s" and "length (items s) + length xs \<le> cap s"
  shows "\<exists>s'. enq_all enq xs s = Some (True, s') \<and> inv s' \<and> cap s' = cap s \<and>
    items s' = items s @ xs"
  using assms
proof (induction xs arbitrary: s)
  case (Cons x xs)
  obtain s1 where s1: "enq x s = Some (True, s1)" "inv s1" "cap s1 = cap s"
    "items s1 = items s @ [x]" "lives s \<le> Suc (lives s1)"
    using enq_law [of s x] Cons.prems by auto
  with Cons.IH [of s1] Cons.prems show ?case by auto
qed auto

lemma deq_many_items:
  assumes "inv s" and "n \<le> length (items s)"
  shows "\<exists>s'. deq_many deq n s = Some (map Some (take n (items s)), s') \<and> inv s' \<and>
    cap s' = cap s \<and> items s' = drop n (items s)"
  using assms
proof (induction n arbitrary: s)
  case (Suc n)
  obtain x xs where xs: "items s = x # xs" using Suc.prems by (cases "items s") auto
  obtain s1 where "deq s = Some (Some x, s1)" "inv s1" "cap s1 = cap s" "items s1 = xs"
    using deq_law [of s] Suc.prems xs by auto
  with Suc.IH [of s1] Suc.prems xs show ?case by auto
qed auto

text \<open>What goes in comes out, in order.\<close>

lemma transmit:
  assumes "inv s" and "items s = []" and "length xs \<le> lives s" and "length xs \<le> cap s"
  shows "\<exists>s' s''. enq_all enq xs s = Some (True, s') \<and>
    deq_many deq (length xs) s' = Some (map Some xs, s'') \<and> items s'' = [] \<and> inv s''"
proof -
  obtain s' where s': "enq_all enq xs s = Some (True, s')" "inv s'" "items s' = xs"
    using enq_all_items [OF assms(1), of xs] assms by auto
  with deq_many_items [of s' "length xs"] show ?thesis by auto
qed

text \<open>A full queue refuses, an empty one has nothing.\<close>

lemma full_refuses:
  assumes "inv s" and "0 < lives s" and "length (items s) = cap s"
  shows "\<exists>s'. enq x s = Some (False, s') \<and> items s' = items s"
  using enq_law [OF assms(1,2), of x] assms(3) by auto

lemma empty_has_nothing:
  assumes "inv s" and "items s = []"
  shows "\<exists>s'. deq s = Some (None, s') \<and> items s' = []"
  using deq_law [OF assms(1)] assms(2) by auto

end

end
