(* ===== verification/Raw_Queue.thy ===== *)
theory Raw_Queue
  imports Fifo
begin

text \<open>
  The raw queue (\<^verbatim>\<open>src/lib/twizzler-queue-raw/src/lib.rs\<close>): a multi-producer, single-consumer
  ring of queue entries, with a head counter that submitters reserve slots with, a tail
  counter that the consumer advances, a doorbell and turn bits in the entries.

  The operations of the header are definitions on the shared state.  The queue is used in two
  ways.  First sequentially: \<open>submit\<close> and \<open>receive\<close> with the non-blocking flag run the whole
  operation at once, and refine a bounded queue.  Second concurrently: \<open>rq_step\<close> is the step
  relation of any number of submitters and one consumer, in which each step makes at most one
  access to the shared words, with the retry loops, the waiting and the wake-ups of the
  source.  The \<^verbatim>\<open>wait\<close> callback may return at any time, which is more than its contract allows.
\<close>

section \<open>The shared state\<close>

record 'a QueueEntry =
  cmd_slot :: u32
  qe_info :: u32
  qe_data :: 'a

definition QueueEntry_new :: "u32 \<Rightarrow> 'a \<Rightarrow> 'a QueueEntry" where
  "QueueEntry_new info item = \<lparr>cmd_slot = 0, qe_info = info, qe_data = item\<rparr>"

record 'a RawQueue =
  rq_l2len :: nat
  rq_stride :: usize
  rq_head :: u32
  rq_waiters :: u32
  rq_bell :: u64
  rq_tail :: u64
  rq_buf :: "nat \<Rightarrow> 'a QueueEntry"

datatype QueueError = QueueError_Unknown | QueueError_WouldBlock

definition RawQueue_new :: "nat \<Rightarrow> usize \<Rightarrow> (nat \<Rightarrow> 'a QueueEntry) \<Rightarrow> 'a RawQueue" where
  "RawQueue_new l2len stride buf = \<lparr>rq_l2len = l2len, rq_stride = stride, rq_head = 0,
     rq_waiters = 0, rq_bell = 0, rq_tail = 0, rq_buf = buf\<rparr>"

definition rq_len :: "'a RawQueue \<Rightarrow> usize option" where
  "rq_len q = (if rq_l2len q < 64 then Some (push_bit (rq_l2len q) 1) else panic)"

definition rq_is_full :: "'a RawQueue \<Rightarrow> u32 \<Rightarrow> u64 \<Rightarrow> bool option" where
  "rq_is_full q h t = do {
     d \<leftarrow> checked_sub (ucast (h AND 0x7fffffff)) (t AND 0x7fffffff);
     len \<leftarrow> rq_len q;
     Some (d \<ge> len) }"

definition rq_is_empty :: "u64 \<Rightarrow> u64 \<Rightarrow> bool" where
  "rq_is_empty bell tail \<longleftrightarrow> bell AND 0x7fffffff = tail AND 0x7fffffff"

definition rq_is_turn :: "'a RawQueue \<Rightarrow> u64 \<Rightarrow> 'a QueueEntry \<Rightarrow> bool option" where
  "rq_is_turn q t item = do {
     len \<leftarrow> rq_len q;
     let turn = (t div len) mod 2;
     let val = drop_bit 31 (cmd_slot item);
     Some ((val = 0) = (turn = 1)) }"

definition rq_consumer_waiting :: "'a RawQueue \<Rightarrow> bool" where
  "rq_consumer_waiting q \<longleftrightarrow> rq_tail q AND push_bit 31 1 \<noteq> 0"

definition rq_submitter_waiting :: "'a RawQueue \<Rightarrow> bool" where
  "rq_submitter_waiting q \<longleftrightarrow> rq_waiters q > 0"

definition rq_consumer_set_waiting :: "bool \<Rightarrow> 'a RawQueue \<Rightarrow> 'a RawQueue" where
  "rq_consumer_set_waiting waiting q =
     (if waiting then q\<lparr>rq_tail := rq_tail q OR push_bit 31 1\<rparr>
      else q\<lparr>rq_tail := rq_tail q AND NOT (push_bit 31 1)\<rparr>)"

definition rq_inc_submit_waiting :: "'a RawQueue \<Rightarrow> 'a RawQueue" where
  "rq_inc_submit_waiting q = q\<lparr>rq_waiters := rq_waiters q + 1\<rparr>"

definition rq_dec_submit_waiting :: "'a RawQueue \<Rightarrow> 'a RawQueue" where
  "rq_dec_submit_waiting q = q\<lparr>rq_waiters := rq_waiters q - 1\<rparr>"

definition rq_get_turn :: "'a RawQueue \<Rightarrow> u32 \<Rightarrow> bool option" where
  "rq_get_turn q h = do {
     len \<leftarrow> rq_len q;
     let len32 = (ucast len :: u32);
     if len32 = 0 then panic else Some ((h div len32) mod 2 = 0) }"

text \<open>The slot of a counter value, and the word that publishes the entry of counter value \<open>h\<close>.\<close>

definition rq_get_buf :: "'a RawQueue \<Rightarrow> u64 \<Rightarrow> nat option" where
  "rq_get_buf q off = do { len \<leftarrow> rq_len q; Some (unat (off AND (len - 1))) }"

definition rq_cmd :: "'a RawQueue \<Rightarrow> u32 \<Rightarrow> u32 option" where
  "rq_cmd q h = do {
     turn \<leftarrow> rq_get_turn q h;
     Some (h OR (if turn then push_bit 31 1 else 0)) }"

text \<open>Ringing the doorbell; the Boolean tells whether the \<^verbatim>\<open>ring\<close> callback is called.\<close>

definition rq_ring :: "'a RawQueue \<Rightarrow> bool \<times> 'a RawQueue" where
  "rq_ring q = (let q = q\<lparr>rq_bell := rq_bell q + 1\<rparr> in (rq_consumer_waiting q, q))"

definition rq_has_pending :: "'a RawQueue \<Rightarrow> bool option" where
  "rq_has_pending q = do {
     let t = rq_tail q AND 0x7fffffff;
     let b = rq_bell q;
     i \<leftarrow> rq_get_buf q t;
     turn \<leftarrow> rq_is_turn q t (rq_buf q i);
     Some (\<not> rq_is_empty b t \<and> turn) }"

definition rq_has_space :: "'a RawQueue \<Rightarrow> bool option" where
  "rq_has_space q = do { full \<leftarrow> rq_is_full q (rq_head q) (rq_tail q); Some (\<not> full) }"

definition rq_advance_tail :: "'a RawQueue \<Rightarrow> (bool \<times> 'a RawQueue) option" where
  "rq_advance_tail q = do {
     let t = rq_tail q;
     t \<leftarrow> checked_add t 1;
     let q = q\<lparr>rq_tail := t AND 0x7fffffff\<rparr>;
     Some (rq_submitter_waiting q, q) }"

section \<open>Sequential operations\<close>

text \<open>
  \<^verbatim>\<open>reserve_slot\<close> run alone with the non-blocking flag: the loop runs once, since nobody else
  changes the words.
\<close>

definition rq_reserve_slot :: "'a RawQueue \<Rightarrow> ((QueueError + u32) \<times> 'a RawQueue) option" where
  "rq_reserve_slot q = do {
     let h = rq_head q;
     let t = rq_tail q;
     full \<leftarrow> rq_is_full q h t;
     if \<not> full then do {
       h' \<leftarrow> checked_add h 1;
       Some (Inr (h AND 0x7fffffff), q\<lparr>rq_head := h'\<rparr>) }
     else Some (Inl QueueError_WouldBlock, q) }"

definition rq_submit :: "'a QueueEntry \<Rightarrow> 'a RawQueue \<Rightarrow> ((QueueError + unit) \<times> 'a RawQueue) option" where
  "rq_submit item q = do {
     (r, q) \<leftarrow> rq_reserve_slot q;
     (case r of
        Inl e \<Rightarrow> Some (Inl e, q)
      | Inr h \<Rightarrow> do {
          i \<leftarrow> rq_get_buf q (ucast h);
          let q = q\<lparr>rq_buf := (rq_buf q)(i := (rq_buf q i)\<lparr>qe_data := qe_data item\<rparr>)\<rparr>;
          let q = q\<lparr>rq_buf := (rq_buf q)(i := (rq_buf q i)\<lparr>qe_info := qe_info item\<rparr>)\<rparr>;
          cmd \<leftarrow> rq_cmd q h;
          let q = q\<lparr>rq_buf := (rq_buf q)(i := (rq_buf q i)\<lparr>cmd_slot := cmd\<rparr>)\<rparr>;
          Some (Inr (), snd (rq_ring q)) }) }"

definition rq_get_next_ready :: "'a RawQueue \<Rightarrow> (QueueError + u64) option" where
  "rq_get_next_ready q = do {
     let t = rq_tail q AND 0x7fffffff;
     pending \<leftarrow> rq_has_pending q;
     Some (if pending then Inr t else Inl QueueError_WouldBlock) }"

definition rq_receive :: "'a RawQueue \<Rightarrow> ((QueueError + 'a QueueEntry) \<times> 'a RawQueue) option" where
  "rq_receive q = do {
     r \<leftarrow> rq_get_next_ready q;
     (case r of
        Inl e \<Rightarrow> Some (Inl e, q)
      | Inr t \<Rightarrow> do {
          i \<leftarrow> rq_get_buf q t;
          let item = rq_buf q i;
          (_, q) \<leftarrow> rq_advance_tail q;
          Some (Inr item, q) }) }"

text \<open>
  Preparing to sleep: the word to sleep on is named by a tag.  The sleep for sending is meant to
  register a waiting submitter.
\<close>

datatype rq_word = WordBell | WordTail

definition rq_setup_rec_sleep_simple :: "'a RawQueue \<Rightarrow> (rq_word \<times> u64) \<times> 'a RawQueue" where
  "rq_setup_rec_sleep_simple q =
     (let q = rq_consumer_set_waiting True q in ((WordBell, rq_tail q AND 0x7fffffff), q))"

definition rq_setup_send_sleep_simple :: "'a RawQueue \<Rightarrow> ((rq_word \<times> u64) \<times> 'a RawQueue) option" where
  "rq_setup_send_sleep_simple q = do {
     let _ = rq_submitter_waiting q;
     let t = rq_tail q AND 0x7fffffff;
     let h = rq_head q AND 0x7fffffff;
     full \<leftarrow> rq_is_full q h t;
     Some (if full then (WordTail, t) else (WordTail, - 1), q) }"

definition rq_setup_rec_sleep ::
  "bool \<Rightarrow> 'a RawQueue \<Rightarrow> ((QueueError + u64) \<times> (rq_word \<times> u64) \<times> 'a RawQueue) option" where
  "rq_setup_rec_sleep sleep q = do {
     let t = rq_tail q AND 0x7fffffff;
     let b = rq_bell q;
     i \<leftarrow> rq_get_buf q t;
     turn \<leftarrow> rq_is_turn q t (rq_buf q i);
     if rq_is_empty b t \<or> \<not> turn then
       (if sleep then do {
          let q = rq_consumer_set_waiting True q;
          let b = rq_bell q;
          turn \<leftarrow> rq_is_turn q t (rq_buf q i);
          Some (if \<not> rq_is_empty b t \<and> turn then Inr t else Inl QueueError_WouldBlock, (WordBell, b), q) }
        else Some (Inl QueueError_WouldBlock, (WordBell, b), q))
     else Some (Inr t, (WordBell, b), q) }"

definition rq_advance_tail_setup :: "'a RawQueue \<Rightarrow> (rq_word option \<times> 'a RawQueue) option" where
  "rq_advance_tail_setup q = do {
     let t = rq_tail q;
     t \<leftarrow> checked_add t 1;
     let q = q\<lparr>rq_tail := t AND 0x7fffffff\<rparr>;
     Some (if rq_submitter_waiting q then Some WordTail else None, q) }"

definition rq_setup_sleep ::
  "bool \<Rightarrow> 'a RawQueue \<Rightarrow>
   ((QueueError + 'a QueueEntry) \<times> (rq_word \<times> u64) \<times> rq_word option \<times> 'a RawQueue) option" where
  "rq_setup_sleep sleep q = do {
     (r, waiter, q) \<leftarrow> rq_setup_rec_sleep sleep q;
     (case r of
        Inl e \<Rightarrow> Some (Inl e, waiter, None, q)
      | Inr t \<Rightarrow> do {
          i \<leftarrow> rq_get_buf q t;
          let item = rq_buf q i;
          (ringer, q) \<leftarrow> rq_advance_tail_setup q;
          Some (Inr item, waiter, ringer, q) }) }"

text \<open>One pass of \<^verbatim>\<open>multi_receive\<close> over the queues, and the whole of it without blocking.\<close>

fun multi_receive_pass ::
  "bool \<Rightarrow> 'a RawQueue list \<Rightarrow> 'a QueueEntry option list \<Rightarrow>
   (nat \<times> 'a RawQueue list \<times> 'a QueueEntry option list) option" where
  "multi_receive_pass sleep [] outs = Some (0, [], outs)"
| "multi_receive_pass sleep (q # qs) [] = panic"
| "multi_receive_pass sleep (q # qs) (out # outs) = do {
     (r, _, _, q) \<leftarrow> rq_setup_sleep sleep q;
     (n, qs, outs) \<leftarrow> multi_receive_pass sleep qs outs;
     Some (case r of
        Inr item \<Rightarrow> (n + 1, q # qs, Some item # outs)
      | Inl _ \<Rightarrow> (n, q # qs, out # outs)) }"

definition multi_receive ::
  "'a RawQueue list \<Rightarrow> 'a QueueEntry option list \<Rightarrow>
   ((QueueError + nat) \<times> 'a RawQueue list \<times> 'a QueueEntry option list) option" where
  "multi_receive qs outs =
     (if length outs \<noteq> length qs then Some (Inl QueueError_Unknown, qs, outs)
      else do {
        (count, qs, outs) \<leftarrow> multi_receive_pass False qs outs;
        Some (if count > 0 then Inr count else Inl QueueError_WouldBlock, qs, outs) })"

section \<open>Counters as natural numbers\<close>

definition rq_H :: "'a RawQueue \<Rightarrow> nat" where
  "rq_H q = unat (rq_head q)"

definition rq_T :: "'a RawQueue \<Rightarrow> nat" where
  "rq_T q = unat (rq_tail q AND 0x7fffffff)"

definition rq_L :: "'a RawQueue \<Rightarrow> nat" where
  "rq_L q = 2 ^ rq_l2len q"

lemma mask31: "(0x7fffffff :: 'a::len word) = mask 31"
  by (simp add: mask_eq_exp_minus_1)

lemma and_mask31: "w AND 0x7fffffff = take_bit 31 w" for w :: "'a::len word"
  by (simp only: mask31 take_bit_eq_mask)

lemma unat_and_mask31: "unat (w AND 0x7fffffff) = unat w mod 2 ^ 31" for w :: "'a::len word"
  by (simp only: and_mask31 unat_take_bit)

lemma rq_T_less: "rq_T q < 2 ^ 31"
  by (simp add: rq_T_def unat_and_mask31)

lemma rq_len_eq: "rq_l2len q < 31 \<Longrightarrow> rq_len q = Some (2 ^ rq_l2len q)"
  by (simp add: rq_len_def push_bit_eq_mult)

lemma unat_rq_len: "rq_l2len q < 31 \<Longrightarrow> unat (2 ^ rq_l2len q :: 64 word) = rq_L q"
  by (simp add: unat_pow2 rq_L_def)

lemma rq_is_full_eq:
  assumes "rq_l2len q < 31" and "unat h < 2 ^ 31"
  shows "rq_is_full q h t =
    (if unat t mod 2 ^ 31 \<le> unat h then Some (unat h - unat t mod 2 ^ 31 \<ge> rq_L q) else None)"
proof -
  have h: "unat (ucast (h AND 0x7fffffff) :: u64) = unat h"
    using assms(2) unat_and_mask31 [of h] by (simp add: unat_ucast)
  have t: "unat (t AND 0x7fffffff) = unat t mod 2 ^ 31" by (rule unat_and_mask31)
  show ?thesis
    using assms
    by (simp add: rq_is_full_def checked_sub_def word_le_nat_alt h t rq_len_eq unat_sub
        unat_rq_len del: unsigned_and_eq)
qed

lemma rq_get_buf_eq:
  assumes "rq_l2len q < 31"
  shows "rq_get_buf q off = Some (unat off mod rq_L q)"
proof -
  have "(2 ^ rq_l2len q - 1 :: u64) = mask (rq_l2len q)" by (simp add: mask_eq_exp_minus_1)
  then show ?thesis
    using assms by (simp add: rq_get_buf_def rq_len_eq rq_L_def unat_take_bit flip: take_bit_eq_mask)
qed

lemma drop_bit_31: "drop_bit 31 (w :: u32) = 0 \<longleftrightarrow> \<not> bit w 31"
proof -
  have "bit (drop_bit 31 w) n \<longleftrightarrow> n = 0 \<and> bit w 31" for n
    using bit_less_LENGTH [of w "31 + n"] by (cases n) (auto simp: bit_drop_bit_eq)
  then show ?thesis by (metis bit_0_eq bit_word_eqI bot_apply bot_bool_def)
qed

lemma rq_is_turn_eq:
  assumes "rq_l2len q < 31"
  shows "rq_is_turn q t item = Some (bit (cmd_slot item) 31 = even (unat t div rq_L q))"
proof -
  have "unat (t div 2 ^ rq_l2len q mod 2) = (unat t div rq_L q) mod 2"
    using assms by (simp add: unat_div unat_mod unat_rq_len)
  then have "t div 2 ^ rq_l2len q mod 2 = 1 \<longleftrightarrow> odd (unat t div rq_L q)"
    by (metis odd_iff_mod_2_eq_one unat_eq_1_iff)
  then show ?thesis
    using assms by (auto simp: rq_is_turn_def rq_len_eq Let_def drop_bit_31)
qed

lemma rq_get_turn_eq:
  assumes "rq_l2len q < 31"
  shows "rq_get_turn q h = Some (even (unat h div rq_L q))"
proof -
  have u: "(ucast (2 ^ rq_l2len q :: u64) :: u32) = 2 ^ rq_l2len q"
    using assms power_strict_increasing [of "rq_l2len q" 32 "2 :: nat"]
    by (intro word_unat_eq_iff [THEN iffD2]) (simp add: unat_ucast unat_pow2)
  have l: "unat (2 ^ rq_l2len q :: u32) = rq_L q"
    using assms by (simp add: unat_pow2 rq_L_def)
  then have "(2 ^ rq_l2len q :: u32) \<noteq> 0"
    by (metis rq_L_def unat_0 power_not_zero zero_neq_numeral)
  moreover have "unat (h div 2 ^ rq_l2len q mod 2) = (unat h div rq_L q) mod 2"
    by (simp add: unat_div unat_mod l)
  then have "h div 2 ^ rq_l2len q mod 2 = 0 \<longleftrightarrow> even (unat h div rq_L q)"
    by (metis even_iff_mod_2_eq_zero unat_eq_zero)
  ultimately show ?thesis
    using assms by (simp add: rq_get_turn_def rq_len_eq Let_def u)
qed

lemma rq_cmd_eq:
  assumes "rq_l2len q < 31" and "unat h < 2 ^ 31"
  shows "\<exists>cmd. rq_cmd q h = Some cmd \<and> bit cmd 31 = even (unat h div rq_L q)"
proof -
  have "h = take_bit 31 h"
    using assms(2) by (intro word_unat_eq_iff [THEN iffD2]) (simp only: unat_take_bit, simp)
  then have "\<not> bit h 31" by (metis bit_take_bit_iff less_irrefl)
  then show ?thesis
    using assms by (auto simp: rq_cmd_def rq_get_turn_eq bit_or_iff entry_bits)
qed

section \<open>The sequential queue refines a bounded queue\<close>

text \<open>
  The state between operations: the counters are in step, the entries from tail to head are
  published and the free slots carry the turn bit of the previous go around.
\<close>

definition published :: "'a RawQueue \<Rightarrow> nat \<Rightarrow> bool" where
  "published q k \<longleftrightarrow> bit (cmd_slot (rq_buf q (k mod rq_L q))) 31 = even (k div rq_L q)"

definition rq_inv :: "'a RawQueue \<Rightarrow> bool" where
  "rq_inv q \<longleftrightarrow> rq_l2len q < 31 \<and> rq_H q < 2 ^ 31 \<and> unat (rq_tail q) < 2 ^ 31 \<and>
     unat (rq_bell q) = rq_H q \<and> rq_T q \<le> rq_H q \<and> rq_H q \<le> rq_T q + rq_L q \<and>
     (\<forall>k. rq_T q \<le> k \<and> k < rq_H q \<longrightarrow> published q k) \<and>
     (\<forall>k. rq_H q \<le> k \<and> k < rq_T q + rq_L q \<longrightarrow> \<not> published q k)"

definition rq_items :: "'a RawQueue \<Rightarrow> (u32 \<times> 'a) list" where
  "rq_items q = map (\<lambda>k. let e = rq_buf q (k mod rq_L q) in (qe_info e, qe_data e)) [rq_T q..<rq_H q]"

lemma length_rq_items: "length (rq_items q) = rq_H q - rq_T q"
  by (simp add: rq_items_def)

lemma rq_inv_new:
  assumes "l2len < 31" and "\<forall>i. \<not> bit (cmd_slot (buf i)) 31"
  shows "rq_inv (RawQueue_new l2len stride buf)" and "rq_items (RawQueue_new l2len stride buf) = []"
  using assms
  by (auto simp: rq_inv_def rq_items_def RawQueue_new_def rq_H_def rq_T_def published_def rq_L_def)

text \<open>Slots of different counter values in one window are different.\<close>

lemma mod_window_inj:
  assumes "t \<le> i" "i < t + n" "t \<le> j" "j < t + n" "i mod n = j mod n"
  shows "i = (j :: nat)"
proof -
  have False if ij: "i < j" "t \<le> i" "j < t + n" "i mod n = j mod n" for i j
  proof -
    have "n dvd (j - i)" using ij mod_eq_dvd_iff_nat [of i j n] by simp
    moreover have "0 < j - i" "j - i < n" using ij by auto
    ultimately show False by (meson nat_dvd_not_less)
  qed
  then show ?thesis using assms by (metis linorder_neqE_nat)
qed

lemma published_upd_other:
  "k mod rq_L q \<noteq> i \<Longrightarrow> rq_l2len q' = rq_l2len q \<Longrightarrow> rq_buf q' = (rq_buf q)(i := e) \<Longrightarrow>
   published q' k = published q k"
  by (simp add: published_def rq_L_def)

lemma even_div_add: "0 < (n :: nat) \<Longrightarrow> even ((k + n) div n) \<longleftrightarrow> odd (k div n)"
  by (simp add: div_add_self2)

lemma rq_is_full_inv:
  assumes "rq_inv q"
  shows "rq_is_full q (rq_head q) (rq_tail q) = Some (rq_H q = rq_T q + rq_L q)"
proof -
  have "unat (rq_tail q) mod 2 ^ 31 = rq_T q" by (simp add: rq_T_def unat_and_mask31)
  then show ?thesis
    using assms rq_is_full_eq [of q "rq_head q" "rq_tail q"]
    by (auto simp: rq_inv_def rq_H_def)
qed

lemma rq_submit_full:
  assumes "rq_inv q" and "rq_H q = rq_T q + rq_L q"
  shows "rq_submit item q = Some (Inl QueueError_WouldBlock, q)"
  using rq_is_full_inv [OF assms(1)] assms(2) by (simp add: rq_submit_def rq_reserve_slot_def Let_def)

lemma rq_submit_space:
  assumes "rq_inv q" and "rq_H q < rq_T q + rq_L q" and "rq_H q + 1 < 2 ^ 31"
  shows "\<exists>cmd. bit cmd 31 = even (rq_H q div rq_L q) \<and>
    rq_submit item q = Some (Inr (), q\<lparr>rq_head := rq_head q + 1, rq_bell := rq_bell q + 1,
      rq_buf := (rq_buf q)(rq_H q mod rq_L q :=
        \<lparr>cmd_slot = cmd, qe_info = qe_info item, qe_data = qe_data item\<rparr>)\<rparr>)"
proof -
  have l: "rq_l2len q < 31" and h: "unat (rq_head q) < 2 ^ 31"
    using assms(1) by (auto simp: rq_inv_def rq_H_def)
  have full: "rq_is_full q (rq_head q) (rq_tail q) = Some False"
    using rq_is_full_inv [OF assms(1)] assms(2) by simp
  have add: "checked_add (rq_head q) 1 = Some (rq_head q + 1)"
    using h by (simp add: checked_add_def)
  have m: "rq_head q AND 0x7fffffff = rq_head q"
    using h by (intro word_unat_eq_iff [THEN iffD2]) (simp only: unat_and_mask31, simp)
  have i: "rq_get_buf q' (ucast (rq_head q)) = Some (rq_H q mod rq_L q)"
    if "rq_l2len q' = rq_l2len q" for q'
    using l h that unat_word_less [of "rq_head q"]
    by (simp add: rq_get_buf_eq rq_L_def rq_H_def unat_ucast)
  obtain cmd where c: "rq_cmd q (rq_head q) = Some cmd" "bit cmd 31 = even (rq_H q div rq_L q)"
    using rq_cmd_eq [OF l h] by (auto simp: rq_H_def)
  have c': "rq_cmd q' (rq_head q) = Some cmd" if "rq_l2len q' = rq_l2len q" for q'
    using c(1) by (simp only: rq_cmd_def rq_get_turn_def rq_len_def that)
  show ?thesis
    by (rule exI [of _ cmd], cases "rq_buf q (rq_H q mod rq_L q)")
      (simp add: rq_submit_def rq_reserve_slot_def Let_def full add m i c' c(2) rq_ring_def)
qed

lemma rq_submit_inv:
  assumes inv: "rq_inv q" and "rq_H q < rq_T q + rq_L q" and h: "rq_H q + 1 < 2 ^ 31"
    and cmd: "bit cmd 31 = even (rq_H q div rq_L q)"
    and q': "q' = q\<lparr>rq_head := rq_head q + 1, rq_bell := rq_bell q + 1,
      rq_buf := (rq_buf q)(rq_H q mod rq_L q := \<lparr>cmd_slot = cmd, qe_info = info, qe_data = d\<rparr>)\<rparr>"
  shows "rq_inv q' \<and> rq_items q' = rq_items q @ [(info, d)] \<and> rq_H q' = rq_H q + 1 \<and> rq_L q' = rq_L q"
proof -
  have L: "rq_L q' = rq_L q" and T: "rq_T q' = rq_T q" by (simp_all add: q' rq_L_def rq_T_def)
  have H: "rq_H q' = rq_H q + 1"
    using h by (simp add: q' rq_H_def unat_word_ariths)
  have bell: "unat (rq_bell q') = rq_H q'"
    using inv h H by (simp add: rq_inv_def q' unat_word_ariths)
  have other: "published q' k = published q k" "rq_buf q' (k mod rq_L q) = rq_buf q (k mod rq_L q)"
    if "rq_T q \<le> k" "k < rq_T q + rq_L q" "k \<noteq> rq_H q" for k
  proof -
    have "k mod rq_L q \<noteq> rq_H q mod rq_L q"
      using mod_window_inj [of "rq_T q" k "rq_L q" "rq_H q"] that inv assms(2) by (auto simp: rq_inv_def)
    then show "published q' k = published q k" "rq_buf q' (k mod rq_L q) = rq_buf q (k mod rq_L q)"
      by (auto simp: published_def q' rq_L_def)
  qed
  have new: "published q' (rq_H q)" by (simp add: published_def L) (simp add: q' cmd)
  have "rq_inv q'"
    unfolding rq_inv_def L T H
    using inv h bell H other(1) new assms(2) by (auto simp: rq_inv_def q' less_Suc_eq)
  moreover have "rq_items q' = rq_items q @ [(info, d)]"
  proof -
    have "[rq_T q..<rq_H q + 1] = [rq_T q..<rq_H q] @ [rq_H q]"
      using inv by (simp add: rq_inv_def)
    moreover have "map (\<lambda>k. let e = rq_buf q' (k mod rq_L q) in (qe_info e, qe_data e)) [rq_T q..<rq_H q]
        = rq_items q"
      unfolding rq_items_def by (rule map_cong) (use other(2) inv assms(2) in \<open>auto simp: rq_inv_def\<close>)
    ultimately show ?thesis
      unfolding rq_items_def [of q'] L T H by (simp add: q')
  qed
  ultimately show ?thesis using H L by blast
qed

lemma rq_has_pending_inv:
  assumes "rq_inv q"
  shows "rq_has_pending q = Some (rq_T q < rq_H q)"
proof -
  have l: "rq_l2len q < 31" and L: "0 < rq_L q" using assms by (simp_all add: rq_inv_def rq_L_def)
  have e: "rq_is_empty (rq_bell q) (rq_tail q AND 0x7fffffff) \<longleftrightarrow> rq_H q = rq_T q"
  proof -
    have "unat (rq_bell q AND 0x7fffffff) = rq_H q"
      using assms by (simp only: unat_and_mask31) (simp add: rq_inv_def)
    moreover have "unat ((rq_tail q AND 0x7fffffff) AND 0x7fffffff) = rq_T q"
      by (simp only: unat_and_mask31 mod_mod_trivial rq_T_def)
    ultimately show ?thesis by (simp only: rq_is_empty_def word_unat_eq_iff)
  qed
  have "published q (rq_T q) \<longleftrightarrow> rq_T q < rq_H q"
  proof (cases "rq_T q < rq_H q")
    case False
    then have "rq_H q = rq_T q" using assms by (simp add: rq_inv_def)
    then show ?thesis using assms L by (simp add: rq_inv_def)
  qed (use assms in \<open>auto simp: rq_inv_def\<close>)
  then show ?thesis
    using l e by (auto simp: rq_has_pending_def Let_def rq_get_buf_eq rq_is_turn_eq published_def
        simp flip: rq_T_def)
qed

lemma rq_receive_empty:
  assumes "rq_inv q" and "rq_T q = rq_H q"
  shows "rq_receive q = Some (Inl QueueError_WouldBlock, q)"
  using rq_has_pending_inv [OF assms(1)] assms(2)
  by (simp add: rq_receive_def rq_get_next_ready_def Let_def)

lemma rq_receive_pending:
  assumes inv: "rq_inv q" and "rq_T q < rq_H q"
  shows "rq_receive q = Some (Inr (rq_buf q (rq_T q mod rq_L q)), q\<lparr>rq_tail := rq_tail q + 1\<rparr>)"
proof -
  have l: "rq_l2len q < 31" and t: "unat (rq_tail q) < 2 ^ 31" using inv by (simp_all add: rq_inv_def)
  have T: "rq_T q = unat (rq_tail q)" using t by (simp add: rq_T_def unat_and_mask31)
  have add: "checked_add (rq_tail q) 1 = Some (rq_tail q + 1)"
    using t by (simp add: checked_add_def)
  have u: "unat (rq_tail q + 1) = unat (rq_tail q) + 1" using t by (simp add: unat_word_ariths)
  have m: "(rq_tail q + 1) AND 0x7fffffff = rq_tail q + 1"
    using assms T u by (intro word_unat_eq_iff [THEN iffD2])
      (simp only: unat_and_mask31, simp add: rq_inv_def)
  show ?thesis
    using l assms(2)
    by (simp add: rq_receive_def rq_get_next_ready_def Let_def rq_has_pending_inv [OF inv]
        rq_get_buf_eq rq_advance_tail_def add m flip: rq_T_def)
qed

lemma rq_receive_inv:
  assumes inv: "rq_inv q" and "rq_T q < rq_H q" and q': "q' = q\<lparr>rq_tail := rq_tail q + 1\<rparr>"
  shows "rq_inv q' \<and> rq_items q = (let e = rq_buf q (rq_T q mod rq_L q) in (qe_info e, qe_data e)) # rq_items q' \<and>
    rq_H q' = rq_H q \<and> rq_L q' = rq_L q"
proof -
  have t: "unat (rq_tail q) < 2 ^ 31" and L0: "0 < rq_L q" using inv by (simp_all add: rq_inv_def rq_L_def)
  have T: "rq_T q = unat (rq_tail q)" using t by (simp add: rq_T_def unat_and_mask31)
  have L: "rq_L q' = rq_L q" and H: "rq_H q' = rq_H q" by (simp_all add: q' rq_L_def rq_H_def)
  have u: "unat (rq_tail q + 1) = unat (rq_tail q) + 1" using t by (simp add: unat_word_ariths)
  have T': "rq_T q' = rq_T q + 1"
    using inv assms(2) u T by (simp add: q' rq_T_def unat_and_mask31 rq_inv_def)
  have p: "published q' k = published q k" for k by (simp add: published_def q' rq_L_def)
  have wrap: "\<not> published q (rq_T q + rq_L q)"
    using inv assms(2) L0 by (simp add: published_def rq_inv_def even_div_add)
  have "rq_inv q'"
    unfolding rq_inv_def L H T' p
    using inv assms(2) u T wrap by (auto simp: rq_inv_def q' less_Suc_eq)
  moreover have "[rq_T q..<rq_H q] = rq_T q # [rq_T q + 1..<rq_H q]"
    using assms(2) by (simp add: upt_conv_Cons)
  ultimately show ?thesis by (simp add: rq_items_def L H T' Let_def) (simp add: q' rq_H_def rq_L_def)
qed

text \<open>The operations as those of a bounded queue.\<close>

definition rq_enq :: "u32 \<times> 'a \<Rightarrow> 'a RawQueue \<Rightarrow> (bool \<times> 'a RawQueue) option" where
  "rq_enq x q = do {
     (r, q) \<leftarrow> rq_submit (QueueEntry_new (fst x) (snd x)) q;
     Some (r = Inr (), q) }"

definition rq_deq :: "'a RawQueue \<Rightarrow> ((u32 \<times> 'a) option \<times> 'a RawQueue) option" where
  "rq_deq q = do {
     (r, q) \<leftarrow> rq_receive q;
     Some (case r of Inl _ \<Rightarrow> None | Inr e \<Rightarrow> Some (qe_info e, qe_data e), q) }"

definition rq_lives :: "'a RawQueue \<Rightarrow> nat" where
  "rq_lives q = 2 ^ 31 - 1 - rq_H q"

interpretation rq: bounded_fifo rq_inv rq_items rq_L rq_lives rq_enq rq_deq
proof
  fix q :: "'a RawQueue" and x
  assume inv: "rq_inv q" and lives: "0 < rq_lives q"
  show "\<exists>q'. rq_enq x q = Some (length (rq_items q) < rq_L q, q') \<and> rq_inv q' \<and> rq_L q' = rq_L q \<and>
    rq_items q' = (if length (rq_items q) < rq_L q then rq_items q @ [x] else rq_items q) \<and>
    rq_lives q \<le> Suc (rq_lives q')"
  proof (cases "rq_H q < rq_T q + rq_L q")
    case False
    then have "rq_H q = rq_T q + rq_L q" using inv by (simp add: rq_inv_def)
    then show ?thesis
      using rq_submit_full [OF inv] inv by (simp add: rq_enq_def length_rq_items)
  next
    case True
    have h: "rq_H q + 1 < 2 ^ 31" using lives by (simp add: rq_lives_def)
    obtain cmd where c: "bit cmd 31 = even (rq_H q div rq_L q)" and
      s: "rq_submit (QueueEntry_new (fst x) (snd x)) q = Some (Inr (), q\<lparr>rq_head := rq_head q + 1,
        rq_bell := rq_bell q + 1, rq_buf := (rq_buf q)(rq_H q mod rq_L q :=
          \<lparr>cmd_slot = cmd, qe_info = fst x, qe_data = snd x\<rparr>)\<rparr>)"
      using rq_submit_space [OF inv True h, of "QueueEntry_new (fst x) (snd x)"]
      by (auto simp: QueueEntry_new_def)
    have "length (rq_items q) < rq_L q"
      using True inv by (simp add: length_rq_items rq_inv_def less_diff_conv2 add.commute)
    then show ?thesis
      using rq_submit_inv [OF inv True h c refl, of "fst x" "snd x"] s
      by (simp add: rq_enq_def rq_lives_def)
  qed
next
  fix q :: "'a RawQueue"
  assume inv: "rq_inv q"
  show "\<exists>q'. rq_deq q = Some (case rq_items q of [] \<Rightarrow> None | x # _ \<Rightarrow> Some x, q') \<and> rq_inv q' \<and>
    rq_L q' = rq_L q \<and> rq_items q' = tl (rq_items q) \<and> rq_lives q' = rq_lives q"
  proof (cases "rq_T q < rq_H q")
    case False
    then have "rq_T q = rq_H q" using inv by (simp add: rq_inv_def)
    then show ?thesis
      using rq_receive_empty [OF inv] inv by (simp add: rq_deq_def rq_items_def)
  next
    case True
    then show ?thesis
      using rq_receive_pending [OF inv True] rq_receive_inv [OF inv True refl]
      by (simp add: rq_deq_def rq_lives_def Let_def)
  qed
qed

section \<open>Properties\<close>

text \<open>
  C13.  Used by one thread, the raw queue is a first-in first-out queue of exactly its capacity:
  any list of items up to the number of slots is accepted, received in the same order with the
  same information words, and leaves the queue empty and usable.
\<close>

theorem raw_queue_transmits:
  assumes "l2len < 31" and "\<forall>i. \<not> bit (cmd_slot (buf i)) 31" and "length xs \<le> 2 ^ l2len"
  shows "\<exists>q' q''. enq_all rq_enq xs (RawQueue_new l2len stride buf) = Some (True, q') \<and>
    deq_many rq_deq (length xs) q' = Some (map Some xs, q'') \<and> rq_items q'' = [] \<and> rq_inv q''"
proof (rule rq.transmit)
  show "rq_inv (RawQueue_new l2len stride buf)" "rq_items (RawQueue_new l2len stride buf) = []"
    by (rule rq_inv_new [OF assms(1,2)])+
  show "length xs \<le> rq_L (RawQueue_new l2len stride buf)"
    using assms(3) by (simp add: rq_L_def RawQueue_new_def)
  have "(2 :: nat) ^ l2len \<le> 2 ^ 30" using assms(1) by (intro power_increasing) auto
  then show "length xs \<le> rq_lives (RawQueue_new l2len stride buf)"
    using assms(3) by (simp add: rq_lives_def rq_H_def RawQueue_new_def)
qed

text \<open>An instance with two items in a queue of four slots.\<close>

theorem raw_queue_transmits_witness:
  "\<exists>q' q''. enq_all rq_enq [(1, 7), (2, 8 :: nat)]
       (RawQueue_new 2 16 (\<lambda>_. \<lparr>cmd_slot = 0, qe_info = 0, qe_data = 0\<rparr>)) = Some (True, q') \<and>
     deq_many rq_deq 2 q' = Some ([Some (1, 7), Some (2, 8)], q'')"
  using raw_queue_transmits [of 2 "\<lambda>_. \<lparr>cmd_slot = 0, qe_info = 0, qe_data = 0\<rparr>" "[(1, 7), (2, 8 :: nat)]" 16]
  by (auto simp: numeral_eq_Suc)

text \<open>
  C26.  Preparing to sleep until there is space does not register the submitter: the operation
  reads the number of waiting submitters instead of incrementing it.  So when no other
  submitter waits, the consumer that then frees a slot does not wake anyone.
\<close>

theorem send_sleep_not_registered:
  assumes "rq_waiters q = 0" and "rq_setup_send_sleep_simple q = Some (sleep, q')"
    and "rq_advance_tail q' = Some (wake, q'')"
  shows "\<not> wake"
proof -
  have "q' = q" using assms(2) by (auto simp: rq_setup_send_sleep_simple_def bind_Some_iff Let_def)
  with assms(1,3) show ?thesis
    by (auto simp: rq_advance_tail_def rq_submitter_waiting_def bind_Some_iff Let_def)
qed

text \<open>An instance on a full queue of one slot.\<close>

definition full_q :: "nat RawQueue" where
  "full_q = (RawQueue_new 0 16 (\<lambda>_. \<lparr>cmd_slot = 0x80000000, qe_info = 1, qe_data = 7\<rparr>))\<lparr>rq_head := 1, rq_bell := 1\<rparr>"

theorem send_sleep_not_registered_witness:
  "rq_waiters full_q = 0 \<and> rq_setup_send_sleep_simple full_q = Some ((WordTail, 0), full_q) \<and>
   rq_advance_tail full_q = Some (False, full_q\<lparr>rq_tail := 1\<rparr>)"
proof -
  have w: "rq_waiters full_q = 0"
    and s: "rq_setup_send_sleep_simple full_q = Some ((WordTail, 0), full_q)"
    by (simp_all add: full_q_def RawQueue_new_def rq_setup_send_sleep_simple_def rq_is_full_def
        checked_sub_def rq_len_def)
  obtain wake where a: "rq_advance_tail full_q = Some (wake, full_q\<lparr>rq_tail := 1\<rparr>)"
    by (simp add: full_q_def RawQueue_new_def rq_advance_tail_def checked_add_def Let_def)
  with send_sleep_not_registered [OF w s a] w s show ?thesis by simp
qed

end
