(* ===== verification/Raw_Queue_Conc.thy ===== *)
theory Raw_Queue_Conc
  imports Raw_Queue
begin

text \<open>
  The raw queue with any number of concurrent submitters and one consumer.  A program counter
  carries the local variables of \<^verbatim>\<open>reserve_slot\<close>, \<^verbatim>\<open>submit\<close>, \<^verbatim>\<open>get_next_ready\<close> and \<^verbatim>\<open>receive\<close> at
  each point; every step makes at most one access to the shared words.  Two ghost components
  record the items in the order in which their slots were reserved and the items received.
\<close>

section \<open>Program counters\<close>

text \<open>
  The submitter's locals: the item, the non-blocking flag, the spins left, whether the thread is
  registered as waiting, and the head value it has read.
\<close>

datatype 'a sub_pc =
    S_idle
  | S_head "u32 \<times> 'a" bool nat bool
  | S_tail "u32 \<times> 'a" bool nat bool u32
  | S_cas "u32 \<times> 'a" bool nat bool u32
  | S_full "u32 \<times> 'a" bool nat bool u32
  | S_recheck "u32 \<times> 'a" u32
  | S_unreg "u32 \<times> 'a" u32
  | S_data "u32 \<times> 'a" u32
  | S_info "u32 \<times> 'a" u32
  | S_cmd "u32 \<times> 'a" u32
  | S_bell
  | S_ring
  | S_panicked

datatype 'a con_pc =
    C_idle
  | C_tail bool nat
  | C_bell bool nat u64
  | C_turn bool nat u64
  | C_miss bool nat u64
  | C_rebell bool
  | C_ready nat u64
  | C_read_info u64
  | C_read_data u64 u32
  | C_advance u32 'a

record 'a rq_sys =
  rs_q :: "'a RawQueue"
  rs_sub :: "nat \<Rightarrow> 'a sub_pc"
  rs_con :: "'a con_pc"
  rs_log :: "(u32 \<times> 'a) list"
  rs_got :: "(u32 \<times> 'a) list"

definition rs_init :: "nat \<Rightarrow> usize \<Rightarrow> (nat \<Rightarrow> 'a QueueEntry) \<Rightarrow> 'a rq_sys" where
  "rs_init l2len stride buf = \<lparr>rs_q = RawQueue_new l2len stride buf, rs_sub = (\<lambda>_. S_idle),
     rs_con = C_idle, rs_log = [], rs_got = []\<rparr>"

text \<open>Thread \<open>i\<close> moves to \<open>pc\<close>, and the queue becomes \<open>q\<close>.\<close>

definition sub_to :: "'a rq_sys \<Rightarrow> nat \<Rightarrow> 'a RawQueue \<Rightarrow> 'a sub_pc \<Rightarrow> 'a rq_sys" where
  "sub_to s i q pc = s\<lparr>rs_q := q, rs_sub := (rs_sub s)(i := pc)\<rparr>"

definition con_to :: "'a rq_sys \<Rightarrow> 'a RawQueue \<Rightarrow> 'a con_pc \<Rightarrow> 'a rq_sys" where
  "con_to s q pc = s\<lparr>rs_q := q, rs_con := pc\<rparr>"

definition set_entry :: "nat \<Rightarrow> 'a QueueEntry \<Rightarrow> 'a RawQueue \<Rightarrow> 'a RawQueue" where
  "set_entry j e q = q\<lparr>rq_buf := (rq_buf q)(j := e)\<rparr>"

section \<open>Steps\<close>

inductive rq_step :: "'a rq_sys \<Rightarrow> 'a rq_sys \<Rightarrow> bool" where
  submit_call: "rs_sub s i = S_idle \<Longrightarrow> rq_step s (sub_to s i (rs_q s) (S_head x nb 1000 False))"
| load_head: "rs_sub s i = S_head x nb a w \<Longrightarrow>
    rq_step s (sub_to s i (rs_q s) (S_tail x nb a w (rq_head (rs_q s))))"
| load_tail_space: "\<lbrakk>rs_sub s i = S_tail x nb a w h; rq_is_full (rs_q s) h (rq_tail (rs_q s)) = Some False\<rbrakk> \<Longrightarrow>
    rq_step s (sub_to s i (rs_q s) (S_cas x nb a w h))"
| load_tail_full: "\<lbrakk>rs_sub s i = S_tail x nb a w h; rq_is_full (rs_q s) h (rq_tail (rs_q s)) = Some True\<rbrakk> \<Longrightarrow>
    rq_step s (sub_to s i (rs_q s) (S_full x nb a w h))"
| load_tail_panic: "\<lbrakk>rs_sub s i = S_tail x nb a w h; rq_is_full (rs_q s) h (rq_tail (rs_q s)) = None\<rbrakk> \<Longrightarrow>
    rq_step s (sub_to s i (rs_q s) S_panicked)"
| cas_ok: "\<lbrakk>rs_sub s i = S_cas x nb a w h; rq_head (rs_q s) = h; checked_add h 1 = Some h'\<rbrakk> \<Longrightarrow>
    rq_step s ((sub_to s i ((rs_q s)\<lparr>rq_head := h'\<rparr>)
      (if w then S_unreg x (h AND 0x7fffffff) else S_data x (h AND 0x7fffffff)))
        \<lparr>rs_log := rs_log s @ [x]\<rparr>)"
| cas_fail: "\<lbrakk>rs_sub s i = S_cas x nb a w h; rq_head (rs_q s) \<noteq> h\<rbrakk> \<Longrightarrow>
    rq_step s (sub_to s i (rs_q s) (S_head x nb a w))"
| cas_panic: "\<lbrakk>rs_sub s i = S_cas x nb a w h; checked_add h 1 = None\<rbrakk> \<Longrightarrow>
    rq_step s (sub_to s i (rs_q s) S_panicked)"
| full_nonblock: "rs_sub s i = S_full x True a w h \<Longrightarrow> rq_step s (sub_to s i (rs_q s) S_idle)"
| full_spin: "rs_sub s i = S_full x False (Suc a) w h \<Longrightarrow>
    rq_step s (sub_to s i (rs_q s) (S_head x False a w))"
| full_register: "rs_sub s i = S_full x False 0 w h \<Longrightarrow>
    rq_step s (sub_to s i (if w then rs_q s else rq_inc_submit_waiting (rs_q s)) (S_recheck x h))"
| recheck_wait: "\<lbrakk>rs_sub s i = S_recheck x h; rq_is_full (rs_q s) h (rq_tail (rs_q s)) = Some full\<rbrakk> \<Longrightarrow>
    rq_step s (sub_to s i (rs_q s) (S_head x False 0 True))"
| recheck_panic: "\<lbrakk>rs_sub s i = S_recheck x h; rq_is_full (rs_q s) h (rq_tail (rs_q s)) = None\<rbrakk> \<Longrightarrow>
    rq_step s (sub_to s i (rs_q s) S_panicked)"
| unregister: "rs_sub s i = S_unreg x h \<Longrightarrow>
    rq_step s (sub_to s i (rq_dec_submit_waiting (rs_q s)) (S_data x h))"
| write_data: "\<lbrakk>rs_sub s i = S_data x h; rq_get_buf (rs_q s) (ucast h) = Some j\<rbrakk> \<Longrightarrow>
    rq_step s (sub_to s i (set_entry j ((rq_buf (rs_q s) j)\<lparr>qe_data := snd x\<rparr>) (rs_q s)) (S_info x h))"
| write_info: "\<lbrakk>rs_sub s i = S_info x h; rq_get_buf (rs_q s) (ucast h) = Some j\<rbrakk> \<Longrightarrow>
    rq_step s (sub_to s i (set_entry j ((rq_buf (rs_q s) j)\<lparr>qe_info := fst x\<rparr>) (rs_q s)) (S_cmd x h))"
| write_cmd: "\<lbrakk>rs_sub s i = S_cmd x h; rq_get_buf (rs_q s) (ucast h) = Some j; rq_cmd (rs_q s) h = Some c\<rbrakk> \<Longrightarrow>
    rq_step s (sub_to s i (set_entry j ((rq_buf (rs_q s) j)\<lparr>cmd_slot := c\<rparr>) (rs_q s)) S_bell)"
| bell: "rs_sub s i = S_bell \<Longrightarrow>
    rq_step s (sub_to s i ((rs_q s)\<lparr>rq_bell := rq_bell (rs_q s) + 1\<rparr>) S_ring)"
| ring: "rs_sub s i = S_ring \<Longrightarrow> rq_step s (sub_to s i (rs_q s) S_idle)"
| receive_call: "rs_con s = C_idle \<Longrightarrow> rq_step s (con_to s (rs_q s) (C_tail nb 1000))"
| c_load_tail: "rs_con s = C_tail nb a \<Longrightarrow>
    rq_step s (con_to s (rs_q s) (C_bell nb a (rq_tail (rs_q s) AND 0x7fffffff)))"
| c_load_bell: "rs_con s = C_bell nb a t \<Longrightarrow>
    rq_step s (con_to s (rs_q s) (if rq_is_empty (rq_bell (rs_q s)) t then C_miss nb a t else C_turn nb a t))"
| c_turn: "\<lbrakk>rs_con s = C_turn nb a t; rq_get_buf (rs_q s) t = Some j;
      rq_is_turn (rs_q s) t (rq_buf (rs_q s) j) = Some turn\<rbrakk> \<Longrightarrow>
    rq_step s (con_to s (rs_q s) (if turn then C_ready a t else C_miss nb a t))"
| c_nonblock: "rs_con s = C_miss True a t \<Longrightarrow> rq_step s (con_to s (rs_q s) C_idle)"
| c_spin: "rs_con s = C_miss False (Suc a) t \<Longrightarrow> rq_step s (con_to s (rs_q s) (C_tail False a))"
| c_set_waiting: "rs_con s = C_miss False 0 t \<Longrightarrow>
    rq_step s (con_to s (rq_consumer_set_waiting True (rs_q s)) (C_rebell False))"
| c_wait: "rs_con s = C_rebell nb \<Longrightarrow> rq_step s (con_to s (rs_q s) (C_tail nb 0))"
| c_ready: "rs_con s = C_ready a t \<Longrightarrow>
    rq_step s (con_to s (if a = 0 then rq_consumer_set_waiting False (rs_q s) else rs_q s) (C_read_info t))"
| c_read_info: "\<lbrakk>rs_con s = C_read_info t; rq_get_buf (rs_q s) t = Some j\<rbrakk> \<Longrightarrow>
    rq_step s (con_to s (rs_q s) (C_read_data t (qe_info (rq_buf (rs_q s) j))))"
| c_read_data: "\<lbrakk>rs_con s = C_read_data t info; rq_get_buf (rs_q s) t = Some j\<rbrakk> \<Longrightarrow>
    rq_step s (con_to s (rs_q s) (C_advance info (qe_data (rq_buf (rs_q s) j))))"
| c_advance: "\<lbrakk>rs_con s = C_advance info d; rq_advance_tail (rs_q s) = Some (wake, q')\<rbrakk> \<Longrightarrow>
    rq_step s ((con_to s q' C_idle)\<lparr>rs_got := rs_got s @ [(info, d)]\<rparr>)"

section \<open>The invariant\<close>

text \<open>The counter value that a submitter owns: reserved and not published yet.\<close>

fun owns :: "'a sub_pc \<Rightarrow> nat option" where
  "owns (S_unreg x h) = Some (unat h)"
| "owns (S_data x h) = Some (unat h)"
| "owns (S_info x h) = Some (unat h)"
| "owns (S_cmd x h) = Some (unat h)"
| "owns _ = None"

fun owned_item :: "'a sub_pc \<Rightarrow> (u32 \<times> 'a) option" where
  "owned_item (S_unreg x h) = Some x"
| "owned_item (S_data x h) = Some x"
| "owned_item (S_info x h) = Some x"
| "owned_item (S_cmd x h) = Some x"
| "owned_item _ = None"

definition slot :: "'a RawQueue \<Rightarrow> nat \<Rightarrow> 'a QueueEntry" where
  "slot q k = rq_buf q (k mod rq_L q)"

definition holds :: "'a RawQueue \<Rightarrow> nat \<Rightarrow> u32 \<times> 'a \<Rightarrow> bool" where
  "holds q k x \<longleftrightarrow> (qe_info (slot q k), qe_data (slot q k)) = x"

text \<open>What a submitter's program counter says about the queue.\<close>

fun sub_ok :: "'a RawQueue \<Rightarrow> 'a sub_pc \<Rightarrow> bool" where
  "sub_ok q (S_tail x nb a w h) \<longleftrightarrow> unat h \<le> rq_H q"
| "sub_ok q (S_cas x nb a w h) \<longleftrightarrow> unat h \<le> rq_H q \<and> unat h < rq_T q + rq_L q"
| "sub_ok q (S_full x nb a w h) \<longleftrightarrow> unat h \<le> rq_H q"
| "sub_ok q (S_recheck x h) \<longleftrightarrow> unat h \<le> rq_H q"
| "sub_ok q (S_unreg x h) \<longleftrightarrow> \<not> published q (unat h)"
| "sub_ok q (S_data x h) \<longleftrightarrow> \<not> published q (unat h)"
| "sub_ok q (S_info x h) \<longleftrightarrow> \<not> published q (unat h) \<and> qe_data (slot q (unat h)) = snd x"
| "sub_ok q (S_cmd x h) \<longleftrightarrow> \<not> published q (unat h) \<and> holds q (unat h) x"
| "sub_ok q _ \<longleftrightarrow> True"

definition own_ok :: "'a RawQueue \<Rightarrow> (u32 \<times> 'a) list \<Rightarrow> 'a sub_pc \<Rightarrow> bool" where
  "own_ok q log pc \<longleftrightarrow> (\<forall>k. owns pc = Some k \<longrightarrow> rq_T q \<le> k \<and> k < rq_H q \<and> owned_item pc = Some (log ! k))"

text \<open>What the consumer's program counter says: from the turn check on, the entry at the tail is published.\<close>

fun con_ok :: "'a RawQueue \<Rightarrow> 'a con_pc \<Rightarrow> bool" where
  "con_ok q (C_bell nb a t) \<longleftrightarrow> unat t = rq_T q"
| "con_ok q (C_turn nb a t) \<longleftrightarrow> unat t = rq_T q"
| "con_ok q (C_ready a t) \<longleftrightarrow> unat t = rq_T q \<and> published q (rq_T q)"
| "con_ok q (C_read_info t) \<longleftrightarrow> unat t = rq_T q \<and> published q (rq_T q)"
| "con_ok q (C_read_data t info) \<longleftrightarrow>
     unat t = rq_T q \<and> published q (rq_T q) \<and> info = qe_info (slot q (rq_T q))"
| "con_ok q (C_advance info d) \<longleftrightarrow> published q (rq_T q) \<and> holds q (rq_T q) (info, d)"
| "con_ok q _ \<longleftrightarrow> True"

definition rs_inv :: "'a rq_sys \<Rightarrow> bool" where
  "rs_inv s \<longleftrightarrow> (let q = rs_q s; log = rs_log s in
     rq_l2len q < 31 \<and> unat (rq_tail q) < 2 ^ 32 \<and> rq_T q \<le> rq_H q \<and> rq_H q \<le> rq_T q + rq_L q \<and>
     length log = rq_H q \<and> rs_got s = take (rq_T q) log \<and>
     (\<forall>i. sub_ok q (rs_sub s i) \<and> own_ok q log (rs_sub s i)) \<and>
     (\<forall>i j k. owns (rs_sub s i) = Some k \<and> owns (rs_sub s j) = Some k \<longrightarrow> i = j) \<and>
     (\<forall>k. rq_T q \<le> k \<and> k < rq_H q \<longrightarrow>
        (\<exists>i. owns (rs_sub s i) = Some k) \<or> published q k \<and> holds q k (log ! k)) \<and>
     (\<forall>k. rq_H q \<le> k \<and> k < rq_T q + rq_L q \<longrightarrow> \<not> published q k) \<and>
     con_ok q (rs_con s))"

lemmas rs_defs = sub_to_def con_to_def

lemma rs_invI:
  assumes "rq_l2len (rs_q s) < 31" "unat (rq_tail (rs_q s)) < 2 ^ 32"
    "rq_T (rs_q s) \<le> rq_H (rs_q s)" "rq_H (rs_q s) \<le> rq_T (rs_q s) + rq_L (rs_q s)"
    "length (rs_log s) = rq_H (rs_q s)" "rs_got s = take (rq_T (rs_q s)) (rs_log s)"
    "\<And>i. sub_ok (rs_q s) (rs_sub s i)" "\<And>i. own_ok (rs_q s) (rs_log s) (rs_sub s i)"
    "\<And>i j k. owns (rs_sub s i) = Some k \<Longrightarrow> owns (rs_sub s j) = Some k \<Longrightarrow> i = j"
    "\<And>k. rq_T (rs_q s) \<le> k \<Longrightarrow> k < rq_H (rs_q s) \<Longrightarrow> \<forall>i. owns (rs_sub s i) \<noteq> Some k \<Longrightarrow>
       published (rs_q s) k \<and> holds (rs_q s) k (rs_log s ! k)"
    "\<And>k. rq_H (rs_q s) \<le> k \<Longrightarrow> k < rq_T (rs_q s) + rq_L (rs_q s) \<Longrightarrow> \<not> published (rs_q s) k"
    "con_ok (rs_q s) (rs_con s)"
  shows "rs_inv s"
  unfolding rs_inv_def Let_def using assms by blast

lemma rs_invD:
  assumes "rs_inv s"
  shows "rq_l2len (rs_q s) < 31" "unat (rq_tail (rs_q s)) < 2 ^ 32"
    "rq_T (rs_q s) \<le> rq_H (rs_q s)" "rq_H (rs_q s) \<le> rq_T (rs_q s) + rq_L (rs_q s)"
    "length (rs_log s) = rq_H (rs_q s)" "rs_got s = take (rq_T (rs_q s)) (rs_log s)"
    "\<And>i. sub_ok (rs_q s) (rs_sub s i)" "\<And>i. own_ok (rs_q s) (rs_log s) (rs_sub s i)"
    "\<And>i j k. owns (rs_sub s i) = Some k \<Longrightarrow> owns (rs_sub s j) = Some k \<Longrightarrow> i = j"
    "\<And>k. rq_T (rs_q s) \<le> k \<Longrightarrow> k < rq_H (rs_q s) \<Longrightarrow> \<forall>i. owns (rs_sub s i) \<noteq> Some k \<Longrightarrow>
       published (rs_q s) k \<and> holds (rs_q s) k (rs_log s ! k)"
    "\<And>k. rq_H (rs_q s) \<le> k \<Longrightarrow> k < rq_T (rs_q s) + rq_L (rs_q s) \<Longrightarrow> \<not> published (rs_q s) k"
    "con_ok (rs_q s) (rs_con s)"
  using assms unfolding rs_inv_def Let_def by blast+

lemma own_range:
  assumes "rs_inv s" and "owns (rs_sub s i) = Some k"
  shows "rq_T (rs_q s) \<le> k" "k < rq_H (rs_q s)" "owned_item (rs_sub s i) = Some (rs_log s ! k)"
    "\<not> published (rs_q s) k"
proof -
  from rs_invD(8) [OF assms(1), of i] assms(2)
  show "rq_T (rs_q s) \<le> k" "k < rq_H (rs_q s)" "owned_item (rs_sub s i) = Some (rs_log s ! k)"
    by (simp_all add: own_ok_def)
  from rs_invD(7) [OF assms(1), of i] assms(2) show "\<not> published (rs_q s) k"
    by (cases "rs_sub s i") simp_all
qed

section \<open>Steps that do not touch the counters or the entries\<close>

definition same_core :: "'a RawQueue \<Rightarrow> 'a RawQueue \<Rightarrow> bool" where
  "same_core q q' \<longleftrightarrow> rq_l2len q' = rq_l2len q \<and> rq_head q' = rq_head q \<and> rq_T q' = rq_T q \<and>
     rq_buf q' = rq_buf q"

lemma same_core_refl [simp]: "same_core q q"
  by (simp add: same_core_def)

lemma same_core_eqs:
  assumes "same_core q q'"
  shows "rq_H q' = rq_H q" "rq_T q' = rq_T q" "rq_L q' = rq_L q" "rq_l2len q' = rq_l2len q"
    "published q' k = published q k" "slot q' k = slot q k" "holds q' k x = holds q k x"
  using assms by (simp_all add: same_core_def rq_H_def rq_L_def published_def slot_def holds_def)

lemma same_core_ok:
  assumes "same_core q q'"
  shows "sub_ok q' pc = sub_ok q pc" "own_ok q' log pc = own_ok q log pc" "con_ok q' c = con_ok q c"
proof -
  note e = same_core_eqs [OF assms]
  show "sub_ok q' pc = sub_ok q pc" by (cases pc) (simp_all add: e)
  show "own_ok q' log pc = own_ok q log pc" by (simp add: own_ok_def e)
  show "con_ok q' c = con_ok q c" by (cases c) (simp_all add: e)
qed

lemma sub_local:
  assumes "rs_inv s" and "same_core (rs_q s) q'" and "unat (rq_tail q') < 2 ^ 32"
    and "sub_ok (rs_q s) pc" and "owns pc = owns (rs_sub s i)"
    and "owned_item pc = owned_item (rs_sub s i)"
  shows "rs_inv (sub_to s i q' pc)"
proof -
  have "owns (((rs_sub s)(i := pc)) j) = owns (rs_sub s j)" for j using assms(5) by simp
  moreover have "own_ok (rs_q s) (rs_log s) pc"
    using assms(1,5,6) by (auto simp: rs_inv_def Let_def own_ok_def)
  ultimately show ?thesis
    using assms(1,3,4)
    by (simp add: rs_inv_def Let_def rs_defs same_core_eqs [OF assms(2)] same_core_ok [OF assms(2)])
qed

lemma con_local:
  assumes "rs_inv s" and "same_core (rs_q s) q'" and "unat (rq_tail q') < 2 ^ 32"
    and "con_ok (rs_q s) pc"
  shows "rs_inv (con_to s q' pc)"
  using assms(1,3,4)
  by (simp add: rs_inv_def Let_def rs_defs same_core_eqs [OF assms(2)] same_core_ok [OF assms(2)])

lemma waiting_same_core:
  assumes "unat (rq_tail q) < 2 ^ 32"
  shows "same_core q (rq_consumer_set_waiting b q)" "unat (rq_tail (rq_consumer_set_waiting b q)) < 2 ^ 32"
proof -
  have t: "bit (rq_tail q) n \<Longrightarrow> n < 32" for n
  proof -
    have "rq_tail q = take_bit 32 (rq_tail q)"
      using assms by (intro word_unat_eq_iff [THEN iffD2]) (simp only: unat_take_bit, simp)
    then show "bit (rq_tail q) n \<Longrightarrow> n < 32" by (metis bit_take_bit_iff)
  qed
  have bits: "bit (rq_tail (rq_consumer_set_waiting b q)) n \<longleftrightarrow> (if n = 31 then b else bit (rq_tail q) n)" for n
  proof -
    have e: "rq_tail (rq_consumer_set_waiting b q) =
        (if b then rq_tail q OR push_bit 31 1 else rq_tail q AND NOT (push_bit 31 1))"
      by (simp add: rq_consumer_set_waiting_def)
    show ?thesis
      unfolding e using bit_less_LENGTH [of "rq_tail q" n]
      by (cases b) (simp_all only: if_True if_False bit_or_iff bit_and_iff bit_not_iff bit_push_one, auto)
  qed
  have "rq_tail (rq_consumer_set_waiting b q) AND 0x7fffffff = rq_tail q AND 0x7fffffff"
    by (rule bit_word_eqI) (simp only: and_mask31 bit_take_bit_iff bits, auto)
  then show "same_core q (rq_consumer_set_waiting b q)"
    by (simp add: same_core_def rq_T_def) (simp add: rq_consumer_set_waiting_def)
  have "take_bit 32 (rq_tail (rq_consumer_set_waiting b q)) = rq_tail (rq_consumer_set_waiting b q)"
    by (rule bit_word_eqI) (use t in \<open>auto simp: bit_take_bit_iff bits split: if_splits\<close>)
  then show "unat (rq_tail (rq_consumer_set_waiting b q)) < 2 ^ 32"
    using unat_take_bit [of 32 "rq_tail (rq_consumer_set_waiting b q)"]
    by (metis mod_less_divisor zero_less_numeral zero_less_power)
qed

section \<open>Steps on entries and counters\<close>

text \<open>Writing the slot of an owned counter value changes no other slot of the window.\<close>

lemma set_entry_other:
  assumes "k mod rq_L q \<noteq> j"
  shows "slot (set_entry j e q) k = slot q k" "published (set_entry j e q) k = published q k"
    "holds (set_entry j e q) k x = holds q k x"
  using assms by (simp_all add: slot_def published_def holds_def set_entry_def rq_L_def)

lemma set_entry_simps [simp]:
  "rq_H (set_entry j e q) = rq_H q" "rq_T (set_entry j e q) = rq_T q" "rq_L (set_entry j e q) = rq_L q"
  "rq_l2len (set_entry j e q) = rq_l2len q" "rq_tail (set_entry j e q) = rq_tail q"
  by (simp_all add: set_entry_def rq_H_def rq_T_def rq_L_def)

lemma sub_ok_other:
  assumes "\<And>k. owns pc = Some k \<Longrightarrow> k mod rq_L q \<noteq> j"
  shows "sub_ok (set_entry j e q) pc = sub_ok q pc"
  using assms set_entry_other [of _ q j e] by (cases pc) simp_all

lemma con_ok_other:
  assumes "rq_T q mod rq_L q \<noteq> j"
  shows "con_ok (set_entry j e q) pc = con_ok q pc"
  using set_entry_other [OF assms, of e] by (cases pc) simp_all

text \<open>An owner overwrites its slot: everything else stays as it is.\<close>

lemma write_other:
  assumes inv: "rs_inv s" and own: "owns (rs_sub s i) = Some k" and j: "j = k mod rq_L (rs_q s)"
  shows "rq_T (rs_q s) \<le> l \<Longrightarrow> l < rq_T (rs_q s) + rq_L (rs_q s) \<Longrightarrow> l \<noteq> k \<Longrightarrow>
      published (set_entry j e (rs_q s)) l = published (rs_q s) l \<and>
      holds (set_entry j e (rs_q s)) l y = holds (rs_q s) l y"
    and "i' \<noteq> i \<Longrightarrow> sub_ok (set_entry j e (rs_q s)) (rs_sub s i')"
    and "con_ok (set_entry j e (rs_q s)) (rs_con s)"
proof -
  let ?q = "rs_q s" and ?q' = "set_entry j e (rs_q s)"
  note I = rs_invD [OF inv] and k = own_range [OF inv own]
  have diff: "l mod rq_L ?q \<noteq> j" if "rq_T ?q \<le> l" "l < rq_T ?q + rq_L ?q" "l \<noteq> k" for l
    using mod_window_inj [of "rq_T ?q" l "rq_L ?q" k] that k(1,2) I(4) by (auto simp: j)
  show "published ?q' l = published ?q l \<and> holds ?q' l y = holds ?q l y"
    if "rq_T ?q \<le> l" "l < rq_T ?q + rq_L ?q" "l \<noteq> k"
    using set_entry_other [OF diff [OF that], of e] by simp
  show "sub_ok ?q' (rs_sub s i')" if "i' \<noteq> i"
  proof -
    have "l mod rq_L ?q \<noteq> j" if l: "owns (rs_sub s i') = Some l" for l
    proof -
      have "l \<noteq> k" using I(9) [of i l i'] own l \<open>i' \<noteq> i\<close> by auto
      then show ?thesis using own_range(1,2) [OF inv l] diff I(4) by simp
    qed
    then show ?thesis using I(7) [of i'] by (simp add: sub_ok_other)
  qed
  show "con_ok ?q' (rs_con s)"
  proof (cases "rq_T ?q = k")
    case True
    then have "\<not> published ?q (rq_T ?q)" using k(4) by simp
    then show ?thesis using I(12) by (cases "rs_con s") simp_all
  next
    case False
    then have "rq_T ?q mod rq_L ?q \<noteq> j" using diff [of "rq_T ?q"] k(1,2) I(4) by linarith
    then show ?thesis using I(12) by (simp add: con_ok_other)
  qed
qed

lemma sub_write:
  assumes inv: "rs_inv s" and own: "owns (rs_sub s i) = Some k" and x: "owned_item (rs_sub s i) = Some x"
    and j: "j = k mod rq_L (rs_q s)" and ok: "sub_ok (set_entry j e (rs_q s)) pc"
    and new: "owns pc = Some k \<and> owned_item pc = Some x \<or>
      owns pc = None \<and> published (set_entry j e (rs_q s)) k \<and> holds (set_entry j e (rs_q s)) k x"
  shows "rs_inv (sub_to s i (set_entry j e (rs_q s)) pc)"
proof -
  let ?q = "rs_q s" and ?q' = "set_entry j e (rs_q s)"
  note I = rs_invD [OF inv] and k = own_range [OF inv own]
  note pub = write_other(1) [OF inv own j, of _ e] and subs = write_other(2) [OF inv own j, of _ e]
    and con = write_other(3) [OF inv own j, of e]
  have xk: "x = rs_log s ! k" using k(3) x by simp
  show ?thesis
  proof (rule rs_invI)
    fix i'
    show "sub_ok (rs_q (sub_to s i ?q' pc)) (rs_sub (sub_to s i ?q' pc) i')"
      using ok subs by (simp add: rs_defs)
    show "own_ok (rs_q (sub_to s i ?q' pc)) (rs_log (sub_to s i ?q' pc)) (rs_sub (sub_to s i ?q' pc) i')"
      using I(8) [of i'] new k xk by (auto simp: rs_defs own_ok_def)
    fix j' l
    assume "owns (rs_sub (sub_to s i ?q' pc) i') = Some l" "owns (rs_sub (sub_to s i ?q' pc) j') = Some l"
    then show "i' = j'" using I(9) new own by (auto simp: rs_defs split: if_splits)
  next
    fix l
    assume l: "rq_T (rs_q (sub_to s i ?q' pc)) \<le> l" "l < rq_H (rs_q (sub_to s i ?q' pc))"
      "\<forall>i'. owns (rs_sub (sub_to s i ?q' pc) i') \<noteq> Some l"
    show "published (rs_q (sub_to s i ?q' pc)) l \<and>
        holds (rs_q (sub_to s i ?q' pc)) l (rs_log (sub_to s i ?q' pc) ! l)"
    proof (cases "l = k")
      case True
      then have "owns pc \<noteq> Some k" using l(3) by (auto simp: rs_defs dest: spec [of _ i])
      then show ?thesis using new True xk by (simp add: rs_defs)
    next
      case False
      then have "owns (rs_sub s i') \<noteq> Some l" for i'
        using l(3) own by (cases "i' = i") (auto simp: rs_defs dest: spec [of _ i'])
      then show ?thesis
        using I(10) [of l] l(1,2) False pub [of l] I(4) by (simp add: rs_defs)
    qed
  next
    fix l
    assume "rq_H (rs_q (sub_to s i ?q' pc)) \<le> l"
      "l < rq_T (rs_q (sub_to s i ?q' pc)) + rq_L (rs_q (sub_to s i ?q' pc))"
    then show "\<not> published (rs_q (sub_to s i ?q' pc)) l"
      using I(3) I(11) [of l] k(2) pub(1) [of l] by (simp add: rs_defs)
  qed (use I con in \<open>simp_all add: rs_defs\<close>)
qed

text \<open>A successful reservation: the head counter grows and the thread owns its old value.\<close>

lemma reserve_step:
  assumes inv: "rs_inv s" and pc: "rs_sub s i = S_cas x nb a w (rq_head (rs_q s))"
    and add: "checked_add (rq_head (rs_q s)) 1 = Some h'" and bound: "unat h' < 2 ^ 31"
    and own: "owns pc' = Some (rq_H (rs_q s))" "owned_item pc' = Some x"
    and ok: "\<And>q. \<not> published q (rq_H (rs_q s)) \<Longrightarrow> sub_ok q pc'"
  shows "rs_inv ((sub_to s i ((rs_q s)\<lparr>rq_head := h'\<rparr>) pc')\<lparr>rs_log := rs_log s @ [x]\<rparr>)"
proof -
  let ?q = "rs_q s" and ?q' = "(rs_q s)\<lparr>rq_head := h'\<rparr>"
  note I = rs_invD [OF inv]
  have H: "rq_H ?q' = rq_H ?q + 1"
    using add by (simp add: checked_add_Some_iff rq_H_def)
  have space: "rq_H ?q < rq_T ?q + rq_L ?q"
    using I(7) [of i] pc by (simp add: rq_H_def)
  have e [simp]: "rq_T ?q' = rq_T ?q" "rq_L ?q' = rq_L ?q" "published ?q' = published ?q"
    "slot ?q' = slot ?q" "holds ?q' = holds ?q"
    by (simp_all add: rq_T_def rq_L_def published_def slot_def holds_def fun_eq_iff)
  have subs: "sub_ok ?q' p" if "sub_ok ?q p" for p using that by (cases p) (simp_all add: H)
  have con: "con_ok ?q' (rs_con s)" using I(12) by (cases "rs_con s") simp_all
  have free: "\<not> published ?q (rq_H ?q)" using I(11) space by simp
  have owner: "owns (rs_sub s i') \<noteq> Some (rq_H ?q)" for i'
    using own_range(2) [OF inv, of i'] by fastforce
  have none: "owns (rs_sub s i) = None" by (simp add: pc)
  show ?thesis
  proof (rule rs_invI)
    fix i'
    show "own_ok (rs_q (sub_to s i ?q' pc'\<lparr>rs_log := rs_log s @ [x]\<rparr>))
        (rs_log (sub_to s i ?q' pc'\<lparr>rs_log := rs_log s @ [x]\<rparr>)) (rs_sub (sub_to s i ?q' pc'\<lparr>rs_log := rs_log s @ [x]\<rparr>) i')"
      using I(8) [of i'] own I(3,5) by (auto simp: rs_defs own_ok_def H nth_append)
    fix j k
    assume "owns (rs_sub (sub_to s i ?q' pc'\<lparr>rs_log := rs_log s @ [x]\<rparr>) i') = Some k"
      "owns (rs_sub (sub_to s i ?q' pc'\<lparr>rs_log := rs_log s @ [x]\<rparr>) j) = Some k"
    then show "i' = j" using I(9) [of i' k j] own(1) owner by (auto simp: rs_defs split: if_splits)
  next
    fix k
    assume k: "rq_T (rs_q (sub_to s i ?q' pc'\<lparr>rs_log := rs_log s @ [x]\<rparr>)) \<le> k"
      "k < rq_H (rs_q (sub_to s i ?q' pc'\<lparr>rs_log := rs_log s @ [x]\<rparr>))"
      "\<forall>i'. owns (rs_sub (sub_to s i ?q' pc'\<lparr>rs_log := rs_log s @ [x]\<rparr>) i') \<noteq> Some k"
    have "owns (rs_sub s i') \<noteq> Some k" for i'
      using k(3) none by (cases "i' = i") (auto simp: rs_defs dest: spec [of _ i'])
    moreover have "k \<noteq> rq_H ?q" using k(3) own(1) by (auto simp: rs_defs dest: spec [of _ i])
    ultimately show "published (rs_q (sub_to s i ?q' pc'\<lparr>rs_log := rs_log s @ [x]\<rparr>)) k \<and>
        holds (rs_q (sub_to s i ?q' pc'\<lparr>rs_log := rs_log s @ [x]\<rparr>)) k (rs_log (sub_to s i ?q' pc'\<lparr>rs_log := rs_log s @ [x]\<rparr>) ! k)"
      using I(10) [of k] k(1,2) I(5) by (simp add: rs_defs H nth_append)
  qed (use I con subs ok free H space in \<open>simp_all add: rs_defs\<close>)
qed

text \<open>The consumer takes the entry at the tail: its slot becomes free for the next go around.\<close>

lemma advance_T:
  assumes "unat (rq_tail q) < 2 ^ 32" and "rq_T q + 1 < 2 ^ 31" and "rq_advance_tail q = Some (wake, q')"
  shows "q' = q\<lparr>rq_tail := rq_tail q'\<rparr>" "rq_T q' = rq_T q + 1" "unat (rq_tail q') < 2 ^ 32"
proof -
  have q': "q' = q\<lparr>rq_tail := (rq_tail q + 1) AND 0x7fffffff\<rparr>"
    using assms(3) by (auto simp: rq_advance_tail_def bind_Some_iff checked_add_def Let_def split: if_splits)
  then show "q' = q\<lparr>rq_tail := rq_tail q'\<rparr>" by simp
  have u: "unat (rq_tail q + 1) = unat (rq_tail q) + 1"
    using assms(1) by (simp add: unat_word_ariths)
  have "rq_tail q' = (rq_tail q + 1) AND 0x7fffffff" using q' by simp
  then have "unat (rq_tail q') = (unat (rq_tail q) + 1) mod 2 ^ 31"
    by (simp only: unat_and_mask31 u)
  also have "\<dots> = (rq_T q + 1) mod 2 ^ 31"
    by (simp only: rq_T_def unat_and_mask31 mod_add_left_eq)
  finally have e: "unat (rq_tail q') = rq_T q + 1" using assms(2) by simp
  then show "unat (rq_tail q') < 2 ^ 32" using assms(2) by simp
  show "rq_T q' = rq_T q + 1"
    using e assms(2) by (simp only: rq_T_def [of q'] unat_and_mask31) simp
qed

lemma published_range:
  assumes "rs_inv s" and "published (rs_q s) (rq_T (rs_q s))"
  shows "rq_T (rs_q s) < rq_H (rs_q s)" "holds (rs_q s) (rq_T (rs_q s)) (rs_log s ! rq_T (rs_q s))"
    "owns (rs_sub s i) \<noteq> Some (rq_T (rs_q s))"
proof -
  note I = rs_invD [OF assms(1)]
  have "0 < rq_L (rs_q s)" by (simp add: rq_L_def)
  then show lt: "rq_T (rs_q s) < rq_H (rs_q s)"
    using I(3) I(11) [of "rq_T (rs_q s)"] assms(2) by (cases "rq_T (rs_q s) < rq_H (rs_q s)") simp_all
  have no: "owns (rs_sub s i) \<noteq> Some (rq_T (rs_q s))" for i
    using own_range(4) [OF assms(1), of i "rq_T (rs_q s)"] assms(2) by blast
  then show "owns (rs_sub s i) \<noteq> Some (rq_T (rs_q s))" .
  from I(10) [of "rq_T (rs_q s)"] lt no
  show "holds (rs_q s) (rq_T (rs_q s)) (rs_log s ! rq_T (rs_q s))" by simp
qed

lemma advance_step:
  assumes inv: "rs_inv s" and pc: "rs_con s = C_advance info d" and bound: "rq_H (rs_q s) < 2 ^ 31"
    and adv: "rq_advance_tail (rs_q s) = Some (wake, q')"
  shows "rs_inv ((con_to s q' C_idle)\<lparr>rs_got := rs_got s @ [(info, d)]\<rparr>)"
proof -
  let ?q = "rs_q s"
  note I = rs_invD [OF inv]
  have pub: "published ?q (rq_T ?q)" "holds ?q (rq_T ?q) (info, d)" using I(12) pc by simp_all
  note R = published_range [OF inv pub(1)]
  have "rq_T ?q + 1 < 2 ^ 31" using R(1) bound by simp
  note A = advance_T [OF I(2) this adv]
  have e: "rq_H q' = rq_H ?q" "rq_L q' = rq_L ?q" "published q' = published ?q" "slot q' = slot ?q"
    "holds q' = holds ?q" "rq_l2len q' = rq_l2len ?q"
    by (subst A(1), simp add: rq_H_def rq_L_def published_def slot_def holds_def fun_eq_iff)+
  have x: "rs_log s ! rq_T ?q = (info, d)" using R(2) pub(2) by (simp add: holds_def)
  have got: "rs_got s @ [(info, d)] = take (rq_T q') (rs_log s)"
    using I(5,6) R(1) x by (simp add: A(2) take_Suc_conv_app_nth)
  have subs: "sub_ok q' p" if "sub_ok ?q p" for p using that by (cases p) (simp_all add: e A(2))
  have wrap: "\<not> published ?q (rq_T ?q + rq_L ?q)"
    using pub(1) by (simp add: published_def even_div_add rq_L_def)
  have own: "rq_T q' \<le> k" if "owns (rs_sub s i) = Some k" for i k
    using own_range(1) [OF inv that] R(3) [of i] that by (cases "k = rq_T ?q") (auto simp: A(2))
  show ?thesis
  proof (rule rs_invI)
    fix i
    show "own_ok (rs_q (con_to s q' C_idle\<lparr>rs_got := rs_got s @ [(info, d)]\<rparr>))
        (rs_log (con_to s q' C_idle\<lparr>rs_got := rs_got s @ [(info, d)]\<rparr>)) (rs_sub (con_to s q' C_idle\<lparr>rs_got := rs_got s @ [(info, d)]\<rparr>) i)"
      using I(8) [of i] own [of i] by (simp add: rs_defs own_ok_def e)
  next
    fix k
    assume "rq_H (rs_q (con_to s q' C_idle\<lparr>rs_got := rs_got s @ [(info, d)]\<rparr>)) \<le> k"
      "k < rq_T (rs_q (con_to s q' C_idle\<lparr>rs_got := rs_got s @ [(info, d)]\<rparr>)) + rq_L (rs_q (con_to s q' C_idle\<lparr>rs_got := rs_got s @ [(info, d)]\<rparr>))"
    then show "\<not> published (rs_q (con_to s q' C_idle\<lparr>rs_got := rs_got s @ [(info, d)]\<rparr>)) k"
      using I(11) [of k] wrap by (cases "k = rq_T ?q + rq_L ?q") (simp_all add: rs_defs e A(2))
  qed (use I A subs got R in \<open>simp_all add: rs_defs e\<close>)
qed

section \<open>Reachable states\<close>

lemma head_mono:
  assumes "rq_step s s'"
  shows "rq_H (rs_q s) \<le> rq_H (rs_q s')"
  using assms
proof cases
  case (cas_ok i x nb a w h h')
  then show ?thesis by (simp add: rs_defs rq_H_def checked_add_Some_iff)
next
  case (c_advance info d wake q')
  then have "rq_head q' = rq_head (rs_q s)"
    by (auto simp: rq_advance_tail_def bind_Some_iff Let_def)
  then show ?thesis using c_advance by (simp add: rs_defs rq_H_def)
qed (simp_all add: rs_defs rq_H_def set_entry_def rq_inc_submit_waiting_def rq_dec_submit_waiting_def
    rq_consumer_set_waiting_def)

lemma get_buf_owner:
  fixes h :: u32
  assumes "rs_inv s" and "owns (rs_sub s i) = Some (unat h)" and "rq_get_buf (rs_q s) (ucast h) = Some j"
  shows "j = unat h mod rq_L (rs_q s)"
proof -
  have "unat h < 4294967296" using unat_word_less [of h] by simp
  then have "unat (ucast h :: u64) = unat h" by (simp add: unat_ucast)
  then show ?thesis using assms(3) rs_invD(1) [OF assms(1)] by (simp add: rq_get_buf_eq)
qed

lemma set_entry_same:
  "slot (set_entry (k mod rq_L q) e q) k = e"
  "published (set_entry (k mod rq_L q) e q) k \<longleftrightarrow> bit (cmd_slot e) 31 = even (k div rq_L q)"
  "holds (set_entry (k mod rq_L q) e q) k x \<longleftrightarrow> (qe_info e, qe_data e) = x"
  by (simp_all add: slot_def published_def holds_def set_entry_def rq_L_def)

text \<open>The reads, retries and waits of the submitters and of the consumer.\<close>

lemma sub_stay:
  assumes "rs_inv s" and "s' = sub_to s i q' pc" and "rs_sub s i = pc0"
    and "same_core (rs_q s) q'" and "rq_tail q' = rq_tail (rs_q s)"
    and "sub_ok (rs_q s) pc0 \<Longrightarrow> sub_ok (rs_q s) pc" and "owns pc = owns pc0" and "owned_item pc = owned_item pc0"
  shows "rs_inv s'"
  using assms sub_local [OF assms(1,4), of pc i] rs_invD(2,7) [OF assms(1)] by metis

lemma con_stay:
  assumes "rs_inv s" and "s' = con_to s (rs_q s) pc" and "rs_con s = pc0"
    and "con_ok (rs_q s) pc0 \<Longrightarrow> con_ok (rs_q s) pc"
  shows "rs_inv s'"
  using assms con_local [OF assms(1) same_core_refl rs_invD(2) [OF assms(1)]] rs_invD(12) [OF assms(1)] by metis

lemma sub_write_inv:
  fixes h :: u32
  assumes inv: "rs_inv s" and pc: "rs_sub s i = pc0" and own: "owns pc0 = Some (unat h)" "owned_item pc0 = Some x"
    and j: "rq_get_buf (rs_q s) (ucast h) = Some j"
    and ok: "sub_ok (rs_q s) pc0 \<Longrightarrow> sub_ok (set_entry j e (rs_q s)) pc"
    and new: "owns pc = Some (unat h) \<and> owned_item pc = Some x \<or>
      owns pc = None \<and> published (set_entry j e (rs_q s)) (unat h) \<and> holds (set_entry j e (rs_q s)) (unat h) x"
  shows "rs_inv (sub_to s i (set_entry j e (rs_q s)) pc)"
  using sub_write [OF inv _ _ get_buf_owner [OF inv _ j], where i = i and x = x and e = e and pc = pc and i1 = i] own pc ok new rs_invD(7) [OF inv, of i]
  by simp

lemma data_writes:
  fixes h :: u32
  assumes inv: "rs_inv s" and j: "rq_get_buf (rs_q s) (ucast h) = Some j"
  shows "rs_sub s i = S_data x h \<Longrightarrow>
      rs_inv (sub_to s i (set_entry j ((rq_buf (rs_q s) j)\<lparr>qe_data := snd x\<rparr>) (rs_q s)) (S_info x h))"
    and "rs_sub s i = S_info x h \<Longrightarrow>
      rs_inv (sub_to s i (set_entry j ((rq_buf (rs_q s) j)\<lparr>qe_info := fst x\<rparr>) (rs_q s)) (S_cmd x h))"
proof -
  show "rs_inv (sub_to s i (set_entry j ((rq_buf (rs_q s) j)\<lparr>qe_data := snd x\<rparr>) (rs_q s)) (S_info x h))"
    if pc: "rs_sub s i = S_data x h"
    using get_buf_owner [OF inv _ j, of i] pc
    by (intro sub_write_inv [OF inv pc _ _ j]) (auto simp: set_entry_same, auto simp: published_def)
  show "rs_inv (sub_to s i (set_entry j ((rq_buf (rs_q s) j)\<lparr>qe_info := fst x\<rparr>) (rs_q s)) (S_cmd x h))"
    if pc: "rs_sub s i = S_info x h"
    using get_buf_owner [OF inv _ j, of i] pc
    by (intro sub_write_inv [OF inv pc _ _ j]) (auto simp: set_entry_same, auto simp: published_def slot_def)
qed

lemma cmd_write:
  assumes inv: "rs_inv s" and pc: "rs_sub s i = S_cmd x h" and j: "rq_get_buf (rs_q s) (ucast h) = Some j"
    and c: "rq_cmd (rs_q s) h = Some c" and "rq_H (rs_q s) < 2 ^ 31"
  shows "rs_inv (sub_to s i (set_entry j ((rq_buf (rs_q s) j)\<lparr>cmd_slot := c\<rparr>) (rs_q s)) S_bell)"
proof -
  have hold: "holds (rs_q s) (unat h) x" using rs_invD(7) [OF inv, of i] pc by simp
  have "unat h < 2 ^ 31" using own_range(2) [OF inv, of i "unat h"] pc assms(5) by simp
  then have "bit c 31 = even (unat h div rq_L (rs_q s))"
    using rq_cmd_eq [OF rs_invD(1) [OF inv], of h] c by auto
  then show ?thesis
    using get_buf_owner [OF inv _ j, of i] pc hold
    by (intro sub_write_inv [OF inv pc _ _ j]) (auto simp: set_entry_same, auto simp: holds_def slot_def)
qed

lemma load_tail_inv:
  assumes inv: "rs_inv s" and pc: "rs_sub s i = S_tail x nb a w h" and "rq_H (rs_q s) < 2 ^ 31"
    and full: "rq_is_full (rs_q s) h (rq_tail (rs_q s)) = Some False"
  shows "rs_inv (sub_to s i (rs_q s) (S_cas x nb a w h))"
proof -
  have h: "unat h \<le> rq_H (rs_q s)" using rs_invD(7) [OF inv, of i] pc by simp
  then have "sub_ok (rs_q s) (S_cas x nb a w h)"
    using full rq_is_full_eq [OF rs_invD(1) [OF inv], of h "rq_tail (rs_q s)"] assms(3)
    by (auto simp: rq_T_def unat_and_mask31 split: if_splits)
  then show ?thesis by (intro sub_stay [OF inv refl pc]) simp_all
qed

lemma cas_inv:
  assumes inv: "rs_inv s" and pc: "rs_sub s i = S_cas x nb a w h" and h: "rq_head (rs_q s) = h"
    and add: "checked_add h 1 = Some h'" and bound: "unat h' < 2 ^ 31"
  shows "rs_inv ((sub_to s i ((rs_q s)\<lparr>rq_head := h'\<rparr>)
      (if w then S_unreg x (h AND 0x7fffffff) else S_data x (h AND 0x7fffffff)))\<lparr>rs_log := rs_log s @ [x]\<rparr>)"
proof -
  have "unat h < 2 ^ 31" using add bound by (simp add: checked_add_Some_iff)
  then have "h AND 0x7fffffff = h"
    by (intro word_unat_eq_iff [THEN iffD2]) (simp only: unat_and_mask31, simp)
  then show ?thesis
    using pc add h by (intro reserve_step [OF inv _ _ bound]) (simp_all add: rq_H_def)
qed

lemma c_turn_inv:
  assumes inv: "rs_inv s" and pc: "rs_con s = C_turn nb a t" and j: "rq_get_buf (rs_q s) t = Some j"
    and turn: "rq_is_turn (rs_q s) t (rq_buf (rs_q s) j) = Some turn"
  shows "rs_inv (con_to s (rs_q s) (if turn then C_ready a t else C_miss nb a t))"
  using rs_invD(12) [OF inv] pc j turn rs_invD(1) [OF inv]
  by (intro con_stay [OF inv refl pc]) (auto simp: published_def rq_get_buf_eq rq_is_turn_eq)

lemma waiting_same_tail [simp]:
  "same_core q (rq_inc_submit_waiting q)" "rq_tail (rq_inc_submit_waiting q) = rq_tail q"
  "same_core q (rq_dec_submit_waiting q)" "rq_tail (rq_dec_submit_waiting q) = rq_tail q"
  "same_core q (q\<lparr>rq_bell := b\<rparr>)"
  by (simp_all add: same_core_def rq_inc_submit_waiting_def rq_dec_submit_waiting_def rq_T_def)

lemma rs_inv_step:
  assumes step: "rq_step s s'" and inv: "rs_inv s" and bound: "rq_H (rs_q s') < 2 ^ 31"
  shows "rs_inv s'"
proof -
  have H: "rq_H (rs_q s) < 2 ^ 31" using head_mono [OF step] bound by simp
  note stay = sub_stay [OF inv] and cstay = con_stay [OF inv]
  show ?thesis
    using step
  proof cases
    case (cas_ok i x nb a w h h')
    then show ?thesis using cas_inv [OF inv] bound by (simp add: rs_defs rq_H_def)
  next
    case (c_advance info d wake q')
    then show ?thesis using advance_step [OF inv _ H] by simp
  next
    case (load_head i x nb a w)
    then show ?thesis by (intro stay [OF load_head]) (simp_all add: rq_H_def)
  next
    case (full_register i x w h)
    then show ?thesis by (intro stay [OF full_register]) simp_all
  next
    case (c_load_tail nb a)
    then show ?thesis by (intro cstay [OF c_load_tail]) (simp_all add: rq_T_def)
  next
    case (c_set_waiting t)
    then show ?thesis using con_local [OF inv] waiting_same_core [OF rs_invD(2) [OF inv]] by simp
  next
    case (c_ready a t)
    have "con_ok (rs_q s) (C_read_info t)" using rs_invD(12) [OF inv] c_ready(2) by simp
    then show ?thesis
      using con_local [OF inv] waiting_same_core [OF rs_invD(2) [OF inv]] rs_invD(2) [OF inv] c_ready by simp
  next
    case (c_read_info t j)
    then show ?thesis
      using rs_invD(1) [OF inv] by (intro cstay [OF c_read_info(1,2)]) (simp_all add: rq_get_buf_eq slot_def)
  next
    case (c_read_data t info j)
    then show ?thesis
      using rs_invD(1) [OF inv]
      by (intro cstay [OF c_read_data(1,2)]) (simp_all add: rq_get_buf_eq slot_def holds_def)
  next
    case (c_turn nb a t j turn)
    then show ?thesis using c_turn_inv [OF inv] by simp
  next
    case (write_data i x h j)
    then show ?thesis using data_writes(1) [OF inv] by simp
  next
    case (write_info i x h j)
    then show ?thesis using data_writes(2) [OF inv] by simp
  next
    case (write_cmd i x h j c)
    then show ?thesis using cmd_write [OF inv _ _ _ H] by simp
  next
    case (load_tail_space i x nb a w h)
    then show ?thesis using load_tail_inv [OF inv _ H] by simp
  next
    case (bell i)
    then show ?thesis by (intro stay [OF bell]) simp_all
  qed (erule (1) stay cstay; simp)+
qed

lemma rs_inv_init:
  assumes "l2len < 31" and "\<forall>i. \<not> bit (cmd_slot (buf i)) 31"
  shows "rs_inv (rs_init l2len stride buf)"
  using assms
  by (intro rs_invI) (auto simp: rs_init_def RawQueue_new_def rq_H_def rq_T_def rq_L_def published_def own_ok_def)

lemma rs_inv_reachable:
  assumes "rq_step\<^sup>*\<^sup>* (rs_init l2len stride buf) s" and "l2len < 31"
    and "\<forall>i. \<not> bit (cmd_slot (buf i)) 31" and "rq_H (rs_q s) < 2 ^ 31"
  shows "rs_inv s"
  using assms(1,4)
proof (induction rule: rtranclp_induct)
  case base
  show ?case by (rule rs_inv_init [OF assms(2,3)])
next
  case (step s s')
  then show ?case using rs_inv_step head_mono by (meson le_less_trans)
qed

section \<open>Running an operation alone\<close>

text \<open>
  A submission and a reception that run without interference take exactly the steps that the
  sequential definitions compute.
\<close>

lemma sub_to_sub_to [simp]: "sub_to (sub_to s i q pc) i q' pc' = sub_to s i q' pc'"
  by (simp add: sub_to_def)

lemma sub_to_sel [simp]:
  "rs_q (sub_to s i q pc) = q" "rs_sub (sub_to s i q pc) j = (if j = i then pc else rs_sub s j)"
  "rs_con (sub_to s i q pc) = rs_con s" "rs_log (sub_to s i q pc) = rs_log s" "rs_got (sub_to s i q pc) = rs_got s"
  by (simp_all add: sub_to_def)

lemma sub_to_log [simp]: "sub_to (s\<lparr>rs_log := l\<rparr>) i q pc = (sub_to s i q pc)\<lparr>rs_log := l\<rparr>"
  by (simp add: sub_to_def)

lemma con_to_con_to [simp]: "con_to (con_to s q pc) q' pc' = con_to s q' pc'"
  by (simp add: con_to_def)

lemma con_to_sel [simp]:
  "rs_q (con_to s q pc) = q" "rs_sub (con_to s q pc) = rs_sub s" "rs_con (con_to s q pc) = pc"
  "rs_log (con_to s q pc) = rs_log s" "rs_got (con_to s q pc) = rs_got s"
  by (simp_all add: con_to_def)

lemma solo_publish:
  assumes pc: "rs_sub s i = S_data x h" and j: "rq_get_buf (rs_q s) (ucast h) = Some j"
    and c: "rq_cmd (rs_q s) h = Some c"
  shows "rq_step\<^sup>*\<^sup>* s (sub_to s i (snd (rq_ring (set_entry j
      \<lparr>cmd_slot = c, qe_info = fst x, qe_data = snd x\<rparr> (rs_q s)))) S_idle)"
proof -
  have e: "rq_get_buf (set_entry j e (rs_q s)) (ucast h) = Some j" "rq_cmd (set_entry j e (rs_q s)) h = Some c" for e
    using j c by (simp_all only: rq_get_buf_def rq_cmd_def rq_get_turn_def rq_len_def set_entry_simps)
  define q1 where "q1 = set_entry j ((rq_buf (rs_q s) j)\<lparr>qe_data := snd x\<rparr>) (rs_q s)"
  define q2 where "q2 = set_entry j ((rq_buf q1 j)\<lparr>qe_info := fst x\<rparr>) q1"
  define q3 where "q3 = set_entry j ((rq_buf q2 j)\<lparr>cmd_slot := c\<rparr>) q2"
  have q2: "q2 = set_entry j ((rq_buf q1 j)\<lparr>qe_info := fst x\<rparr>) (rs_q s)"
    by (simp add: q2_def q1_def set_entry_def)
  have q3: "q3 = set_entry j \<lparr>cmd_slot = c, qe_info = fst x, qe_data = snd x\<rparr> (rs_q s)"
    by (cases "rq_buf (rs_q s) j") (simp add: q3_def q2_def q1_def set_entry_def)
  have "rq_step s (sub_to s i q1 (S_info x h))"
    unfolding q1_def by (rule write_data [OF pc j])
  moreover have "rq_step (sub_to s i q1 (S_info x h)) (sub_to s i q2 (S_cmd x h))"
    using write_info [of "sub_to s i q1 (S_info x h)" i x h j] by (simp add: q1_def e q2_def)
  moreover have "rq_step (sub_to s i q2 (S_cmd x h)) (sub_to s i q3 S_bell)"
    using write_cmd [of "sub_to s i q2 (S_cmd x h)" i x h j c] by (simp add: e q3_def) (simp add: q2 e)
  moreover have "rq_step (sub_to s i q3 S_bell) (sub_to s i (snd (rq_ring q3)) S_ring)"
    using bell [of "sub_to s i q3 S_bell" i] by (simp add: rq_ring_def Let_def)
  moreover have "rq_step (sub_to s i (snd (rq_ring q3)) S_ring) (sub_to s i (snd (rq_ring q3)) S_idle)"
    using ring [of "sub_to s i (snd (rq_ring q3)) S_ring" i] by simp
  ultimately show ?thesis
    unfolding q3 [symmetric] by (meson converse_rtranclp_into_rtranclp rtranclp.rtrancl_refl)
qed

lemma rq_const_upd:
  "rq_get_buf (q\<lparr>rq_head := h\<rparr>) = rq_get_buf q" "rq_get_buf (q\<lparr>rq_buf := b\<rparr>) = rq_get_buf q"
  "rq_cmd (q\<lparr>rq_head := h\<rparr>) = rq_cmd q" "rq_cmd (q\<lparr>rq_buf := b\<rparr>) = rq_cmd q"
  by (simp_all add: rq_get_buf_def rq_cmd_def rq_get_turn_def rq_len_def fun_eq_iff)

lemma entry_full_upd: "(e :: 'a QueueEntry)\<lparr>qe_data := d, qe_info := i, cmd_slot := c\<rparr> =
    \<lparr>cmd_slot = c, qe_info = i, qe_data = d\<rparr>"
  by (cases e) simp

lemma solo_submit:
  assumes idle: "rs_sub s i = S_idle"
    and sub: "rq_submit (QueueEntry_new (fst x) (snd x)) (rs_q s) = Some (Inr (), q')"
  shows "rq_step\<^sup>*\<^sup>* s ((sub_to s i q' S_idle)\<lparr>rs_log := rs_log s @ [x]\<rparr>)"
proof -
  let ?q = "rs_q s" and ?h = "rq_head (rs_q s)"
  obtain h' j c where full: "rq_is_full ?q ?h (rq_tail ?q) = Some False"
    and add: "checked_add ?h 1 = Some h'" and j: "rq_get_buf ?q (ucast (?h AND 0x7fffffff)) = Some j"
    and c: "rq_cmd ?q (?h AND 0x7fffffff) = Some c"
    and q': "q' = snd (rq_ring (set_entry j \<lparr>cmd_slot = c, qe_info = fst x, qe_data = snd x\<rparr> (?q\<lparr>rq_head := h'\<rparr>)))"
    using sub unfolding rq_submit_def rq_reserve_slot_def Let_def
    by (auto simp: bind_Some_iff QueueEntry_new_def set_entry_def rq_const_upd entry_full_upd split: if_splits)
  define s1 where "s1 = (sub_to s i (?q\<lparr>rq_head := h'\<rparr>) (S_data x (?h AND 0x7fffffff)))\<lparr>rs_log := rs_log s @ [x]\<rparr>"
  have "rq_step s (sub_to s i ?q (S_head x True 1000 False))"
    by (rule submit_call [OF idle])
  moreover have "rq_step (sub_to s i ?q (S_head x True 1000 False)) (sub_to s i ?q (S_tail x True 1000 False ?h))"
    using load_head [of "sub_to s i ?q (S_head x True 1000 False)" i x True 1000 False] by simp
  moreover have "rq_step (sub_to s i ?q (S_tail x True 1000 False ?h)) (sub_to s i ?q (S_cas x True 1000 False ?h))"
    using load_tail_space [of "sub_to s i ?q (S_tail x True 1000 False ?h)" i x True 1000 False ?h] full by simp
  moreover have "rq_step (sub_to s i ?q (S_cas x True 1000 False ?h)) s1"
    using cas_ok [of "sub_to s i ?q (S_cas x True 1000 False ?h)" i x True 1000 False ?h h'] add
    by (simp add: s1_def)
  moreover have "rq_step\<^sup>*\<^sup>* s1 (sub_to s1 i q' S_idle)"
    using solo_publish [of s1 i x "?h AND 0x7fffffff" j c] j c
    by (simp add: s1_def q' rq_const_upd)
  ultimately have "rq_step\<^sup>*\<^sup>* s (sub_to s1 i q' S_idle)"
    by (meson converse_rtranclp_into_rtranclp)
  then show ?thesis by (simp add: s1_def)
qed

lemma solo_receive:
  assumes idle: "rs_con s = C_idle" and rec: "rq_receive (rs_q s) = Some (Inr e, q')"
  shows "rq_step\<^sup>*\<^sup>* s ((con_to s q' C_idle)\<lparr>rs_got := rs_got s @ [(qe_info e, qe_data e)]\<rparr>)"
proof -
  let ?q = "rs_q s" and ?t = "rq_tail (rs_q s) AND 0x7fffffff"
  obtain j where ne: "\<not> rq_is_empty (rq_bell ?q) ?t" and j: "rq_get_buf ?q ?t = Some j"
    and turn: "rq_is_turn ?q ?t (rq_buf ?q j) = Some True" and e: "e = rq_buf ?q j"
    and adv: "\<exists>w. rq_advance_tail ?q = Some (w, q')"
    using rec by (auto simp: rq_receive_def rq_get_next_ready_def rq_has_pending_def Let_def bind_Some_iff
        split: if_splits)
  from adv obtain w where adv: "rq_advance_tail ?q = Some (w, q')" ..
  let ?c = "\<lambda>pc. con_to s ?q pc"
  have "rq_step s (?c (C_tail True 1000))" by (rule receive_call [OF idle])
  moreover have "rq_step (?c (C_tail True 1000)) (?c (C_bell True 1000 ?t))"
    using c_load_tail [of "?c (C_tail True 1000)" True 1000] by simp
  moreover have "rq_step (?c (C_bell True 1000 ?t)) (?c (C_turn True 1000 ?t))"
    using c_load_bell [of "?c (C_bell True 1000 ?t)" True 1000 ?t] ne by simp
  moreover have "rq_step (?c (C_turn True 1000 ?t)) (?c (C_ready 1000 ?t))"
    using Raw_Queue_Conc.rq_step.c_turn [of "?c (C_turn True 1000 ?t)" True 1000 ?t j True] j turn by simp
  moreover have "rq_step (?c (C_ready 1000 ?t)) (?c (C_read_info ?t))"
    using c_ready [of "?c (C_ready 1000 ?t)" 1000 ?t] by simp
  moreover have "rq_step (?c (C_read_info ?t)) (?c (C_read_data ?t (qe_info e)))"
    using c_read_info [of "?c (C_read_info ?t)" ?t j] j by (simp add: e)
  moreover have "rq_step (?c (C_read_data ?t (qe_info e))) (?c (C_advance (qe_info e) (qe_data e)))"
    using c_read_data [of "?c (C_read_data ?t (qe_info e))" ?t _ j] j by (simp add: e)
  moreover have "rq_step (?c (C_advance (qe_info e) (qe_data e)))
      ((con_to s q' C_idle)\<lparr>rs_got := rs_got s @ [(qe_info e, qe_data e)]\<rparr>)"
    using c_advance [of "?c (C_advance (qe_info e) (qe_data e))" _ _ w q'] adv by simp
  ultimately show ?thesis by (meson converse_rtranclp_into_rtranclp rtranclp.rtrancl_refl)
qed

section \<open>Properties\<close>

text \<open>
  C1.  The concurrent raw queue neither loses, duplicates, reorders nor tears items: in every
  reachable state of any number of submitters and the consumer, with any interleaving of their
  accesses, the items received so far are exactly the first ones in the order in which the
  slots were reserved, and never more than the capacity is reserved and not yet consumed.  The
  head counter is bounded because the fullness test is only meaningful below two to the 31.
\<close>

theorem raw_queue_delivers_in_order:
  assumes "rq_step\<^sup>*\<^sup>* (rs_init l2len stride buf) s" and "l2len < 31"
    and "\<forall>i. \<not> bit (cmd_slot (buf i)) 31" and "rq_H (rs_q s) < 2 ^ 31"
  shows "rs_got s = take (rq_T (rs_q s)) (rs_log s) \<and> length (rs_log s) = rq_H (rs_q s) \<and>
    rq_H (rs_q s) \<le> rq_T (rs_q s) + rq_L (rs_q s)"
  using rs_invD(4,5,6) [OF rs_inv_reachable [OF assms]] by simp

text \<open>A run for the witnesses: one submission and one reception of the item \<open>(7, 42)\<close>.\<close>

definition demo_buf :: "nat \<Rightarrow> nat QueueEntry" where
  "demo_buf i = \<lparr>cmd_slot = 0, qe_info = 0, qe_data = 0\<rparr>"

definition demo_q :: "nat RawQueue" where
  "demo_q = RawQueue_new 2 16 demo_buf"

definition demo_q1 :: "nat RawQueue" where
  "demo_q1 = demo_q\<lparr>rq_head := 1, rq_bell := 1,
     rq_buf := demo_buf(0 := \<lparr>cmd_slot = 0x80000000, qe_info = 7, qe_data = 42\<rparr>)\<rparr>"

lemmas demo_defs = demo_q_def demo_q1_def demo_buf_def RawQueue_new_def rq_is_full_def rq_len_def
  rq_get_buf_def rq_cmd_def rq_get_turn_def rq_is_turn_def rq_is_empty_def checked_sub_def checked_add_def Let_def

lemma demo_submit: "rq_submit (QueueEntry_new 7 42) demo_q = Some (Inr (), demo_q1)"
  by (simp add: rq_submit_def rq_reserve_slot_def rq_ring_def QueueEntry_new_def demo_defs)

lemma demo_receive:
  "rq_receive demo_q1 = Some (Inr \<lparr>cmd_slot = 0x80000000, qe_info = 7, qe_data = 42\<rparr>, demo_q1\<lparr>rq_tail := 1\<rparr>)"
  by (simp add: rq_receive_def rq_get_next_ready_def rq_has_pending_def rq_advance_tail_def demo_defs)

text \<open>An instance: the run in which the consumer has received the item.\<close>

theorem raw_queue_delivers_in_order_witness:
  "\<exists>s. rq_step\<^sup>*\<^sup>* (rs_init 2 16 demo_buf) s \<and> rs_got s = [(7, 42)] \<and>
     rs_got s = take (rq_T (rs_q s)) (rs_log s)"
proof -
  let ?s0 = "rs_init 2 16 demo_buf"
  let ?s1 = "(sub_to ?s0 0 demo_q1 S_idle)\<lparr>rs_log := [(7, 42)]\<rparr>"
  let ?s2 = "(con_to ?s1 (demo_q1\<lparr>rq_tail := 1\<rparr>) C_idle)\<lparr>rs_got := [(7, 42)]\<rparr>"
  have 1: "rq_step\<^sup>*\<^sup>* ?s0 ?s1"
    using solo_submit [of ?s0 0 "(7, 42)" demo_q1] demo_submit
    by (simp add: rs_init_def demo_q_def)
  have 2: "rq_step\<^sup>*\<^sup>* ?s1 ?s2"
    using solo_receive [OF _ , of ?s1] demo_receive by (simp add: rs_init_def)
  have run: "rq_step\<^sup>*\<^sup>* ?s0 ?s2" using 1 2 by (rule rtranclp_trans)
  have "rq_H (rs_q ?s2) < 2 ^ 31" by (simp add: rq_H_def demo_q1_def)
  with raw_queue_delivers_in_order [OF run] run show ?thesis by (auto simp: demo_buf_def)
qed

text \<open>
  C22.  The test for a full queue races with the consumer: it subtracts the tail from a head that
  was read earlier, so when other threads submit and the consumer overtakes the old head in
  between, the subtraction underflows.  There is a run of the queue with two submitters and
  the consumer, all of which only call \<^verbatim>\<open>submit\<close> and \<^verbatim>\<open>receive\<close> on a nearly empty queue, in
  which a submitter panics.
\<close>

theorem raw_queue_stale_head_panics:
  "\<exists>s. rq_step\<^sup>*\<^sup>* (rs_init 2 16 demo_buf) s \<and> rs_sub s 1 = S_panicked \<and> length (rs_log s) = 1"
proof -
  let ?s0 = "rs_init 2 16 demo_buf"
  let ?a = "sub_to ?s0 1 demo_q (S_head (8, 43) True 1000 False)"
  let ?b = "sub_to ?s0 1 demo_q (S_tail (8, 43) True 1000 False 0)"
  let ?c = "(sub_to ?b 0 demo_q1 S_idle)\<lparr>rs_log := [(7, 42)]\<rparr>"
  let ?d = "(con_to ?c (demo_q1\<lparr>rq_tail := 1\<rparr>) C_idle)\<lparr>rs_got := [(7, 42)]\<rparr>"
  let ?e = "sub_to ?d 1 (demo_q1\<lparr>rq_tail := 1\<rparr>) S_panicked"
  have q: "rs_q ?s0 = demo_q" by (simp add: rs_init_def demo_q_def)
  have "rq_step ?s0 ?a" using submit_call [of ?s0 1 "(8, 43)" True] q by (simp add: rs_init_def)
  moreover have "rq_step ?a ?b" using load_head [of ?a 1 "(8, 43)" True 1000 False] by (simp add: demo_q_def RawQueue_new_def)
  moreover have "rq_step\<^sup>*\<^sup>* ?b ?c"
    using solo_submit [of ?b 0 "(7, 42)" demo_q1] demo_submit by (simp add: rs_init_def)
  moreover have "rq_step\<^sup>*\<^sup>* ?c ?d"
    using solo_receive [of ?c] demo_receive by (simp add: rs_init_def)
  moreover have "rq_is_full (demo_q1\<lparr>rq_tail := 1\<rparr>) 0 1 = None" by (simp add: demo_defs)
  then have "rq_step ?d ?e"
    using load_tail_panic [of ?d 1 "(8, 43)" True 1000 False 0] by simp
  ultimately have "rq_step\<^sup>*\<^sup>* ?s0 ?e"
    by (meson converse_rtranclp_into_rtranclp rtranclp.rtrancl_into_rtrancl rtranclp_trans)
  moreover have "rs_sub ?e 1 = S_panicked" "length (rs_log ?e) = 1" by simp_all
  ultimately show ?thesis by blast
qed

end
