(* ===== verification/Volatile_Buffer.thy ===== *)
theory Volatile_Buffer
  imports Prelude
begin

text \<open>
  The byte ring of pipes and terminals (\<^verbatim>\<open>src/lib/twizzler-io/src/buffer.rs\<close>).  The three
  atomic counters are words; the byte array has length \<open>N\<close>.  The operations are those of a
  single thread: a compare-and-exchange then succeeds, and the wait for earlier writers is over
  at once.  The bytes that a read copies into its buffer are its result.
\<close>

section \<open>The contract of a byte buffer\<close>

locale byte_buffer =
  fixes inv :: "'s \<Rightarrow> bool"
    and content :: "'s \<Rightarrow> 'b list"
    and cap :: "'s \<Rightarrow> nat"
    and lives :: "'s \<Rightarrow> nat"
    and put :: "'b list \<Rightarrow> 's \<Rightarrow> (nat \<times> 's) option"
    and get :: "nat \<Rightarrow> 's \<Rightarrow> ('b list \<times> 's) option"
  assumes write_law: "inv s \<Longrightarrow> length bs \<le> lives s \<Longrightarrow>
      \<exists>s'. put bs s = Some (min (length bs) (cap s - length (content s)), s') \<and> inv s' \<and>
        content s' = content s @ take (cap s - length (content s)) bs \<and> cap s' = cap s \<and>
        lives s \<le> lives s' + length bs"
    and read_law: "inv s \<Longrightarrow>
      \<exists>s'. get n s = Some (take n (content s), s') \<and> inv s' \<and> content s' = drop n (content s) \<and>
        cap s' = cap s \<and> lives s' = lives s"
begin

text \<open>Two writes that fit are read back as one stream.\<close>

lemma stream:
  assumes "inv s" and "content s = []" and "length (as @ bs) \<le> cap s" and "length (as @ bs) \<le> lives s"
  shows "\<exists>s1 s2 s3. put as s = Some (length as, s1) \<and> put bs s1 = Some (length bs, s2) \<and>
    get (length (as @ bs)) s2 = Some (as @ bs, s3) \<and> content s3 = []"
proof -
  obtain s1 where s1: "put as s = Some (length as, s1)" "inv s1" "content s1 = as" "cap s1 = cap s"
    "lives s \<le> lives s1 + length as"
    using write_law [OF assms(1), of as] assms by auto
  then obtain s2 where s2: "put bs s1 = Some (length bs, s2)" "inv s2" "content s2 = as @ bs"
    using write_law [of s1 bs] assms by auto
  then show ?thesis using read_law [of s2 "length (as @ bs)"] s1(1) by auto
qed

text \<open>A read and a later read return what one read would.\<close>

lemma read_split:
  assumes "inv s"
  shows "\<exists>s1 s2. get m s = Some (take m (content s), s1) \<and>
    get n s1 = Some (take n (drop m (content s)), s2) \<and> content s2 = drop (m + n) (content s)"
proof -
  obtain s1 where s1: "get m s = Some (take m (content s), s1)" "inv s1" "content s1 = drop m (content s)"
    using read_law [OF assms, of m] by auto
  then show ?thesis using read_law [of s1 n] by (auto simp: add.commute)
qed

end

section \<open>The buffer\<close>

record VolatileBuffer =
  vb_reserve :: u64
  vb_head :: u64
  vb_tail :: u64
  vb_buffer :: "u8 list"

definition VolatileBuffer_new :: "nat \<Rightarrow> VolatileBuffer" where
  "VolatileBuffer_new N = \<lparr>vb_reserve = 0, vb_head = 0, vb_tail = 0, vb_buffer = replicate N 0\<rparr>"

definition vb_N :: "VolatileBuffer \<Rightarrow> nat" where
  "vb_N vb = length (vb_buffer vb)"

text \<open>\<open>(N - 1) - (a - b)\<close>, with the two subtractions of the source.\<close>

definition vb_space :: "VolatileBuffer \<Rightarrow> u64 \<Rightarrow> u64 \<Rightarrow> nat option" where
  "vb_space vb resv tail = do {
     d \<leftarrow> checked_sub resv tail;
     assert_that (1 \<le> vb_N vb \<and> unat d \<le> vb_N vb - 1);
     Some (vb_N vb - 1 - unat d) }"

definition vb_avail_space :: "VolatileBuffer \<Rightarrow> nat option" where
  "vb_avail_space vb = vb_space vb (vb_reserve vb) (vb_tail vb)"

definition vb_pending_bytes :: "VolatileBuffer \<Rightarrow> nat option" where
  "vb_pending_bytes vb = do { d \<leftarrow> checked_sub (vb_head vb) (vb_tail vb); Some (unat d) }"

definition vb_is_empty :: "VolatileBuffer \<Rightarrow> bool" where
  "vb_is_empty vb \<longleftrightarrow> vb_head vb = vb_tail vb"

definition read_from_circle :: "u8 list \<Rightarrow> nat \<Rightarrow> nat \<Rightarrow> u8 list option" where
  "read_from_circle buffer len phase = do {
     assert_that (phase \<le> length buffer);
     let second = take phase buffer;
     let first = drop phase buffer;
     let first_len = min (length first) len;
     let second_len = min (length second) (len - first_len);
     Some (take first_len first @ take second_len second) }"

definition write_to_circle :: "u8 list \<Rightarrow> nat \<Rightarrow> u8 list \<Rightarrow> (nat \<times> u8 list) option" where
  "write_to_circle buf phase buffer = do {
     assert_that (phase \<le> length buffer);
     let second = take phase buffer;
     let first = drop phase buffer;
     let first_len = min (length first) (length buf);
     let second_len = min (length second) (length buf - first_len);
     Some (first_len + second_len,
       (take second_len (drop first_len buf) @ drop second_len second) @
       (take first_len buf @ drop first_len first)) }"

text \<open>
  The loops.  Every round that continues has moved at least one byte; a round that moved none,
  or a writer that finds the head behind its reservation, would repeat forever in one thread,
  and is the result \<open>None\<close>.
\<close>

function vb_read_bytes :: "nat \<Rightarrow> VolatileBuffer \<Rightarrow> (u8 list \<times> VolatileBuffer) option" where
  "vb_read_bytes len vb =
     (if len = 0 then Some ([], vb)
      else if vb_tail vb = vb_head vb then Some ([], vb)
      else do {
        assert_that (vb_head vb \<ge> vb_tail vb);
        let n = min len (unat (vb_head vb - vb_tail vb));
        assert_that (vb_N vb > 0);
        bytes \<leftarrow> read_from_circle (vb_buffer vb) n (unat (vb_tail vb) mod vb_N vb);
        tail \<leftarrow> checked_add (vb_tail vb) (of_nat (length bytes));
        assert_that (0 < length bytes \<and> length bytes \<le> len);
        (rest, vb) \<leftarrow> vb_read_bytes (len - length bytes) (vb\<lparr>vb_tail := tail\<rparr>);
        Some (bytes @ rest, vb) })"
  by pat_completeness auto
termination by (relation "measure fst") (auto split: if_splits)

function vb_write_bytes :: "u8 list \<Rightarrow> VolatileBuffer \<Rightarrow> (nat \<times> VolatileBuffer) option" where
  "vb_write_bytes buf vb =
     (if buf = [] then Some (0, vb)
      else do {
        let resv = vb_reserve vb;
        avail \<leftarrow> vb_space vb resv (vb_tail vb);
        if avail = 0 then Some (0, vb)
        else do {
          let n = min (length buf) avail;
          resv' \<leftarrow> checked_add resv (of_nat n);
          assert_that (vb_head vb = resv);
          (n, buffer) \<leftarrow> write_to_circle (take n buf) (unat resv mod vb_N vb) (vb_buffer vb);
          assert_that (0 < n);
          (count, vb) \<leftarrow> vb_write_bytes (drop n buf)
             (vb\<lparr>vb_reserve := resv', vb_buffer := buffer, vb_head := vb_head vb + of_nat n\<rparr>);
          Some (n + count, vb) } })"
  by pat_completeness auto
termination by (relation "measure (length \<circ> fst)") (auto split: if_splits)

declare vb_read_bytes.simps [simp del] vb_write_bytes.simps [simp del]

section \<open>The circle\<close>

lemma circle_index: "p < n \<Longrightarrow> d < n \<Longrightarrow> (p + d) mod n = (if p + d < n then p + d else p + d - n)" for n :: nat
  by (simp add: mod_if)

lemma read_from_circle_eq:
  assumes "p < length b" and "n \<le> length b"
  shows "read_from_circle b n p = Some (map (\<lambda>i. b ! ((p + i) mod length b)) [0..<n])"
proof -
  let ?f = "min (length b - p) n"
  let ?l = "take ?f (drop p b) @ take (min p (n - ?f)) (take p b)"
  have "?l ! i = b ! ((p + i) mod length b)" if i: "i < n" for i
  proof (cases "p + i < length b")
    case True
    then have "i < length (take ?f (drop p b))" using i assms by simp
    then show ?thesis using True assms by (simp only: nth_append if_True) simp
  next
    case False
    have m: "(p + i) mod length b = p + i - length b"
      using circle_index [of p "length b" i] False i assms by simp
    have "length (take ?f (drop p b)) = length b - p" using False i by simp
    moreover have "\<not> i < length b - p" "i - (length b - p) = p + i - length b" using False assms by linarith+
    ultimately show ?thesis using False i assms by (simp add: nth_append m)
  qed
  moreover have "length ?l = n" using assms by simp
  ultimately have "?l = map (\<lambda>i. b ! ((p + i) mod length b)) [0..<n]"
    by (intro nth_equalityI) (simp_all only: length_map length_upt diff_zero nth_map nth_upt add_0)
  moreover have "read_from_circle b n p = Some ?l"
    using assms by (simp add: read_from_circle_def Let_def)
  ultimately show ?thesis by (simp only:)
qed

lemma nth_overwrite: "length ys = n \<Longrightarrow> n \<le> e \<Longrightarrow> e < length xs \<Longrightarrow> (ys @ drop n xs) ! e = xs ! e"
  by (simp add: nth_append)

lemma write_to_circle_eq:
  assumes "p < length b" and "length bs \<le> length b"
  shows "\<exists>b'. write_to_circle bs p b = Some (length bs, b') \<and> length b' = length b \<and>
    (\<forall>d<length b. b' ! ((p + d) mod length b) =
       (if d < length bs then bs ! d else b ! ((p + d) mod length b)))"
proof -
  let ?f = "min (length b - p) (length bs)"
  let ?s = "min p (length bs - ?f)"
  let ?b = "(take ?s (drop ?f bs) @ drop ?s (take p b)) @ (take ?f bs @ drop ?f (drop p b))"
  have len: "length ?b = length b" "?f + ?s = length bs" using assms by auto
  have l2: "length (take ?s (drop ?f bs) @ drop ?s (take p b)) = p" using assms by simp
  have "?b ! ((p + d) mod length b) = (if d < length bs then bs ! d else b ! ((p + d) mod length b))"
    if d: "d < length b" for d
  proof (cases "p + d < length b")
    case True
    then have d': "d < length b - p" by linarith
    have "?b ! (p + d) = (take ?f bs @ drop ?f (drop p b)) ! d"
      unfolding nth_append [of "take ?s (drop ?f bs) @ drop ?s (take p b)"] l2 by simp
    moreover have "(take ?f bs @ drop ?f (drop p b)) ! d = (if d < length bs then bs ! d else b ! (p + d))"
      using d' d assms by (cases "d < length bs") (simp_all add: nth_append)
    moreover have "(p + d) mod length b = p + d" using True by simp
    ultimately show ?thesis by (simp only:)
  next
    case False
    then have e: "p + d - length b < p" using d by linarith
    then have "?b ! (p + d - length b) = (take ?s (drop ?f bs) @ drop ?s (take p b)) ! (p + d - length b)"
      unfolding nth_append [of "take ?s (drop ?f bs) @ drop ?s (take p b)"] l2 by simp
    moreover have "(take ?s (drop ?f bs) @ drop ?s (take p b)) ! (p + d - length b) =
      (if d < length bs then bs ! d else b ! (p + d - length b))"
    proof (cases "d < length bs")
      case True
      then have "?f = length b - p" "?s = length bs - (length b - p)" "p + d - length b < ?s"
        "length b - p + (p + d - length b) = d" using False d assms by linarith+
      then show ?thesis using True by (simp add: nth_append)
    next
      case False
      then have "?s \<le> p + d - length b" using \<open>\<not> p + d < length b\<close> d assms by linarith
      moreover have "length (take ?s (drop ?f bs)) = ?s" by simp
      ultimately have "(take ?s (drop ?f bs) @ drop ?s (take p b)) ! (p + d - length b) = take p b ! (p + d - length b)"
        using e assms(1) by (intro nth_overwrite) (assumption, assumption, simp)
      then show ?thesis using False e by (simp only: if_False nth_take)
    qed
    moreover have "(p + d) mod length b = p + d - length b" using circle_index [OF assms(1) d] False by simp
    ultimately show ?thesis by (simp only:)
  qed
  moreover have "write_to_circle bs p b = Some (?f + ?s, ?b)"
    using assms(1) by (simp add: write_to_circle_def Let_def min.absorb2)
  ultimately show ?thesis using len(1) unfolding len(2) by blast
qed

section \<open>The buffer keeps the contract\<close>

definition vb_inv :: "VolatileBuffer \<Rightarrow> bool" where
  "vb_inv vb \<longleftrightarrow> 1 \<le> vb_N vb \<and> vb_N vb < 2 ^ 64 \<and> vb_reserve vb = vb_head vb \<and>
     vb_tail vb \<le> vb_head vb \<and> unat (vb_head vb) - unat (vb_tail vb) < vb_N vb"

definition vb_content :: "VolatileBuffer \<Rightarrow> u8 list" where
  "vb_content vb = map (\<lambda>k. vb_buffer vb ! (k mod vb_N vb)) [unat (vb_tail vb)..<unat (vb_head vb)]"

definition vb_cap :: "VolatileBuffer \<Rightarrow> nat" where
  "vb_cap vb = vb_N vb - 1"

definition vb_lives :: "VolatileBuffer \<Rightarrow> nat" where
  "vb_lives vb = 2 ^ 64 - 1 - unat (vb_head vb)"

lemma length_vb_content: "length (vb_content vb) = unat (vb_head vb) - unat (vb_tail vb)"
  by (simp add: vb_content_def)

text \<open>One round of a read.\<close>

lemma vb_read_round:
  assumes inv: "vb_inv vb" and n: "n \<le> length (vb_content vb)"
  shows "read_from_circle (vb_buffer vb) n (unat (vb_tail vb) mod vb_N vb) = Some (take n (vb_content vb))"
    and "checked_add (vb_tail vb) (of_nat n) = Some (vb_tail vb + of_nat n)"
    and "vb_inv (vb\<lparr>vb_tail := vb_tail vb + of_nat n\<rparr>)"
    and "vb_content (vb\<lparr>vb_tail := vb_tail vb + of_nat n\<rparr>) = drop n (vb_content vb)"
proof -
  have th: "unat (vb_tail vb) \<le> unat (vb_head vb)" using inv by (simp add: vb_inv_def word_le_nat_alt)
  have n': "unat (vb_tail vb) + n \<le> unat (vb_head vb)" using n th by (simp add: length_vb_content)
  have N: "0 < vb_N vb" "n \<le> vb_N vb" using inv n by (auto simp: vb_inv_def length_vb_content)
  have u: "unat (vb_tail vb + of_nat n) = unat (vb_tail vb) + n"
    using n' unat_word_less [of "vb_head vb"] by (simp add: unat_word_ariths unat_of_nat)
  have "read_from_circle (vb_buffer vb) n (unat (vb_tail vb) mod vb_N vb) =
      Some (map (\<lambda>i. vb_buffer vb ! ((unat (vb_tail vb) + i) mod vb_N vb)) [0..<n])"
    using read_from_circle_eq [of "unat (vb_tail vb) mod vb_N vb" "vb_buffer vb" n] N
    by (simp add: vb_N_def mod_add_left_eq)
  also have "map (\<lambda>i. vb_buffer vb ! ((unat (vb_tail vb) + i) mod vb_N vb)) [0..<n] = take n (vb_content vb)"
    using n by (intro nth_equalityI) (simp_all add: vb_content_def length_vb_content)
  finally show "read_from_circle (vb_buffer vb) n (unat (vb_tail vb) mod vb_N vb) = Some (take n (vb_content vb))" .
  show "checked_add (vb_tail vb) (of_nat n) = Some (vb_tail vb + of_nat n)"
    using n' unat_word_less [of "vb_head vb"] by (simp add: checked_add_def unat_of_nat)
  show "vb_inv (vb\<lparr>vb_tail := vb_tail vb + of_nat n\<rparr>)"
    using inv n' u by (auto simp: vb_inv_def vb_N_def word_le_nat_alt)
  show "vb_content (vb\<lparr>vb_tail := vb_tail vb + of_nat n\<rparr>) = drop n (vb_content vb)"
    by (simp add: vb_content_def u vb_N_def drop_map drop_upt)
qed

lemma vb_read_bytes_spec:
  assumes "vb_inv vb"
  shows "vb_read_bytes n vb =
    Some (take n (vb_content vb), vb\<lparr>vb_tail := vb_tail vb + of_nat (min n (length (vb_content vb)))\<rparr>)"
  using assms
proof (induction n arbitrary: vb rule: less_induct)
  case (less n)
  have th: "vb_tail vb \<le> vb_head vb" using less.prems by (simp add: vb_inv_def)
  then have len: "length (vb_content vb) = unat (vb_head vb - vb_tail vb)"
    by (simp add: length_vb_content unat_sub)
  let ?n = "min n (length (vb_content vb))"
  show ?case
  proof (cases "n = 0 \<or> vb_tail vb = vb_head vb")
    case True
    then show ?thesis using len by (auto simp: vb_read_bytes.simps [of n vb])
  next
    case False
    then have pos: "0 < ?n" using len by (auto simp: unat_gt_0)
    note R = vb_read_round [OF less.prems, of ?n]
    let ?vb = "vb\<lparr>vb_tail := vb_tail vb + of_nat ?n\<rparr>"
    have nil: "n - ?n = 0 \<or> vb_content ?vb = []" using R(4) by auto
    have "vb_read_bytes (n - ?n) ?vb = Some ([], ?vb)"
      using less.IH [of "n - ?n" ?vb] pos R(3) nil by auto
    moreover have "take ?n (vb_content vb) = take n (vb_content vb)" by (simp add: min_def)
    moreover have "length (take n (vb_content vb)) = ?n" by simp
    moreover have "0 < vb_N vb" using less.prems by (simp add: vb_inv_def)
    ultimately show ?thesis
      unfolding vb_read_bytes.simps [of n vb] len [symmetric] Let_def
      using False th pos R(1,2) by simp
  qed
qed

text \<open>One round of a write.\<close>

lemma vb_write_round:
  assumes inv: "vb_inv vb" and n: "length bs \<le> vb_cap vb - length (vb_content vb)" "length bs \<le> vb_lives vb"
  shows "\<exists>b vb'. write_to_circle bs (unat (vb_head vb) mod vb_N vb) (vb_buffer vb) = Some (length bs, b) \<and>
    checked_add (vb_head vb) (of_nat (length bs)) = Some (vb_head vb + of_nat (length bs)) \<and>
    vb' = vb\<lparr>vb_reserve := vb_head vb + of_nat (length bs), vb_buffer := b,
      vb_head := vb_head vb + of_nat (length bs)\<rparr> \<and>
    vb_inv vb' \<and> vb_content vb' = vb_content vb @ bs \<and> vb_cap vb' = vb_cap vb \<and>
    vb_lives vb = vb_lives vb' + length bs"
proof -
  let ?t = "unat (vb_tail vb)" and ?h = "unat (vb_head vb)" and ?N = "vb_N vb"
  have th: "?t \<le> ?h" using inv by (simp add: vb_inv_def word_le_nat_alt)
  have N: "0 < ?N" "length bs < ?N" "?h + length bs - ?t < ?N" "?h - ?t < ?N"
    using inv n th by (auto simp: vb_inv_def vb_cap_def length_vb_content)
  have lim: "?h + length bs < 2 ^ 64" using n(2) unat_word_less [of "vb_head vb"] by (simp add: vb_lives_def)
  then have u: "unat (vb_head vb + of_nat (length bs)) = ?h + length bs"
    by (simp add: unat_word_ariths unat_of_nat)
  obtain b where b: "write_to_circle bs (?h mod ?N) (vb_buffer vb) = Some (length bs, b)" "length b = ?N"
    "\<forall>d<?N. b ! ((?h + d) mod ?N) = (if d < length bs then bs ! d else vb_buffer vb ! ((?h + d) mod ?N))"
    using write_to_circle_eq [of "?h mod ?N" "vb_buffer vb" bs] N by (auto simp: vb_N_def mod_add_left_eq)
  have old: "b ! (k mod ?N) = vb_buffer vb ! (k mod ?N)" if k: "?t \<le> k" "k < ?h" for k
  proof -
    let ?d = "?N - (?h - k)"
    have d: "?d < ?N" "\<not> ?d < length bs" using k N by linarith+
    have "?h + ?d = k + ?N" using k N by linarith
    then have "(?h + ?d) mod ?N = k mod ?N" by (simp only: mod_add_self2)
    then show ?thesis using b(3) [rule_format, OF d(1)] d(2) by (simp only: if_False)
  qed
  have new: "b ! ((?h + d) mod ?N) = bs ! d" if "d < length bs" for d using b(3) that N by simp
  let ?vb = "vb\<lparr>vb_reserve := vb_head vb + of_nat (length bs), vb_buffer := b,
     vb_head := vb_head vb + of_nat (length bs)\<rparr>"
  have "[?t..<?h + length bs] = [?t..<?h] @ map (\<lambda>d. ?h + d) [0..<length bs]"
    using th by (intro nth_equalityI) (auto simp: nth_append)
  then have "vb_content ?vb = map (\<lambda>k. b ! (k mod ?N)) [?t..<?h] @ map (\<lambda>d. b ! ((?h + d) mod ?N)) [0..<length bs]"
    using b(2) by (simp add: vb_content_def u vb_N_def)
  also have "map (\<lambda>k. b ! (k mod ?N)) [?t..<?h] = vb_content vb" using old by (simp add: vb_content_def)
  also have "map (\<lambda>d. b ! ((?h + d) mod ?N)) [0..<length bs] = bs" using new by (intro nth_equalityI) simp_all
  finally have "vb_content ?vb = vb_content vb @ bs" .
  moreover have "vb_inv ?vb" using inv N(3) th b(2) u by (simp add: vb_inv_def vb_N_def word_le_nat_alt)
  moreover have "vb_cap ?vb = vb_cap vb" using b(2) by (simp add: vb_cap_def vb_N_def)
  moreover have "vb_lives vb = vb_lives ?vb + length bs" using lim u by (simp add: vb_lives_def)
  moreover have "checked_add (vb_head vb) (of_nat (length bs)) = Some (vb_head vb + of_nat (length bs))"
    using lim by (simp add: checked_add_def unat_of_nat)
  ultimately show ?thesis using b(1) by blast
qed

lemma vb_space_spec:
  assumes "vb_inv vb"
  shows "vb_space vb (vb_reserve vb) (vb_tail vb) = Some (vb_cap vb - length (vb_content vb))"
  using assms by (auto simp: vb_space_def vb_inv_def checked_sub_def vb_cap_def length_vb_content unat_sub
    word_le_nat_alt)

lemma vb_write_bytes_spec:
  assumes "vb_inv vb" and "length bs \<le> vb_lives vb"
  shows "\<exists>vb'. vb_write_bytes bs vb = Some (min (length bs) (vb_cap vb - length (vb_content vb)), vb') \<and>
    vb_inv vb' \<and> vb_content vb' = vb_content vb @ take (vb_cap vb - length (vb_content vb)) bs \<and>
    vb_cap vb' = vb_cap vb \<and> vb_lives vb \<le> vb_lives vb' + length bs"
  using assms
proof (induction bs arbitrary: vb rule: length_induct)
  case (1 bs)
  let ?a = "vb_cap vb - length (vb_content vb)"
  have hd: "vb_reserve vb = vb_head vb" using "1.prems" by (simp add: vb_inv_def)
  note sp = vb_space_spec [OF "1.prems"(1), unfolded hd]
  show ?case
  proof (cases "bs = [] \<or> ?a = 0")
    case True
    then show ?thesis using "1.prems" sp by (auto simp: vb_write_bytes.simps [of bs vb] hd)
  next
    case False
    let ?n = "min (length bs) ?a" and ?bs = "take (min (length bs) ?a) bs"
    have len: "length ?bs = ?n" "?n \<le> ?a" "?n \<le> vb_lives vb" using "1.prems"(2) by simp_all
    obtain b vb' where R: "write_to_circle ?bs (unat (vb_head vb) mod vb_N vb) (vb_buffer vb) = Some (?n, b)"
      "checked_add (vb_head vb) (of_nat ?n) = Some (vb_head vb + of_nat ?n)"
      "vb' = vb\<lparr>vb_reserve := vb_head vb + of_nat ?n, vb_buffer := b, vb_head := vb_head vb + of_nat ?n\<rparr>"
      "vb_inv vb'" "vb_content vb' = vb_content vb @ ?bs" "vb_cap vb' = vb_cap vb" "vb_lives vb = vb_lives vb' + ?n"
      using vb_write_round [OF "1.prems"(1), of ?bs, unfolded len(1), OF len(2,3)] by blast
    have pos: "0 < ?n" using False by auto
    have rest: "length (drop ?n bs) < length bs" "length (drop ?n bs) \<le> vb_lives vb'"
      "min (length (drop ?n bs)) (vb_cap vb' - length (vb_content vb')) = 0"
      using R(5-7) pos "1.prems"(2) by (cases "length bs \<le> ?a"; simp)+
    then have rest': "take (vb_cap vb' - length (vb_content vb')) (drop ?n bs) = []"
      by (metis length_0_conv length_take min.commute)
    obtain vb'' where W: "vb_write_bytes (drop ?n bs) vb' = Some (0, vb'')" "vb_inv vb''"
      "vb_content vb'' = vb_content vb'" "vb_cap vb'' = vb_cap vb'" "vb_lives vb' \<le> vb_lives vb'' + length (drop ?n bs)"
      using "1.IH" [rule_format, OF rest(1) R(4) rest(2), unfolded rest(3) rest' append_Nil2] by blast
    have "vb_write_bytes bs vb = Some (?n, vb'')"
      unfolding vb_write_bytes.simps [of bs vb] hd Let_def
      using False sp R(1,2) W(1) pos hd by (simp add: R(3))
    moreover have "?bs = take ?a bs" by (simp add: min_def)
    moreover have "vb_lives vb \<le> vb_lives vb'' + length bs" using W(5) R(7) by (simp only: length_drop)
    ultimately show ?thesis using W(2-4) R(5,6) by simp
  qed
qed

interpretation vb: byte_buffer vb_inv vb_content vb_cap vb_lives vb_write_bytes vb_read_bytes
proof unfold_locales
  fix s n
  assume inv: "vb_inv s"
  let ?n = "min n (length (vb_content s))"
  show "\<exists>s'. vb_read_bytes n s = Some (take n (vb_content s), s') \<and> vb_inv s' \<and>
      vb_content s' = drop n (vb_content s) \<and> vb_cap s' = vb_cap s \<and> vb_lives s' = vb_lives s"
    using vb_read_bytes_spec [OF inv, of n] vb_read_round [OF inv, of ?n]
    by (simp add: vb_cap_def vb_N_def vb_lives_def min_def)
qed (rule vb_write_bytes_spec)

lemma vb_new:
  assumes "1 \<le> N" and "N < 2 ^ 64"
  shows "vb_inv (VolatileBuffer_new N)" and "vb_content (VolatileBuffer_new N) = []"
    and "vb_cap (VolatileBuffer_new N) = N - 1" and "vb_lives (VolatileBuffer_new N) = 2 ^ 64 - 1"
  using assms by (simp_all add: VolatileBuffer_new_def vb_inv_def vb_N_def vb_content_def vb_cap_def vb_lives_def)

section \<open>Properties\<close>

text \<open>
  C16: in a buffer that satisfies its invariant, a write stores the longest prefix that leaves one
  of the \<open>N\<close> bytes free and returns its length, and a later read of any length returns exactly the
  oldest bytes, those that were pending before the write first.
\<close>

theorem volatile_buffer_fifo:
  assumes "vb_inv vb" and "length bs \<le> vb_lives vb"
  shows "\<exists>vb1 vb2. vb_write_bytes bs vb = Some (min (length bs) (vb_N vb - 1 - length (vb_content vb)), vb1) \<and>
    vb_read_bytes n vb1 = Some (take n (vb_content vb @ take (vb_N vb - 1 - length (vb_content vb)) bs), vb2) \<and>
    vb_inv vb2 \<and> vb_content vb2 = drop n (vb_content vb @ take (vb_N vb - 1 - length (vb_content vb)) bs)"
proof -
  obtain vb1 where "vb_write_bytes bs vb = Some (min (length bs) (vb_cap vb - length (vb_content vb)), vb1)"
    "vb_inv vb1" "vb_content vb1 = vb_content vb @ take (vb_cap vb - length (vb_content vb)) bs"
    using vb.write_law [OF assms] by blast
  with vb.read_law [of vb1 n] show ?thesis unfolding vb_cap_def [symmetric] by fastforce
qed

theorem volatile_buffer_fifo_witness:
  "\<exists>vb1 vb2. vb_write_bytes [1, 2, 3, 4] (VolatileBuffer_new 4) = Some (3, vb1) \<and>
    vb_read_bytes 2 vb1 = Some ([1, 2], vb2) \<and> vb_inv vb2 \<and> vb_content vb2 = [3]"
  using volatile_buffer_fifo [of "VolatileBuffer_new 4" "[1, 2, 3, 4]" 2] vb_new [of 4]
  by (simp add: VolatileBuffer_new_def vb_N_def)

end
