(* ===== verification/Pipe.thy ===== *)
theory Pipe
  imports Volatile_Buffer
begin

text \<open>
  Pipes (\<^verbatim>\<open>src/lib/twizzler-io/src/pipe.rs\<close>).  The shared object is the record \<open>PipeBase\<close>; a
  handle is the record \<open>Pipe\<close> of its two flags.  The object that the handle maps is the base
  that every operation takes and returns.  Waking is the environment's part: a sleeping thread
  continues as soon as one of the words it sleeps on has changed.
\<close>

section \<open>The object and its handles\<close>

definition BUF_SZ :: nat where
  "BUF_SZ = 4096"

record PipeBase =
  pb_readers :: u64
  pb_writers :: u64
  pb_buffer :: VolatileBuffer

definition PipeBase_new :: PipeBase where
  "PipeBase_new = \<lparr>pb_readers = 1, pb_writers = 1, pb_buffer = VolatileBuffer_new BUF_SZ\<rparr>"

record Pipe =
  p_reader :: bool
  p_writer :: bool

datatype io_error = WouldBlock | BrokenPipe

definition increment_reader :: "PipeBase \<Rightarrow> PipeBase" where
  "increment_reader b = b\<lparr>pb_readers := pb_readers b + 1\<rparr>"

definition increment_writer :: "PipeBase \<Rightarrow> PipeBase" where
  "increment_writer b = b\<lparr>pb_writers := pb_writers b + 1\<rparr>"

definition create_object :: "Pipe \<times> PipeBase" where
  "create_object = (\<lparr>p_reader = True, p_writer = True\<rparr>, PipeBase_new)"

definition open_object :: "PipeBase \<Rightarrow> Pipe \<times> PipeBase" where
  "open_object b = (\<lparr>p_reader = True, p_writer = True\<rparr>, increment_writer (increment_reader b))"

definition enable_reader :: "Pipe \<Rightarrow> PipeBase \<Rightarrow> Pipe \<times> PipeBase" where
  "enable_reader p b = (p\<lparr>p_reader := True\<rparr>, if \<not> p_reader p then increment_reader b else b)"

definition enable_writer :: "Pipe \<Rightarrow> PipeBase \<Rightarrow> Pipe \<times> PipeBase" where
  "enable_writer p b = (p\<lparr>p_writer := True\<rparr>, if \<not> p_writer p then increment_writer b else b)"

definition close_reader :: "Pipe \<Rightarrow> PipeBase \<Rightarrow> Pipe \<times> PipeBase" where
  "close_reader p b =
     (if \<not> p_reader p then (p\<lparr>p_reader := False\<rparr>, b)
      else if pb_readers b = 0 then (p\<lparr>p_reader := False\<rparr>, b)
      else (p\<lparr>p_reader := False\<rparr>, b\<lparr>pb_readers := pb_readers b - 1\<rparr>))"

definition close_writer :: "Pipe \<Rightarrow> PipeBase \<Rightarrow> Pipe \<times> PipeBase" where
  "close_writer p b =
     (if \<not> p_writer p then (p\<lparr>p_writer := False\<rparr>, b)
      else if pb_writers b = 0 then (p\<lparr>p_writer := False\<rparr>, b)
      else (p\<lparr>p_writer := False\<rparr>, b\<lparr>pb_writers := pb_writers b - 1\<rparr>))"

definition clone_pipe :: "Pipe \<Rightarrow> PipeBase \<Rightarrow> Pipe \<times> PipeBase" where
  "clone_pipe p b =
     (let b = (if p_reader p then increment_reader b else b);
          b = (if p_writer p then increment_writer b else b)
      in (\<lparr>p_reader = p_reader p, p_writer = p_writer p\<rparr>, b))"

definition drop_pipe :: "Pipe \<Rightarrow> PipeBase \<Rightarrow> PipeBase" where
  "drop_pipe p b =
     (let (p, b) = (if p_reader p then close_reader p b else (p, b));
          (p, b) = (if p_writer p then close_writer p b else (p, b))
      in b)"

definition has_pending_data :: "PipeBase \<Rightarrow> bool" where
  "has_pending_data b \<longleftrightarrow> \<not> vb_is_empty (pb_buffer b)"

definition has_avail_space :: "PipeBase \<Rightarrow> bool option" where
  "has_avail_space b = do { n \<leftarrow> vb_avail_space (pb_buffer b); Some (n > 0) }"

section \<open>Reading and writing\<close>

text \<open>
  The words that a sleeping thread watches, with the values it expects: the call returns once
  one of them differs.
\<close>

datatype sync_word = Sync_head | Sync_tail | Sync_readers | Sync_writers

type_synonym ThreadSyncSleep = "sync_word \<times> u64"

primrec sync_load :: "PipeBase \<Rightarrow> sync_word \<Rightarrow> u64" where
  "sync_load b Sync_head = vb_head (pb_buffer b)"
| "sync_load b Sync_tail = vb_tail (pb_buffer b)"
| "sync_load b Sync_readers = pb_readers b"
| "sync_load b Sync_writers = pb_writers b"

definition sync_for_pending_data :: "PipeBase \<Rightarrow> ThreadSyncSleep" where
  "sync_for_pending_data b = (Sync_head, vb_head (pb_buffer b))"

definition sync_for_avail_space :: "PipeBase \<Rightarrow> ThreadSyncSleep" where
  "sync_for_avail_space b = (Sync_tail, vb_tail (pb_buffer b))"

definition do_sleep :: "PipeBase \<Rightarrow> ThreadSyncSleep \<Rightarrow> ThreadSyncSleep list" where
  "do_sleep b sync = [sync, (Sync_readers, pb_readers b), (Sync_writers, pb_writers b)]"

definition stays_asleep :: "PipeBase \<Rightarrow> ThreadSyncSleep list \<Rightarrow> bool" where
  "stays_asleep b syncs \<longleftrightarrow> list_all (\<lambda>(w, v). sync_load b w = v) syncs"

text \<open>An undisturbed call ends with a result, or asleep on some words.\<close>

datatype 'a call = Returned "io_error + 'a" | Asleep "ThreadSyncSleep list"

definition pipe_read :: "nat \<Rightarrow> bool \<Rightarrow> PipeBase \<Rightarrow> (u8 list call \<times> PipeBase) option" where
  "pipe_read len nb b = do {
     let writers = pb_writers b;
     let sync = sync_for_pending_data b;
     (bytes, vb) \<leftarrow> vb_read_bytes len (pb_buffer b);
     let b = b\<lparr>pb_buffer := vb\<rparr>;
     Some (if length bytes = 0 \<and> len > 0 \<and> writers > 0
           then if nb then (Returned (Inl WouldBlock), b) else (Asleep (do_sleep b sync), b)
           else (Returned (Inr bytes), b)) }"

definition pipe_write :: "u8 list \<Rightarrow> bool \<Rightarrow> PipeBase \<Rightarrow> (nat call \<times> PipeBase) option" where
  "pipe_write buf nb b = do {
     let readers = pb_readers b;
     let sync = sync_for_avail_space b;
     if readers = 0 then Some (Returned (Inl BrokenPipe), b)
     else do {
       (count, vb) \<leftarrow> vb_write_bytes buf (pb_buffer b);
       let b = b\<lparr>pb_buffer := vb\<rparr>;
       Some (if count = 0 \<and> length buf > 0 \<and> readers > 0
             then if nb then (Returned (Inl WouldBlock), b) else (Asleep (do_sleep b sync), b)
             else (Returned (Inr count), b)) } }"

text \<open>The reading thread in steps, each of which touches the shared object once.\<close>

datatype read_pc =
  Rd_writers
| Rd_sync u64
| Rd_bytes u64 ThreadSyncSleep
| Rd_sleep_readers ThreadSyncSleep
| Rd_sleep_writers ThreadSyncSleep u64
| Rd_asleep "ThreadSyncSleep list"
| Rd_returned "io_error + u8 list"

fun pipe_read_step :: "nat \<Rightarrow> bool \<Rightarrow> read_pc \<Rightarrow> PipeBase \<Rightarrow> (read_pc \<times> PipeBase) option" where
  "pipe_read_step len nb Rd_writers b = Some (Rd_sync (pb_writers b), b)"
| "pipe_read_step len nb (Rd_sync writers) b = Some (Rd_bytes writers (sync_for_pending_data b), b)"
| "pipe_read_step len nb (Rd_bytes writers sync) b = do {
     (bytes, vb) \<leftarrow> vb_read_bytes len (pb_buffer b);
     Some (if length bytes = 0 \<and> len > 0 \<and> writers > 0
           then if nb then Rd_returned (Inl WouldBlock) else Rd_sleep_readers sync
           else Rd_returned (Inr bytes), b\<lparr>pb_buffer := vb\<rparr>) }"
| "pipe_read_step len nb (Rd_sleep_readers sync) b = Some (Rd_sleep_writers sync (pb_readers b), b)"
| "pipe_read_step len nb (Rd_sleep_writers sync readers) b =
     Some (Rd_asleep [sync, (Sync_readers, readers), (Sync_writers, pb_writers b)], b)"
| "pipe_read_step len nb (Rd_asleep syncs) b =
     (if stays_asleep b syncs then Some (Rd_asleep syncs, b) else Some (Rd_writers, b))"
| "pipe_read_step len nb (Rd_returned r) b = Some (Rd_returned r, b)"

definition run_reader :: "nat \<Rightarrow> read_pc \<Rightarrow> PipeBase \<Rightarrow> (read_pc \<times> PipeBase) option" where
  "run_reader n pc b = ((\<lambda>s. do { (pc, b) \<leftarrow> s; pipe_read_step 8 False pc b }) ^^ n) (Some (pc, b))"

section \<open>All the handles of a pipe\<close>

datatype pipe_op =
  Op_open
| Op_clone nat
| Op_drop nat
| Op_enable_reader nat
| Op_enable_writer nat
| Op_close_reader nat
| Op_close_writer nat
| Op_read nat bool
| Op_write "u8 list" bool

type_synonym pipes = "Pipe list \<times> PipeBase"

definition on_handle :: "(Pipe \<Rightarrow> PipeBase \<Rightarrow> Pipe \<times> PipeBase) \<Rightarrow> nat \<Rightarrow> pipes \<Rightarrow> pipes" where
  "on_handle f i = (\<lambda>(hs, b). if i < length hs then let (p, b) = f (hs ! i) b in (hs[i := p], b) else (hs, b))"

fun pipe_exec1 :: "pipe_op \<Rightarrow> pipes \<Rightarrow> pipes option" where
  "pipe_exec1 Op_open (hs, b) = (let (p, b) = open_object b in Some (p # hs, b))"
| "pipe_exec1 (Op_clone i) (hs, b) =
     Some (if i < length hs then let (p, b) = clone_pipe (hs ! i) b in (p # hs, b) else (hs, b))"
| "pipe_exec1 (Op_drop i) (hs, b) =
     Some (if i < length hs then (take i hs @ drop (Suc i) hs, drop_pipe (hs ! i) b) else (hs, b))"
| "pipe_exec1 (Op_enable_reader i) s = Some (on_handle enable_reader i s)"
| "pipe_exec1 (Op_enable_writer i) s = Some (on_handle enable_writer i s)"
| "pipe_exec1 (Op_close_reader i) s = Some (on_handle close_reader i s)"
| "pipe_exec1 (Op_close_writer i) s = Some (on_handle close_writer i s)"
| "pipe_exec1 (Op_read len nb) (hs, b) = do { (r, b) \<leftarrow> pipe_read len nb b; Some (hs, b) }"
| "pipe_exec1 (Op_write buf nb) (hs, b) = do { (r, b) \<leftarrow> pipe_write buf nb b; Some (hs, b) }"

definition pipe_created :: pipes where
  "pipe_created = (let (p, b) = create_object in ([p], b))"

definition nr_readers :: "Pipe list \<Rightarrow> nat" where
  "nr_readers hs = length (filter p_reader hs)"

definition nr_writers :: "Pipe list \<Rightarrow> nat" where
  "nr_writers hs = length (filter p_writer hs)"

section \<open>The counters count the handles\<close>

definition counts_ok :: "pipes \<Rightarrow> bool" where
  "counts_ok = (\<lambda>(hs, b). pb_readers b = of_nat (nr_readers hs) \<and> pb_writers b = of_nat (nr_writers hs))"

lemma of_nat_pos_word: "0 < n \<Longrightarrow> n < 2 ^ 64 \<Longrightarrow> (of_nat n :: u64) \<noteq> 0" for n :: nat
  by (simp add: word_unat_eq_iff unat_of_nat)

lemma nr_le: "nr_readers hs \<le> length hs" "nr_writers hs \<le> length hs"
  by (simp_all add: nr_readers_def nr_writers_def)

text \<open>A handle inside the list: what the counts are around it.\<close>

lemma nr_split:
  "nr_readers (xs @ p # ys) = nr_readers (xs @ ys) + (if p_reader p then 1 else 0)"
  "nr_writers (xs @ p # ys) = nr_writers (xs @ ys) + (if p_writer p then 1 else 0)"
  by (simp_all add: nr_readers_def nr_writers_def)

lemma nr_Cons:
  "nr_readers (p # ys) = nr_readers ys + (if p_reader p then 1 else 0)"
  "nr_writers (p # ys) = nr_writers ys + (if p_writer p then 1 else 0)"
  using nr_split [of "[]"] by auto

lemmas handle_ops_defs = open_object_def increment_reader_def increment_writer_def enable_reader_def
  enable_writer_def close_reader_def close_writer_def clone_pipe_def drop_pipe_def

lemma handle_ops_counts:
  assumes "counts_ok (xs @ p # ys, b)" and "length (xs @ p # ys) < 2 ^ 64"
  shows "f \<in> {enable_reader, enable_writer, close_reader, close_writer} \<Longrightarrow>
      counts_ok (xs @ fst (f p b) # ys, snd (f p b))"
    and "counts_ok (fst (clone_pipe p b) # xs @ p # ys, snd (clone_pipe p b))"
    and "counts_ok (xs @ ys, drop_pipe p b)"
proof -
  have pos: "p_reader p \<Longrightarrow> pb_readers b \<noteq> 0" "p_writer p \<Longrightarrow> pb_writers b \<noteq> 0"
    using assms nr_le [of "xs @ p # ys"] of_nat_pos_word [of "nr_readers (xs @ p # ys)"]
      of_nat_pos_word [of "nr_writers (xs @ p # ys)"] by (auto simp: counts_ok_def nr_split simp del: of_nat_Suc)
  show "f \<in> {enable_reader, enable_writer, close_reader, close_writer} \<Longrightarrow>
      counts_ok (xs @ fst (f p b) # ys, snd (f p b))"
    using assms(1) pos by (cases "p_reader p"; cases "p_writer p"; auto simp: counts_ok_def nr_split handle_ops_defs)
  show "counts_ok (fst (clone_pipe p b) # xs @ p # ys, snd (clone_pipe p b))"
    using assms(1) by (cases "p_reader p"; cases "p_writer p"; simp add: counts_ok_def nr_split nr_Cons handle_ops_defs)
  show "counts_ok (xs @ ys, drop_pipe p b)"
    using assms(1) pos by (cases "p_reader p"; cases "p_writer p"; simp add: counts_ok_def nr_split handle_ops_defs)
qed

lemma on_handle_counts:
  assumes "counts_ok (hs, b)" and "length hs < 2 ^ 64"
    and "f \<in> {enable_reader, enable_writer, close_reader, close_writer}"
  shows "counts_ok (on_handle f i (hs, b)) \<and> length (fst (on_handle f i (hs, b))) = length hs"
proof (cases "i < length hs")
  case True
  then show ?thesis
    using handle_ops_counts(1) [of "take i hs" "hs ! i" "drop (Suc i) hs" b f] assms
    by (cases "f (hs ! i) b") (simp add: on_handle_def id_take_nth_drop [symmetric] upd_conv_take_nth_drop)
qed (use assms in \<open>simp add: on_handle_def\<close>)

lemma pipe_exec1_counts:
  assumes "counts_ok (hs, b)" and "length hs < 2 ^ 64 - 1" and "pipe_exec1 op (hs, b) = Some (hs', b')"
  shows "counts_ok (hs', b') \<and> length hs' \<le> length hs + 1"
proof (cases op)
  case Op_open
  then show ?thesis using assms by (auto simp: handle_ops_defs counts_ok_def nr_Cons)
next
  case (Op_clone i)
  then show ?thesis
    using assms handle_ops_counts(2) [of "take i hs" "hs ! i" "drop (Suc i) hs" b]
    by (auto simp: id_take_nth_drop [symmetric] split: if_splits prod.splits)
next
  case (Op_drop i)
  then show ?thesis
    using assms handle_ops_counts(3) [of "take i hs" "hs ! i" "drop (Suc i) hs" b]
    by (auto simp: id_take_nth_drop [symmetric] split: if_splits)
next
  case (Op_read len nb)
  then show ?thesis
    using assms by (auto simp: pipe_read_def counts_ok_def exec_simps Let_def split: prod.splits if_splits)
next
  case (Op_write buf nb)
  then show ?thesis
    using assms by (auto simp: pipe_write_def counts_ok_def exec_simps Let_def split: prod.splits if_splits)
qed (use assms on_handle_counts [of hs b] in \<open>auto simp: prod_eq_iff\<close>)

section \<open>The buffer behind the handles\<close>

definition written :: "pipe_op list \<Rightarrow> nat" where
  "written ops = sum_list (map (\<lambda>op. case op of Op_write buf nb \<Rightarrow> length buf | _ \<Rightarrow> 0) ops)"

lemma handle_ops_buffer [simp]:
  "pb_buffer (snd (open_object b)) = pb_buffer b" "pb_buffer (snd (clone_pipe p b)) = pb_buffer b"
  "pb_buffer (drop_pipe p b) = pb_buffer b" "pb_buffer (snd (enable_reader p b)) = pb_buffer b"
  "pb_buffer (snd (enable_writer p b)) = pb_buffer b" "pb_buffer (snd (close_reader p b)) = pb_buffer b"
  "pb_buffer (snd (close_writer p b)) = pb_buffer b"
  by (simp_all add: handle_ops_defs Let_def)

lemma on_handle_buffer:
  "(\<And>p. pb_buffer (snd (f p b)) = pb_buffer b) \<Longrightarrow> pb_buffer (snd (on_handle f i (hs, b))) = pb_buffer b"
  by (auto simp: on_handle_def split: prod.splits) (metis snd_conv)

lemma pipe_read_total:
  assumes "vb_inv (pb_buffer b)"
  shows "\<exists>vb. pipe_read len nb b = Some
      (if take len (vb_content (pb_buffer b)) = [] \<and> len > 0 \<and> pb_writers b > 0
       then if nb then Returned (Inl WouldBlock)
            else Asleep [(Sync_head, vb_head (pb_buffer b)), (Sync_readers, pb_readers b), (Sync_writers, pb_writers b)]
       else Returned (Inr (take len (vb_content (pb_buffer b)))), b\<lparr>pb_buffer := vb\<rparr>) \<and>
    vb_inv vb \<and> vb_lives vb = vb_lives (pb_buffer b) \<and> vb_cap vb = vb_cap (pb_buffer b) \<and>
    vb_content vb = drop len (vb_content (pb_buffer b))"
proof -
  obtain vb where "vb_read_bytes len (pb_buffer b) = Some (take len (vb_content (pb_buffer b)), vb)" "vb_inv vb"
    "vb_lives vb = vb_lives (pb_buffer b)" "vb_cap vb = vb_cap (pb_buffer b)"
    "vb_content vb = drop len (vb_content (pb_buffer b))"
    using vb.read_law [OF assms] by blast
  then show ?thesis by (auto simp: pipe_read_def do_sleep_def sync_for_pending_data_def)
qed

lemma min_eq_0_nat: "min a b = 0 \<longleftrightarrow> a = 0 \<or> b = 0" for a b :: nat
  by (auto simp: min_def)

lemma pipe_write_total:
  assumes "vb_inv (pb_buffer b)" and "length bs \<le> vb_lives (pb_buffer b)" and "pb_readers b \<noteq> 0"
  shows "\<exists>vb. pipe_write bs nb b = Some
      (let n = min (length bs) (vb_cap (pb_buffer b) - length (vb_content (pb_buffer b)))
       in if n = 0 \<and> bs \<noteq> []
       then if nb then Returned (Inl WouldBlock)
            else Asleep [(Sync_tail, vb_tail (pb_buffer b)), (Sync_readers, pb_readers b), (Sync_writers, pb_writers b)]
       else Returned (Inr n), b\<lparr>pb_buffer := vb\<rparr>) \<and>
    vb_inv vb \<and> vb_lives (pb_buffer b) \<le> vb_lives vb + length bs \<and>
    vb_content vb = vb_content (pb_buffer b) @ take (vb_cap (pb_buffer b) - length (vb_content (pb_buffer b))) bs"
proof -
  obtain vb where "vb_write_bytes bs (pb_buffer b) =
      Some (min (length bs) (vb_cap (pb_buffer b) - length (vb_content (pb_buffer b))), vb)" "vb_inv vb"
    "vb_lives (pb_buffer b) \<le> vb_lives vb + length bs"
    "vb_content vb = vb_content (pb_buffer b) @ take (vb_cap (pb_buffer b) - length (vb_content (pb_buffer b))) bs"
    using vb.write_law [OF assms(1,2)] by blast
  then show ?thesis
    using assms(3) by (intro exI [of _ vb]) (simp add: min_eq_0_nat pipe_write_def do_sleep_def sync_for_avail_space_def word_gt_0 Let_def)
qed

lemma pipe_write_broken: "pb_readers b = 0 \<Longrightarrow> pipe_write bs nb b = Some (Returned (Inl BrokenPipe), b)"
  by (simp add: pipe_write_def)

lemma pipe_exec1_total:
  assumes "vb_inv (pb_buffer b)" and "written [op] \<le> vb_lives (pb_buffer b)"
  shows "\<exists>hs' b'. pipe_exec1 op (hs, b) = Some (hs', b') \<and> vb_inv (pb_buffer b') \<and>
    vb_lives (pb_buffer b) \<le> vb_lives (pb_buffer b') + written [op]"
proof (cases op)
  case (Op_read len nb)
  then show ?thesis using pipe_read_total [OF assms(1), of len nb] by auto
next
  case (Op_write buf nb)
  then show ?thesis
    using pipe_write_total [OF assms(1), of buf nb] pipe_write_broken [of b buf nb] assms
    by (cases "pb_readers b = 0") (auto simp: written_def)
next
  case (Op_clone i)
  then show ?thesis using assms handle_ops_buffer(2) [of "hs ! i" b]
    by (auto simp: written_def split: prod.splits if_splits simp del: handle_ops_buffer)
next
  case Op_open
  then show ?thesis using assms handle_ops_buffer(1) [of b]
    by (auto simp: written_def split: prod.splits simp del: handle_ops_buffer)
qed (use assms in \<open>auto simp: written_def prod_eq_iff on_handle_buffer\<close>)

lemma pipe_exec_inv:
  assumes "counts_ok (hs, b)" and "vb_inv (pb_buffer b)" and "length hs + length ops < 2 ^ 64"
    and "written ops \<le> vb_lives (pb_buffer b)"
  shows "\<exists>hs' b'. foldM pipe_exec1 ops (hs, b) = Some (hs', b') \<and> counts_ok (hs', b') \<and>
    vb_inv (pb_buffer b') \<and> length hs' < 2 ^ 64"
  using assms
proof (induction ops arbitrary: hs b)
  case (Cons op ops)
  have w: "written (op # ops) = written [op] + written ops" by (simp add: written_def)
  obtain hs1 b1 where 1: "pipe_exec1 op (hs, b) = Some (hs1, b1)" "vb_inv (pb_buffer b1)"
    "vb_lives (pb_buffer b) \<le> vb_lives (pb_buffer b1) + written [op]"
    using pipe_exec1_total [of b op hs] Cons.prems w by auto
  moreover have "counts_ok (hs1, b1)" "length hs1 \<le> length hs + 1"
    using pipe_exec1_counts [OF Cons.prems(1) _ 1(1)] Cons.prems(3) by simp_all
  ultimately show ?case using Cons.IH [of hs1 b1] Cons.prems w by simp
qed simp

lemma pipe_created_inv:
  "\<exists>h b. pipe_created = ([h], b) \<and> counts_ok ([h], b) \<and> vb_inv (pb_buffer b) \<and> vb_lives (pb_buffer b) = 2 ^ 64 - 1"
  using vb_new [of BUF_SZ]
  by (simp add: pipe_created_def create_object_def PipeBase_new_def counts_ok_def nr_readers_def nr_writers_def BUF_SZ_def)

lemma pipe_reachable:
  assumes "length ops < 2 ^ 64 - 1" and "written ops < 2 ^ 64"
  obtains hs b where "foldM pipe_exec1 ops pipe_created = Some (hs, b)" and "vb_inv (pb_buffer b)"
    and "unat (pb_readers b) = nr_readers hs" and "unat (pb_writers b) = nr_writers hs"
proof -
  obtain h b0 where c: "pipe_created = ([h], b0)" "counts_ok ([h], b0)" "vb_inv (pb_buffer b0)"
    "vb_lives (pb_buffer b0) = 2 ^ 64 - 1" using pipe_created_inv by blast
  then obtain hs b where "foldM pipe_exec1 ops pipe_created = Some (hs, b)" "counts_ok (hs, b)"
    "vb_inv (pb_buffer b)" "length hs < 2 ^ 64"
    using pipe_exec_inv [of "[h]" b0 ops] assms by auto
  then show ?thesis using nr_le [of hs] by (intro that [of hs b]) (auto simp: counts_ok_def unat_of_nat)
qed

section \<open>Properties\<close>

text \<open>
  C14: after any sequence of opens, clones, drops, enables, closes, reads and writes on a created
  pipe, no operation has panicked and the two counters of the object are exactly the numbers of
  live handles that are readers and writers.
\<close>

theorem pipe_counts_live_handles:
  assumes "length ops < 2 ^ 64 - 1" and "written ops < 2 ^ 64"
  shows "\<exists>hs b. foldM pipe_exec1 ops pipe_created = Some (hs, b) \<and>
    unat (pb_readers b) = nr_readers hs \<and> unat (pb_writers b) = nr_writers hs"
  using pipe_reachable [OF assms] by metis

theorem pipe_counts_live_handles_witness:
  "\<exists>hs b. foldM pipe_exec1 [Op_open, Op_close_writer 0, Op_clone 0, Op_drop 2, Op_write [1, 2] True] pipe_created
     = Some (hs, b) \<and> unat (pb_readers b) = nr_readers hs \<and> unat (pb_writers b) = nr_writers hs"
  by (rule pipe_counts_live_handles) (simp_all add: written_def)

text \<open>
  C15: in every such state a non-blocking read of some bytes returns the oldest pending bytes; with
  none pending it reports the end of the stream exactly when no live handle is a writer, and
  otherwise that it would block.  A write is refused as a broken pipe exactly when no live handle
  is a reader.
\<close>

theorem pipe_end_of_stream:
  assumes "length ops < 2 ^ 64 - 1" and "written ops < 2 ^ 64" and "0 < len"
    and "foldM pipe_exec1 ops pipe_created = Some (hs, b)"
  shows "(\<exists>b'. pipe_read len True b = Some (Returned
      (if vb_content (pb_buffer b) = [] \<and> nr_writers hs \<noteq> 0 then Inl WouldBlock
       else Inr (take len (vb_content (pb_buffer b)))), b')) \<and>
    ((\<exists>b'. pipe_write buf nb b = Some (Returned (Inl BrokenPipe), b')) \<longleftrightarrow> nr_readers hs = 0)"
proof
  have inv: "vb_inv (pb_buffer b)" and r: "unat (pb_readers b) = nr_readers hs"
    and w: "unat (pb_writers b) = nr_writers hs"
    using pipe_reachable [OF assms(1,2)] assms(4) by (metis option.inject prod.inject)+
  have "pb_writers b > 0 \<longleftrightarrow> nr_writers hs \<noteq> 0" using w by (simp add: word_gt_0 unat_eq_0 [symmetric])
  then show "\<exists>b'. pipe_read len True b = Some (Returned
      (if vb_content (pb_buffer b) = [] \<and> nr_writers hs \<noteq> 0 then Inl WouldBlock
       else Inr (take len (vb_content (pb_buffer b)))), b')"
    using pipe_read_total [OF inv, of len True] assms(3) by auto
  have "pb_readers b = 0 \<longleftrightarrow> nr_readers hs = 0" using r by (simp add: unat_eq_0 [symmetric])
  then show "(\<exists>b'. pipe_write buf nb b = Some (Returned (Inl BrokenPipe), b')) \<longleftrightarrow> nr_readers hs = 0"
    by (auto simp: pipe_write_def bind_Some_iff Let_def split: if_splits prod.splits)
qed

text \<open>Two handles: a writer in front, a reader behind.\<close>

definition pipe_pair_ops :: "pipe_op list" where
  "pipe_pair_ops = [Op_clone 0, Op_close_reader 0, Op_close_writer 1]"

lemma pipe_pair:
  "foldM pipe_exec1 (pipe_pair_ops @ [Op_drop 0]) pipe_created =
     Some ([\<lparr>p_reader = True, p_writer = False\<rparr>],
       \<lparr>pb_readers = 1, pb_writers = 0, pb_buffer = VolatileBuffer_new BUF_SZ\<rparr>)"
  by (simp add: pipe_pair_ops_def pipe_created_def create_object_def PipeBase_new_def on_handle_def handle_ops_defs)

theorem pipe_end_of_stream_witness:
  "\<exists>b'. pipe_read 8 True \<lparr>pb_readers = 1, pb_writers = 0, pb_buffer = VolatileBuffer_new BUF_SZ\<rparr> =
     Some (Returned (Inr []), b')"
  using pipe_end_of_stream [OF _ _ _ pipe_pair, of 8] vb_new(2) [of BUF_SZ]
  by (simp add: pipe_pair_ops_def written_def nr_writers_def BUF_SZ_def)


end
