(* ===== verification/Priority.thy ===== *)
theory Priority
  imports Prelude
begin

text \<open>
  Thread priorities and the scheduling fields of a thread
  (\<^verbatim>\<open>src/kernel/src/thread/priority.rs\<close>, \<^verbatim>\<open>src/kernel/src/thread/time.rs\<close> and the
  flags of \<^verbatim>\<open>src/kernel/src/thread/flags.rs\<close>).  The atomics of a thread are the fields of a
  record.  \<open>donate_priority\<close> and \<open>remove_donated_priority\<close> are given whole and as the
  sequences of their stores, for their interleaving.
\<close>

section \<open>Priorities\<close>

datatype PriorityClass = Idle | Background | User | Realtime

primrec class_code :: "PriorityClass \<Rightarrow> nat" where
  "class_code Idle = 0"
| "class_code Background = 1"
| "class_code User = 2"
| "class_code Realtime = 3"

instantiation PriorityClass :: linorder
begin

definition less_eq_PriorityClass :: "PriorityClass \<Rightarrow> PriorityClass \<Rightarrow> bool" where
  "less_eq_PriorityClass a b \<longleftrightarrow> class_code a \<le> class_code b"

definition less_PriorityClass :: "PriorityClass \<Rightarrow> PriorityClass \<Rightarrow> bool" where
  "less_PriorityClass a b \<longleftrightarrow> class_code a < class_code b"

instance
proof
  fix a b :: PriorityClass
  assume "a \<le> b" and "b \<le> a"
  then show "a = b" by (cases a; cases b; simp add: less_eq_PriorityClass_def)
qed (auto simp: less_eq_PriorityClass_def less_PriorityClass_def)

end

datatype Priority = Priority (pri_class: PriorityClass) (pri_value: u16)

instantiation Priority :: linorder
begin

definition less_Priority :: "Priority \<Rightarrow> Priority \<Rightarrow> bool" where
  "less_Priority p q \<longleftrightarrow> pri_class p < pri_class q \<or> pri_class p = pri_class q \<and> pri_value p < pri_value q"

definition less_eq_Priority :: "Priority \<Rightarrow> Priority \<Rightarrow> bool" where
  "less_eq_Priority p q \<longleftrightarrow> pri_class p < pri_class q \<or> pri_class p = pri_class q \<and> pri_value p \<le> pri_value q"

instance
  by standard (auto simp: less_Priority_def less_eq_Priority_def intro: Priority.expand)

end

definition MAX_PRIORITY :: u16 where
  "MAX_PRIORITY = 128"

definition INTERRUPT :: Priority where
  "INTERRUPT = Priority Realtime (MAX_PRIORITY - 1)"

definition REALTIME :: Priority where
  "REALTIME = Priority Realtime (MAX_PRIORITY div 2)"

definition USER :: Priority where
  "USER = Priority User (MAX_PRIORITY div 2)"

definition BACKGROUND :: Priority where
  "BACKGROUND = Priority Background (MAX_PRIORITY div 2)"

definition IDLE :: Priority where
  "IDLE = Priority Idle (MAX_PRIORITY div 2)"

definition from_raw :: "u32 \<Rightarrow> Priority" where
  "from_raw d =
     (let class = (case unat (drop_bit 16 d) of 0 \<Rightarrow> Idle | Suc 0 \<Rightarrow> Background | Suc (Suc 0) \<Rightarrow> User | _ \<Rightarrow> Realtime)
      in Priority class (min (ucast (d AND 0xffff)) (MAX_PRIORITY - 1)))"

definition raw :: "Priority \<Rightarrow> u32" where
  "raw p = push_bit 16 (of_nat (class_code (pri_class p))) OR ucast (pri_value p)"

section \<open>Threads\<close>

definition THREAD_PROC_IDLE :: u32 where
  "THREAD_PROC_IDLE = 1"

definition THREAD_HAS_DONATED_PRIORITY :: u32 where
  "THREAD_HAS_DONATED_PRIORITY = 2"

definition THREAD_IS_EXITING :: u32 where
  "THREAD_IS_EXITING = 32"

record ThreadSched =
  last_cpu :: "32 word"
  pinned_cpu :: "32 word"
  deadline :: u64
  sleep_tick :: u64
  current_processor_queue :: "32 word"
  timeslice :: u32

definition ThreadSched_default :: ThreadSched where
  "ThreadSched_default = \<lparr>last_cpu = - 1, pinned_cpu = - 1, deadline = 0, sleep_tick = 0,
     current_processor_queue = - 1, timeslice = 0\<rparr>"

record Thread =
  th_priority :: u32
  donated_priority :: u32
  stable_priority :: u32
  th_flags :: u32
  th_sched :: ThreadSched

text \<open>A signed field holds a processor when it is not negative.\<close>

definition pin_cpu :: "u32 \<Rightarrow> ThreadSched \<Rightarrow> ThreadSched" where
  "pin_cpu cpu s = s\<lparr>pinned_cpu := cpu\<rparr>"

definition unpin_cpu :: "ThreadSched \<Rightarrow> ThreadSched" where
  "unpin_cpu s = s\<lparr>pinned_cpu := - 1\<rparr>"

definition pinned_to :: "ThreadSched \<Rightarrow> u32 option" where
  "pinned_to s = (if sint (pinned_cpu s) \<ge> 0 then Some (pinned_cpu s) else None)"

text \<open>The counter wraps at 32 bits; the sum that is compared is one of 64 bits.\<close>

definition pay_ticks :: "u64 \<Rightarrow> u64 \<Rightarrow> ThreadSched \<Rightarrow> (bool \<times> ThreadSched) option" where
  "pay_ticks ticks allowed s = do {
     let old = timeslice s;
     sum \<leftarrow> checked_add (ucast old :: u64) ticks;
     Some (if sum \<ge> allowed then (True, s\<lparr>timeslice := 0\<rparr>)
           else (False, s\<lparr>timeslice := old + ucast ticks\<rparr>)) }"

definition reset_timeslice :: "ThreadSched \<Rightarrow> ThreadSched" where
  "reset_timeslice s = s\<lparr>timeslice := 0\<rparr>"

definition moving_to_queue :: "u32 \<Rightarrow> ThreadSched \<Rightarrow> ThreadSched" where
  "moving_to_queue cpu s = s\<lparr>current_processor_queue := cpu\<rparr>"

definition moving_to_active :: "u32 \<Rightarrow> ThreadSched \<Rightarrow> u32 option \<times> ThreadSched" where
  "moving_to_active cpu s =
     (if last_cpu s = - 1 then None else Some (last_cpu s), s\<lparr>current_processor_queue := - 1, last_cpu := cpu\<rparr>)"

definition current_cpu_rq :: "ThreadSched \<Rightarrow> u32 option" where
  "current_cpu_rq s = (if sint (current_processor_queue s) \<ge> 0 then Some (current_processor_queue s) else None)"

definition preferred_cpu :: "ThreadSched \<Rightarrow> (u32 \<times> bool) option" where
  "preferred_cpu s =
     (if sint (pinned_cpu s) \<ge> 0 then Some (pinned_cpu s, True)
      else if sint (last_cpu s) \<ge> 0 then Some (last_cpu s, False) else None)"

definition set_deadline :: "u64 \<Rightarrow> ThreadSched \<Rightarrow> ThreadSched" where
  "set_deadline tick s = s\<lparr>deadline := tick\<rparr>"

definition is_idle_thread :: "Thread \<Rightarrow> bool" where
  "is_idle_thread th \<longleftrightarrow> th_flags th AND THREAD_PROC_IDLE \<noteq> 0"

definition is_exiting :: "Thread \<Rightarrow> bool" where
  "is_exiting th \<longleftrightarrow> th_flags th AND THREAD_IS_EXITING \<noteq> 0"

section \<open>Effective and donated priority\<close>

definition has_donated :: "Thread \<Rightarrow> bool" where
  "has_donated th \<longleftrightarrow> th_flags th AND THREAD_HAS_DONATED_PRIORITY \<noteq> 0"

definition remove_clear :: "Thread \<Rightarrow> bool \<times> Thread" where
  "remove_clear th = (has_donated th, th\<lparr>th_flags := th_flags th AND NOT THREAD_HAS_DONATED_PRIORITY\<rparr>)"

definition remove_store :: "Thread \<Rightarrow> Thread" where
  "remove_store th = th\<lparr>donated_priority := - 1\<rparr>"

definition remove_donated_priority :: "Thread \<Rightarrow> Thread" where
  "remove_donated_priority th = (let (had, th) = remove_clear th in if had then remove_store th else th)"

definition get_donated_priority :: "Thread \<Rightarrow> Priority option" where
  "get_donated_priority th =
     (if has_donated th
      then if donated_priority th = - 1 then None else Some (from_raw (donated_priority th))
      else None)"

definition effective_priority :: "Thread \<Rightarrow> Priority" where
  "effective_priority th =
     (let priority = from_raw (th_priority th)
      in if has_donated th then max (from_raw (donated_priority th)) priority else priority)"

definition get_stable_effective_priority :: "Thread \<Rightarrow> Priority" where
  "get_stable_effective_priority th = from_raw (stable_priority th)"

definition stable_effective_priority :: "Thread \<Rightarrow> Priority \<times> Thread" where
  "stable_effective_priority th =
     (let priority = effective_priority th in (priority, th\<lparr>stable_priority := raw priority\<rparr>))"

definition donate_store :: "Priority \<Rightarrow> Thread \<Rightarrow> Thread" where
  "donate_store pri th = th\<lparr>donated_priority := raw pri\<rparr>"

definition donate_flag :: "Thread \<Rightarrow> Thread" where
  "donate_flag th = th\<lparr>th_flags := th_flags th OR THREAD_HAS_DONATED_PRIORITY\<rparr>"

text \<open>
  The result: whether the priority was donated, whether the thread has to be rescheduled, the
  thread.  \<open>is_current\<close> says whether the thread is the one that runs.
\<close>

definition donate_priority :: "bool \<Rightarrow> Priority \<Rightarrow> Thread \<Rightarrow> bool \<times> bool \<times> Thread" where
  "donate_priority is_current pri th =
     (let current_priority = effective_priority th
      in case get_donated_priority th of
           Some current \<Rightarrow>
             if current > pri then (False, False, th)
             else (True, pri > current_priority \<and> \<not> is_current, donate_flag (donate_store pri th))
         | None \<Rightarrow> (True, pri > current_priority \<and> \<not> is_current, donate_flag (donate_store pri th)))"

section \<open>The encoding of priorities\<close>

definition pri_valid :: "Priority \<Rightarrow> bool" where
  "pri_valid p \<longleftrightarrow> pri_value p < MAX_PRIORITY"

lemma class_code_less: "class_code c < 4"
  by (cases c) simp_all

lemma unat_raw: "unat (raw p) = class_code (pri_class p) * 2 ^ 16 + unat (pri_value p)"
proof -
  let ?c = "of_nat (class_code (pri_class p)) :: u32" and ?v = "ucast (pri_value p) :: u32"
  have c: "unat ?c = class_code (pri_class p)" "unat ?c < 4"
    using class_code_less [of "pri_class p"] by (simp_all add: unat_of_nat)
  have v: "unat ?v = unat (pri_value p)" "unat (pri_value p) < 2 ^ 16"
    using unat_word_less [of "pri_value p"] by (simp_all add: unat_ucast)
  have s: "unat (push_bit 16 ?c) = class_code (pri_class p) * 2 ^ 16"
    using c by (simp add: push_bit_eq_mult unat_word_ariths)
  have "push_bit 16 ?c AND ?v = 0"
    by (rule bit_word_eqI) (auto simp: bit_simps dest: bit_less_LENGTH)
  then have "raw p = push_bit 16 ?c + ?v" by (simp add: raw_def disjunctive_add_eq_or)
  then show ?thesis using s v c class_code_less [of "pri_class p"] by (simp add: unat_word_ariths)
qed

lemma from_raw_eq:
  "from_raw d = Priority
    (case unat d div 2 ^ 16 of 0 \<Rightarrow> Idle | Suc 0 \<Rightarrow> Background | Suc (Suc 0) \<Rightarrow> User | _ \<Rightarrow> Realtime)
    (min (of_nat (unat d mod 2 ^ 16)) (MAX_PRIORITY - 1))"
proof -
  have "d AND 0xffff = take_bit 16 d" by (simp add: take_bit_eq_mask mask_eq_exp_minus_1)
  then have "(ucast (d AND 0xffff) :: u16) = of_nat (unat d mod 2 ^ 16)"
    by (intro word_unat_eq_iff [THEN iffD2]) (simp add: unat_ucast unat_of_nat unat_take_bit)
  moreover have "unat (drop_bit 16 d) = unat d div 2 ^ 16" by (simp only: drop_bit_eq_div unat_div) simp
  ultimately show ?thesis by (simp only: from_raw_def Let_def)
qed

lemma from_raw_raw: "pri_valid p \<Longrightarrow> from_raw (raw p) = p"
proof -
  assume p: "pri_valid p"
  have "unat (pri_value p) < 2 ^ 16" using unat_word_less [of "pri_value p"] by simp
  moreover from this have "unat (raw p) div 2 ^ 16 = class_code (pri_class p)" "unat (raw p) mod 2 ^ 16 = unat (pri_value p)"
    by (simp_all add: unat_raw)
  moreover have "min (pri_value p) (MAX_PRIORITY - 1) = pri_value p"
    using p by (simp add: pri_valid_def MAX_PRIORITY_def min_def word_le_nat_alt word_less_nat_alt)
  ultimately show ?thesis
    unfolding from_raw_eq by (cases p; cases "pri_class p"; simp add: numeral_2_eq_2 numeral_3_eq_3)
qed

lemma pri_valid_from_raw: "pri_valid (from_raw d)"
  by (simp add: from_raw_eq pri_valid_def MAX_PRIORITY_def min_def word_le_nat_alt word_less_nat_alt)

lemma pri_valid_le: "pri_valid p \<Longrightarrow> p \<le> INTERRUPT"
  by (cases p; cases "pri_class p") (auto simp: pri_valid_def INTERRUPT_def MAX_PRIORITY_def less_eq_Priority_def
    less_PriorityClass_def word_le_nat_alt word_less_nat_alt)

lemma raw_mono: "raw p < raw q \<longleftrightarrow> p < q"
proof -
  have "unat (pri_value p) < 2 ^ 16" "unat (pri_value q) < 2 ^ 16"
    using unat_word_less [of "pri_value p"] unat_word_less [of "pri_value q"] by simp_all
  then show ?thesis
    by (cases "pri_class p"; cases "pri_class q")
      (simp_all add: word_less_nat_alt unat_raw less_Priority_def less_PriorityClass_def)
qed

lemma raw_not_max: "raw p \<noteq> - 1"
proof
  assume "raw p = - 1"
  then have "class_code (pri_class p) * 2 ^ 16 + unat (pri_value p) = 2 ^ 32 - 1"
    unfolding unat_raw [symmetric] by (simp add: unsigned_minus_1_eq_mask mask_eq_exp_minus_1)
  then show False using class_code_less [of "pri_class p"] unat_word_less [of "pri_value p"] by simp
qed

section \<open>Donation\<close>

text \<open>A thread marked as having a donated priority has one.\<close>

definition donation_ok :: "Thread \<Rightarrow> bool" where
  "donation_ok th \<longleftrightarrow> has_donated th \<longrightarrow> donated_priority th \<noteq> - 1"

lemma has_donated_iff: "has_donated th \<longleftrightarrow> bit (th_flags th) 1"
  by (simp add: has_donated_def THREAD_HAS_DONATED_PRIORITY_def and_2_eq_0)

lemma has_donated_flag [simp]: "has_donated (donate_flag th)"
  by (simp add: has_donated_iff donate_flag_def THREAD_HAS_DONATED_PRIORITY_def bit_or_iff)

lemma has_donated_clear [simp]: "\<not> has_donated (snd (remove_clear th))"
  by (simp add: has_donated_iff remove_clear_def THREAD_HAS_DONATED_PRIORITY_def bit_and_iff bit_not_iff)

lemma donate_fields [simp]:
  "donated_priority (donate_flag th) = donated_priority th" "th_priority (donate_flag th) = th_priority th"
  "donated_priority (donate_store pri th) = raw pri" "th_priority (donate_store pri th) = th_priority th"
  "th_priority (snd (remove_clear th)) = th_priority th"
  by (simp_all add: donate_flag_def donate_store_def remove_clear_def)

lemma remove_donated_effective:
  "effective_priority (remove_donated_priority th) = from_raw (th_priority th)"
  "donation_ok (remove_donated_priority th)" "th_priority (remove_donated_priority th) = th_priority th"
  using has_donated_clear [of th]
  by (auto simp: remove_donated_priority_def effective_priority_def remove_store_def donation_ok_def remove_clear_def
    has_donated_def)

lemma donate_effective:
  assumes "donation_ok th" and "pri_valid pri" and "donate_priority is_current pri th = (ok, resched, th')"
  shows "effective_priority th' = max pri (effective_priority th)"
    and "donation_ok th'" and "th_priority th' = th_priority th"
    and "resched \<longleftrightarrow> effective_priority th < pri \<and> \<not> is_current"
    and "ok \<longleftrightarrow> \<not> (has_donated th \<and> pri < from_raw (donated_priority th))"
proof -
  show "donation_ok th'" "th_priority th' = th_priority th"
    using assms by (auto simp: donate_priority_def donation_ok_def Let_def raw_not_max split: option.splits if_splits)
  show "effective_priority th' = max pri (effective_priority th)"
    using assms by (auto simp: donate_priority_def effective_priority_def get_donated_priority_def Let_def
      from_raw_raw donation_ok_def max_def split: option.splits if_splits)
  show "resched \<longleftrightarrow> effective_priority th < pri \<and> \<not> is_current"
    using assms by (auto simp: donate_priority_def effective_priority_def get_donated_priority_def Let_def
      donation_ok_def max_def split: option.splits if_splits)
  show "ok \<longleftrightarrow> \<not> (has_donated th \<and> pri < from_raw (donated_priority th))"
    using assms by (auto simp: donate_priority_def get_donated_priority_def Let_def
      donation_ok_def split: option.splits if_splits)
qed

fun donate_all :: "(bool \<times> Priority) list \<Rightarrow> Thread \<Rightarrow> Thread" where
  "donate_all [] th = th"
| "donate_all ((c, pri) # ps) th = donate_all ps (snd (snd (donate_priority c pri th)))"

lemma donate_all_effective:
  assumes "donation_ok th" and "list_all (\<lambda>(c, pri). pri_valid pri) ps"
  shows "effective_priority (donate_all ps th) = fold max (map snd ps) (effective_priority th) \<and>
    donation_ok (donate_all ps th) \<and> th_priority (donate_all ps th) = th_priority th"
  using assms
proof (induction ps arbitrary: th)
  case (Cons cp ps)
  obtain c pri where cp: "cp = (c, pri)" by (cases cp)
  obtain ok r th' where d: "donate_priority c pri th = (ok, r, th')" by (metis prod_cases3)
  have "pri_valid pri" using Cons.prems cp by simp
  note E = donate_effective [OF Cons.prems(1) this d]
  show ?case using Cons.IH [OF E(2)] Cons.prems(2) E(1,3) by (simp add: cp d)
qed simp

section \<open>Properties\<close>

text \<open>
  C17: the 32-bit encoding of priorities is an order embedding, decoding undoes it on the
  priorities below the maximum, and decoding any word gives such a priority.
\<close>

theorem priority_encoding:
  "(pri_valid p \<longrightarrow> from_raw (raw p) = p) \<and> (raw p < raw q \<longleftrightarrow> p < q) \<and> pri_valid (from_raw d)"
  using from_raw_raw raw_mono pri_valid_from_raw by blast

theorem priority_encoding_witness: "pri_valid INTERRUPT \<and> from_raw (raw INTERRUPT) = INTERRUPT \<and> USER < REALTIME"
proof -
  have "pri_valid INTERRUPT" by (simp add: pri_valid_def INTERRUPT_def MAX_PRIORITY_def)
  moreover have "raw USER < raw REALTIME" by (simp add: raw_def USER_def REALTIME_def MAX_PRIORITY_def)
  ultimately show ?thesis
    using priority_encoding [of INTERRUPT] priority_encoding [of USER REALTIME] by blast
qed

text \<open>
  C18: after any sequence of donations a thread runs with the maximum of its own priority and of
  all the donated ones, whether a donation was recorded or refused, and removing the donation
  leaves it with its own priority again.
\<close>

theorem donated_priority_is_max:
  assumes "donation_ok th" and "list_all (\<lambda>(c, pri). pri_valid pri) ps"
  shows "effective_priority (donate_all ps th) = fold max (map snd ps) (effective_priority th) \<and>
    effective_priority (remove_donated_priority (donate_all ps th)) = from_raw (th_priority th)"
  using donate_all_effective [OF assms] remove_donated_effective(1) by simp

definition user_thread :: Thread where
  "user_thread = \<lparr>th_priority = raw USER, donated_priority = - 1, stable_priority = raw USER, th_flags = 0,
     th_sched = ThreadSched_default\<rparr>"

lemma user_thread_pri: "from_raw (th_priority user_thread) = USER" "effective_priority user_thread = USER"
  using from_raw_raw [of USER]
  by (simp_all add: user_thread_def effective_priority_def has_donated_def pri_valid_def USER_def MAX_PRIORITY_def)

theorem donated_priority_is_max_witness:
  "effective_priority (donate_all [(False, REALTIME), (False, BACKGROUND)] user_thread) = REALTIME \<and>
   effective_priority (remove_donated_priority (donate_all [(False, REALTIME), (False, BACKGROUND)] user_thread)) = USER"
  using donated_priority_is_max [of user_thread "[(False, REALTIME), (False, BACKGROUND)]"]
  by (simp add: user_thread_pri donation_ok_def has_donated_def pri_valid_def max_def)
    (simp add: user_thread_def USER_def BACKGROUND_def REALTIME_def MAX_PRIORITY_def less_eq_Priority_def
      less_PriorityClass_def)

text \<open>
  C28: a donation that falls between the two stores of a removal leaves the thread marked as
  having a donated priority while the stored word says there is none: it then runs with the
  highest priority of all, and further donations are not compared with anything.
\<close>

theorem donation_race_runs_at_top:
  assumes "has_donated th"
  shows "\<exists>th'. th' = remove_store (donate_flag (donate_store pri (snd (remove_clear th)))) \<and>
    fst (remove_clear th) \<and> get_donated_priority th' = None \<and> effective_priority th' = INTERRUPT"
proof -
  let ?th = "remove_store (donate_flag (donate_store pri (snd (remove_clear th))))"
  have "from_raw (- 1) = INTERRUPT"
    by (simp add: from_raw_eq INTERRUPT_def MAX_PRIORITY_def min_def unsigned_minus_1_eq_mask mask_eq_exp_minus_1)
  moreover have "max INTERRUPT (from_raw d) = INTERRUPT" for d
    using pri_valid_le [OF pri_valid_from_raw [of d]] by (simp add: max_def)
  ultimately show ?thesis
    using assms has_donated_flag [of "donate_store pri (snd (remove_clear th))"]
    by (simp add: remove_store_def get_donated_priority_def effective_priority_def remove_clear_def has_donated_def)
qed

theorem donation_race_runs_at_top_witness:
  "\<exists>th'. th' = remove_store (donate_flag (donate_store USER (snd (remove_clear (donate_flag user_thread))))) \<and>
    effective_priority th' = INTERRUPT \<and> effective_priority user_thread = USER"
  using donation_race_runs_at_top [of "donate_flag user_thread" USER] user_thread_pri(2) by simp

end
