(* ===== verification/Run_Queue.thy ===== *)
theory Run_Queue
  imports Priority Fifo "HOL-Library.Multiset"
begin

text \<open>
  The per-processor run queue (\<^verbatim>\<open>src/kernel/src/processor/rq.rs\<close>) and its timeshare part
  (\<^verbatim>\<open>src/kernel/src/processor/timeshare.rs\<close>).

  A thread reference is its id; the threads themselves are a heap that other code changes too.
  The linked lists are those of the crate \<^verbatim>\<open>intrusive_collections\<close>: a record of its operations
  is a parameter of every definition, and \<open>linked_list_laws\<close> states the documented behaviour
  that the proofs use.  The clock is an argument.  Each operation runs with its locks held.
\<close>

type_synonym tid = u64
type_synonym threads = "tid \<Rightarrow> Thread"

section \<open>Linked lists\<close>

record 'l linked_list =
  ll_new :: 'l
  ll_push_back :: "tid \<Rightarrow> 'l \<Rightarrow> 'l"
  ll_pop_front :: "'l \<Rightarrow> (tid \<times> 'l) option"
  ll_is_empty :: "'l \<Rightarrow> bool"

text \<open>
  An element may be pushed while it is in no list.  Popping an empty list changes nothing.
\<close>

definition linked_list_laws :: "'l linked_list \<Rightarrow> ('l \<Rightarrow> tid list) \<Rightarrow> bool" where
  "linked_list_laws ll items \<longleftrightarrow>
     items (ll_new ll) = [] \<and>
     (\<forall>x l. x \<notin> set (items l) \<longrightarrow> items (ll_push_back ll x l) = items l @ [x]) \<and>
     (\<forall>l. items l = [] \<longrightarrow> ll_pop_front ll l = None) \<and>
     (\<forall>l x xs. items l = x # xs \<longrightarrow> (\<exists>l'. ll_pop_front ll l = Some (x, l') \<and> items l' = xs)) \<and>
     (\<forall>l. ll_is_empty ll l \<longleftrightarrow> items l = [])"

text \<open>The first of some lists, in the order of the given indices, that has an element.\<close>

fun take_first :: "'l linked_list \<Rightarrow> nat list \<Rightarrow> 'l list \<Rightarrow> (nat \<times> tid \<times> 'l list) option" where
  "take_first ll [] queues = None"
| "take_first ll (q # qs) queues =
     (case ll_pop_front ll (queues ! q) of
        Some (th, l) \<Rightarrow> Some (q, th, queues[q := l])
      | None \<Rightarrow> take_first ll qs queues)"

section \<open>Queues by priority\<close>

definition NR_QUEUES :: nat where
  "NR_QUEUES = 8"

record 'l PriorityQueue =
  pq_count :: usize
  pq_queues :: "'l list"

definition PriorityQueue_new :: "'l linked_list \<Rightarrow> nat \<Rightarrow> 'l PriorityQueue" where
  "PriorityQueue_new ll N = \<lparr>pq_count = 0, pq_queues = replicate N (ll_new ll)\<rparr>"

text \<open>The width of a bucket, \<open>MAX_PRIORITY / N\<close>.\<close>

definition bucket_size :: "'a list \<Rightarrow> nat" where
  "bucket_size queues = unat MAX_PRIORITY div length queues"

definition pq_highest_priority :: "'l linked_list \<Rightarrow> 'l PriorityQueue \<Rightarrow> u16 option" where
  "pq_highest_priority ll pq =
     (if pq_count pq = 0 then None
      else map_option (\<lambda>q. of_nat (q * bucket_size (pq_queues pq)))
        (List.find (\<lambda>q. \<not> ll_is_empty ll (pq_queues pq ! q)) (rev [0..<length (pq_queues pq)])))"

definition pq_is_empty :: "'l PriorityQueue \<Rightarrow> bool" where
  "pq_is_empty pq \<longleftrightarrow> pq_count pq = 0"

definition pq_insert :: "'l linked_list \<Rightarrow> threads \<Rightarrow> tid \<Rightarrow> 'l PriorityQueue \<Rightarrow> 'l PriorityQueue option" where
  "pq_insert ll threads th pq = do {
     let priority = effective_priority (threads th);
     q \<leftarrow> (if pri_class priority = User then do {
              assert_that (1 \<le> length (pq_queues pq));
              Some (length (pq_queues pq) - 1) }
            else do {
              assert_that (0 < bucket_size (pq_queues pq));
              Some (unat (pri_value priority) div bucket_size (pq_queues pq)) });
     assert_that (q < length (pq_queues pq));
     count \<leftarrow> checked_add (pq_count pq) 1;
     Some \<lparr>pq_count = count, pq_queues = (pq_queues pq)[q := ll_push_back ll th (pq_queues pq ! q)]\<rparr> }"

definition pq_take :: "'l linked_list \<Rightarrow> 'l PriorityQueue \<Rightarrow> (tid option \<times> 'l PriorityQueue) option" where
  "pq_take ll pq =
     (if pq_count pq = 0 then Some (None, pq)
      else case take_first ll [0..<length (pq_queues pq)] (pq_queues pq) of
        Some (q, th, queues) \<Rightarrow> do {
          count \<leftarrow> checked_sub (pq_count pq) 1;
          Some (Some th, \<lparr>pq_count = count, pq_queues = queues\<rparr>) }
      | None \<Rightarrow> Some (None, pq))"

section \<open>The calendar queue\<close>

record 'l TimeshareQueue =
  ts_count :: usize
  ts_priorities :: "u32 list"
  insert_idx :: nat
  take_idx :: nat
  ts_queues :: "'l list"

definition TimeshareQueue_new :: "'l linked_list \<Rightarrow> nat \<Rightarrow> 'l TimeshareQueue" where
  "TimeshareQueue_new ll N = \<lparr>ts_count = 0, ts_priorities = replicate N 0, insert_idx = 0, take_idx = 0,
     ts_queues = replicate N (ll_new ll)\<rparr>"

definition ts_is_empty :: "'l TimeshareQueue \<Rightarrow> bool" where
  "ts_is_empty ts \<longleftrightarrow> ts_count ts = 0"

definition ts_highest_priority :: "'l TimeshareQueue \<Rightarrow> u16 option" where
  "ts_highest_priority ts =
     (if ts_is_empty ts then None
      else map_option (\<lambda>i. of_nat (i * bucket_size (ts_queues ts)))
        (List.find (\<lambda>i. ts_priorities ts ! i > 0) (rev [0..<length (ts_queues ts)])))"

definition ts_insert_queue :: "'l TimeshareQueue \<Rightarrow> Priority \<Rightarrow> bool \<Rightarrow> nat option" where
  "ts_insert_queue ts pri current =
     (if current then Some (take_idx ts)
      else do {
        d \<leftarrow> checked_sub MAX_PRIORITY (pri_value pri);
        assert_that (0 < bucket_size (ts_queues ts));
        let prio_idx_offset = unat d div bucket_size (ts_queues ts);
        let q = (insert_idx ts + prio_idx_offset) mod length (ts_queues ts);
        Some (if q = take_idx ts \<and> take_idx ts \<noteq> insert_idx ts
              then if q = 0 then length (ts_queues ts) - 1 else q - 1
              else q) })"

definition ts_insert ::
  "'l linked_list \<Rightarrow> tid \<Rightarrow> bool \<Rightarrow> threads \<Rightarrow> 'l TimeshareQueue \<Rightarrow> (threads \<times> 'l TimeshareQueue) option" where
  "ts_insert ll th current threads ts = do {
     let (pri, thread) = stable_effective_priority (threads th);
     let threads = threads(th := thread);
     q \<leftarrow> ts_insert_queue ts pri current;
     assert_that (q < length (ts_queues ts));
     assert_that (0 < bucket_size (ts_queues ts));
     let p = unat (pri_value pri) div bucket_size (ts_queues ts);
     assert_that (p < length (ts_priorities ts));
     n \<leftarrow> checked_add (ts_priorities ts ! p) 1;
     count \<leftarrow> checked_add (ts_count ts) 1;
     Some (threads, ts\<lparr>ts_queues := (ts_queues ts)[q := ll_push_back ll th (ts_queues ts ! q)],
       ts_priorities := (ts_priorities ts)[p := n], ts_count := count\<rparr>) }"

definition ts_take :: "'l linked_list \<Rightarrow> threads \<Rightarrow> 'l TimeshareQueue \<Rightarrow> (tid option \<times> 'l TimeshareQueue) option" where
  "ts_take ll threads ts =
     (let N = length (ts_queues ts)
      in case take_first ll (map (\<lambda>i. (take_idx ts + i) mod N) [0..<N]) (ts_queues ts) of
        Some (q, th, queues) \<Rightarrow> do {
          assert_that (0 < bucket_size (ts_queues ts));
          let p = unat (pri_value (get_stable_effective_priority (threads th))) div bucket_size (ts_queues ts);
          assert_that (p < length (ts_priorities ts));
          count \<leftarrow> checked_sub (ts_count ts) 1;
          Some (Some th, ts\<lparr>ts_queues := queues, ts_count := count,
            ts_priorities := (ts_priorities ts)[p := saturating_sub (ts_priorities ts ! p) 1],
            take_idx := (if q \<noteq> insert_idx ts \<and> ll_is_empty ll (queues ! q) then (q + 1) mod N else q)\<rparr>) }
      | None \<Rightarrow> Some (None, ts\<lparr>take_idx := insert_idx ts\<rparr>))"

definition ts_advance_insert_index :: "nat \<Rightarrow> bool \<Rightarrow> 'l TimeshareQueue \<Rightarrow> 'l TimeshareQueue" where
  "ts_advance_insert_index steps force ts =
     (if ts_is_empty ts then ts
      else if insert_idx ts \<noteq> take_idx ts \<and> \<not> force then ts
      else ts\<lparr>insert_idx := (insert_idx ts + steps) mod length (ts_queues ts)\<rparr>)"

section \<open>The run queue\<close>

definition RQ_HAS_RT :: u32 where
  "RQ_HAS_RT = 1"

definition RQ_HAS_TS :: u32 where
  "RQ_HAS_TS = 2"

definition RQ_HAS_IL :: u32 where
  "RQ_HAS_IL = 4"

definition MAX_TIMESLICE_TICKS :: u32 where
  "MAX_TIMESLICE_TICKS = 100"

definition MIN_TIMESLICE_TICKS :: u32 where
  "MIN_TIMESLICE_TICKS = 2"

definition DEFAULT_TIMESLICE_TICKS :: u32 where
  "DEFAULT_TIMESLICE_TICKS = 32"

record 'l RunQueue =
  realtime :: "'l PriorityQueue"
  timeshare :: "'l TimeshareQueue"
  idle :: "'l PriorityQueue"
  current_priority_raw :: u32
  run_flags :: u32
  load :: u32
  timeshare_load :: u32
  movable :: u32
  last_clock :: u64
  last_tick :: u64

definition RunQueue_new :: "'l linked_list \<Rightarrow> nat \<Rightarrow> 'l RunQueue" where
  "RunQueue_new ll N = \<lparr>realtime = PriorityQueue_new ll N, timeshare = TimeshareQueue_new ll N,
     idle = PriorityQueue_new ll N, current_priority_raw = 0, run_flags = 0, load = 0, timeshare_load = 0,
     movable = 0, last_clock = 0, last_tick = 0\<rparr>"

definition current_priority :: "'l RunQueue \<Rightarrow> Priority" where
  "current_priority rq = from_raw (current_priority_raw rq)"

definition run_insert ::
  "'l linked_list \<Rightarrow> u64 \<Rightarrow> tid \<Rightarrow> bool \<Rightarrow> threads \<Rightarrow> 'l RunQueue \<Rightarrow> (bool \<times> threads \<times> 'l RunQueue) option" where
  "run_insert ll ticks th current threads rq = do {
     assert_that (\<not> is_idle_thread (threads th));
     let rq = (if pinned_to (th_sched (threads th)) = None then rq\<lparr>movable := movable rq + 1\<rparr> else rq);
     let rq = rq\<lparr>load := load rq + 1\<rparr>;
     let th_pri = effective_priority (threads th);
     let rq = (if from_raw (current_priority_raw rq) < th_pri then rq\<lparr>current_priority_raw := raw th_pri\<rparr> else rq);
     case pri_class th_pri of
       Realtime \<Rightarrow> do {
         q \<leftarrow> pq_insert ll threads th (realtime rq);
         Some (True, threads, rq\<lparr>realtime := q, run_flags := run_flags rq OR RQ_HAS_RT\<rparr>) }
     | User \<Rightarrow>
         if deadline (th_sched (threads th)) \<le> ticks then do {
           q \<leftarrow> pq_insert ll threads th (realtime rq);
           Some (True, threads, rq\<lparr>realtime := q, run_flags := run_flags rq OR RQ_HAS_RT\<rparr>) }
         else do {
           (threads, q) \<leftarrow> ts_insert ll th current threads (timeshare rq);
           Some (True, threads, rq\<lparr>timeshare_load := timeshare_load rq + 1, timeshare := q,
             run_flags := run_flags rq OR RQ_HAS_TS\<rparr>) }
     | _ \<Rightarrow> do {
         q \<leftarrow> pq_insert ll threads th (idle rq);
         Some (False, threads, rq\<lparr>idle := q, run_flags := run_flags rq OR RQ_HAS_IL\<rparr>) } }"

definition recalc_priority_timeshare :: "'l linked_list \<Rightarrow> 'l RunQueue \<Rightarrow> 'l RunQueue" where
  "recalc_priority_timeshare ll rq =
     (if pri_class (current_priority rq) = User
      then if ts_is_empty (timeshare rq)
        then rq\<lparr>current_priority_raw := raw (Priority Idle (case_option 0 id (pq_highest_priority ll (idle rq))))\<rparr>
        else rq\<lparr>current_priority_raw := raw (Priority User (case_option 0 id (ts_highest_priority (timeshare rq))))\<rparr>
      else rq)"

text \<open>The count of movable threads and the loads after a thread was taken.\<close>

definition leave_movable :: "threads \<Rightarrow> tid \<Rightarrow> 'l RunQueue \<Rightarrow> 'l RunQueue option" where
  "leave_movable threads th rq =
     (if pinned_to (th_sched (threads th)) = None
      then do { assert_that (movable rq > 0); Some (rq\<lparr>movable := movable rq - 1\<rparr>) }
      else Some rq)"

definition take_realtime :: "'l linked_list \<Rightarrow> threads \<Rightarrow> 'l RunQueue \<Rightarrow> (tid option \<times> 'l RunQueue) option" where
  "take_realtime ll threads rq =
     (if run_flags rq AND RQ_HAS_RT = 0 then Some (None, rq)
      else do {
        (th, q) \<leftarrow> pq_take ll (realtime rq);
        let rq = rq\<lparr>realtime := q\<rparr>;
        case th of
          None \<Rightarrow> Some (None, rq)
        | Some th \<Rightarrow> do {
            let rq = (if pq_is_empty q then rq\<lparr>run_flags := run_flags rq AND NOT RQ_HAS_RT\<rparr> else rq);
            rq \<leftarrow> leave_movable threads th rq;
            let rq = rq\<lparr>load := load rq - 1\<rparr>;
            let rq = (if pri_class (current_priority rq) = Realtime
              then if pq_is_empty q
                then rq\<lparr>current_priority_raw := raw (Priority User (MAX_PRIORITY - 1))\<rparr>
                else rq\<lparr>current_priority_raw := raw (Priority Realtime (case_option 0 id (pq_highest_priority ll q)))\<rparr>
              else rq);
            Some (Some th, rq) } })"

definition take_timeshare :: "'l linked_list \<Rightarrow> threads \<Rightarrow> 'l RunQueue \<Rightarrow> (tid option \<times> 'l RunQueue) option" where
  "take_timeshare ll threads rq =
     (if run_flags rq AND RQ_HAS_TS = 0 then Some (None, rq)
      else do {
        (th, q) \<leftarrow> ts_take ll threads (timeshare rq);
        let rq = rq\<lparr>timeshare := q\<rparr>;
        case th of
          None \<Rightarrow> Some (None, rq)
        | Some th \<Rightarrow> do {
            let rq = (if ts_is_empty q then rq\<lparr>run_flags := run_flags rq AND NOT RQ_HAS_TS\<rparr> else rq);
            rq \<leftarrow> leave_movable threads th rq;
            let rq = rq\<lparr>load := load rq - 1, timeshare_load := timeshare_load rq - 1\<rparr>;
            Some (Some th,
              if pri_class (current_priority rq) = User then recalc_priority_timeshare ll rq else rq) } })"

definition take_idle :: "'l linked_list \<Rightarrow> threads \<Rightarrow> 'l RunQueue \<Rightarrow> (tid option \<times> 'l RunQueue) option" where
  "take_idle ll threads rq =
     (if run_flags rq AND RQ_HAS_IL = 0 then Some (None, rq)
      else do {
        (th, q) \<leftarrow> pq_take ll (idle rq);
        let rq = rq\<lparr>idle := q\<rparr>;
        case th of
          None \<Rightarrow> Some (None, rq)
        | Some th \<Rightarrow> do {
            let rq = (if pq_is_empty q then rq\<lparr>run_flags := run_flags rq AND NOT RQ_HAS_IL\<rparr> else rq);
            rq \<leftarrow> leave_movable threads th rq;
            Some (Some th, rq\<lparr>load := load rq - 1,
              current_priority_raw := raw (Priority Idle (case_option 0 id (pq_highest_priority ll q)))\<rparr>) } })"

definition run_is_empty :: "'l RunQueue \<Rightarrow> bool" where
  "run_is_empty rq \<longleftrightarrow> run_flags rq AND (RQ_HAS_IL OR RQ_HAS_RT OR RQ_HAS_TS) = 0"

definition run_take :: "'l linked_list \<Rightarrow> bool \<Rightarrow> threads \<Rightarrow> 'l RunQueue \<Rightarrow> (tid option \<times> 'l RunQueue) option" where
  "run_take ll stealing threads rq =
     (if run_is_empty rq \<or> stealing \<and> movable rq = 0 then Some (None, rq)
      else do {
        (th, rq) \<leftarrow> take_realtime ll threads rq;
        case th of Some th \<Rightarrow> Some (Some th, rq) | None \<Rightarrow> do {
          (th, rq) \<leftarrow> take_timeshare ll threads rq;
          case th of Some th \<Rightarrow> Some (Some th, rq) | None \<Rightarrow> do {
            (th, rq) \<leftarrow> take_idle ll threads rq;
            case th of Some th \<Rightarrow> Some (Some th, rq)
            | None \<Rightarrow> Some (None, rq\<lparr>current_priority_raw := 0\<rparr>) } } })"

definition run_timeslice :: "PriorityClass \<Rightarrow> 'l RunQueue \<Rightarrow> u64" where
  "run_timeslice class rq =
     (case class of
        User \<Rightarrow>
          if timeshare_load rq = 0 then ucast MAX_TIMESLICE_TICKS
          else ucast (max (DEFAULT_TIMESLICE_TICKS div timeshare_load rq) MIN_TIMESLICE_TICKS)
      | _ \<Rightarrow> ucast MAX_TIMESLICE_TICKS)"

definition checked_mul :: "'a::len word \<Rightarrow> 'a word \<Rightarrow> 'a word option" where
  "checked_mul a b = (if unat a * unat b < 2 ^ LENGTH('a) then Some (a * b) else None)"

definition run_deadline :: "PriorityClass \<Rightarrow> 'l RunQueue \<Rightarrow> u64 option" where
  "run_deadline class rq = checked_mul (run_timeslice class rq) (ucast (load rq))"

definition run_hardtick :: "u64 \<Rightarrow> 'l RunQueue \<Rightarrow> ((u64 \<times> u64) \<times> 'l RunQueue) option" where
  "run_hardtick current_ticks rq = do {
     ticks \<leftarrow> checked_sub current_ticks (last_tick rq);
     Some (if ticks = 0 then ((current_ticks, 0), rq)
           else ((current_ticks, ticks), rq\<lparr>last_tick := last_tick rq + ticks\<rparr>)) }"

definition run_clock :: "'l RunQueue \<Rightarrow> 'l RunQueue" where
  "run_clock rq = rq\<lparr>timeshare := ts_advance_insert_index 1 True (timeshare rq)\<rparr>"

section \<open>Lists of queues\<close>

definition queued :: "('l \<Rightarrow> tid list) \<Rightarrow> 'l list \<Rightarrow> tid multiset" where
  "queued items queues = mset (concat (map items queues))"

lemma queued_update:
  assumes "i < length queues"
  shows "queued items (queues[i := l]) + mset (items (queues ! i)) = queued items queues + mset (items l)"
proof -
  have "queued items queues = queued items (take i queues @ queues ! i # drop (Suc i) queues)"
    using id_take_nth_drop [OF assms] by simp
  then show ?thesis using assms by (simp add: queued_def upd_conv_take_nth_drop)
qed

lemma queued_push:
  assumes "linked_list_laws ll items" and "i < length queues" and "th \<notin># queued items queues"
  shows "queued items (queues[i := ll_push_back ll th (queues ! i)]) = add_mset th (queued items queues)"
proof -
  have "th \<notin> set (items (queues ! i))" using assms(2,3) nth_mem by (fastforce simp: queued_def)
  then have "items (ll_push_back ll th (queues ! i)) = items (queues ! i) @ [th]"
    using assms(1) by (simp add: linked_list_laws_def)
  then show ?thesis using queued_update [OF assms(2), of items "ll_push_back ll th (queues ! i)"] by simp
qed

lemma queued_empty_iff: "queued items queues = {#} \<longleftrightarrow> (\<forall>i<length queues. items (queues ! i) = [])"
  by (auto simp: queued_def all_set_conv_all_nth)

lemma queued_replicate [simp]: "linked_list_laws ll items \<Longrightarrow> queued items (replicate n (ll_new ll)) = {#}"
  by (simp add: queued_empty_iff linked_list_laws_def)

lemma take_first_None:
  assumes "linked_list_laws ll items"
  shows "take_first ll qs queues = None \<longleftrightarrow> (\<forall>q\<in>set qs. items (queues ! q) = [])"
proof (induction qs)
  case (Cons q qs)
  then show ?case
    using assms by (cases "items (queues ! q)") (force simp: linked_list_laws_def split: option.splits)+
qed simp

lemma take_first_Some:
  assumes "linked_list_laws ll items" and "\<forall>q\<in>set qs. q < length queues"
    and "take_first ll qs queues = Some (q, th, queues')"
  shows "q \<in> set qs \<and> length queues' = length queues \<and> queued items queues = add_mset th (queued items queues') \<and>
    items (queues ! q) = th # items (queues' ! q) \<and> (\<forall>r. r \<noteq> q \<longrightarrow> queues' ! r = queues ! r) \<and>
    (\<forall>r\<in>set (takeWhile (\<lambda>r. r \<noteq> q) qs). items (queues ! r) = [])"
  using assms
proof (induction qs)
  case (Cons r qs)
  show ?case
  proof (cases "items (queues ! r)")
    case Nil
    then have "ll_pop_front ll (queues ! r) = None" using Cons.prems(1) by (simp add: linked_list_laws_def)
    then show ?thesis using Cons.IH Cons.prems Nil by auto
  next
    case (Cons x xs)
    then obtain l where l: "ll_pop_front ll (queues ! r) = Some (x, l)" "items l = xs"
      using Cons.prems(1) unfolding linked_list_laws_def by blast
    then have "q = r" "th = x" "queues' = queues[r := l]" using Cons.prems(3) by auto
    moreover have "r < length queues" using Cons.prems(2) by simp
    ultimately show ?thesis using queued_update [of r queues items l] l Cons by auto
  qed
qed simp

section \<open>The queues keep their counts\<close>

definition pq_pool :: "('l \<Rightarrow> tid list) \<Rightarrow> 'l PriorityQueue \<Rightarrow> tid multiset" where
  "pq_pool items pq = queued items (pq_queues pq)"

definition pq_inv :: "('l \<Rightarrow> tid list) \<Rightarrow> 'l PriorityQueue \<Rightarrow> bool" where
  "pq_inv items pq \<longleftrightarrow> length (pq_queues pq) = NR_QUEUES \<and> unat (pq_count pq) = size (pq_pool items pq)"

lemma bucket_size_8: "length queues = NR_QUEUES \<Longrightarrow> bucket_size queues = 16"
  by (simp add: bucket_size_def NR_QUEUES_def MAX_PRIORITY_def)

definition bucket :: "Priority \<Rightarrow> nat" where
  "bucket p = unat (pri_value p) div 16"

lemma bucket_less: "pri_valid p \<Longrightarrow> bucket p < NR_QUEUES"
  by (simp add: bucket_def pri_valid_def NR_QUEUES_def MAX_PRIORITY_def word_less_nat_alt less_mult_imp_div_less)

lemma pri_valid_effective: "pri_valid (effective_priority th)"
  by (simp add: effective_priority_def Let_def max_def pri_valid_from_raw)

lemma pq_insert_spec:
  assumes "linked_list_laws ll items" and "pq_inv items pq" and "th \<notin># pq_pool items pq"
    and "size (pq_pool items pq) < 2 ^ 32"
  shows "\<exists>pq' q. pq_insert ll threads th pq = Some pq' \<and> pq_inv items pq' \<and>
    pq_pool items pq' = add_mset th (pq_pool items pq) \<and>
    q = (if pri_class (effective_priority (threads th)) = User then NR_QUEUES - 1 else bucket (effective_priority (threads th))) \<and>
    pq_queues pq' = (pq_queues pq)[q := ll_push_back ll th (pq_queues pq ! q)]"
proof -
  let ?p = "effective_priority (threads th)"
  have len: "length (pq_queues pq) = NR_QUEUES" using assms(2) by (simp add: pq_inv_def)
  note b = bucket_size_8 [OF len]
  have lt: "bucket ?p < NR_QUEUES" "NR_QUEUES - 1 < NR_QUEUES"
    using bucket_less [OF pri_valid_effective] by (simp_all add: NR_QUEUES_def)
  obtain c where c: "checked_add (pq_count pq) 1 = Some c" "unat c = unat (pq_count pq) + 1"
    using assms(2,4) by (auto simp: pq_inv_def checked_add_def unat_word_ariths)
  let ?q = "if pri_class ?p = User then NR_QUEUES - 1 else bucket ?p"
  have "?q < length (pq_queues pq)" using lt len by simp
  note push = queued_push [OF assms(1) this, folded pq_pool_def, OF assms(3)]
  show ?thesis
    using len b lt c push assms(2)
    by (auto simp: pq_insert_def bucket_def NR_QUEUES_def pq_inv_def pq_pool_def Let_def)
qed

lemma pq_take_spec:
  assumes "linked_list_laws ll items" and "pq_inv items pq"
  shows "if pq_pool items pq = {#} then pq_take ll pq = Some (None, pq)
    else \<exists>th pq' q. pq_take ll pq = Some (Some th, pq') \<and> pq_inv items pq' \<and>
      pq_pool items pq = add_mset th (pq_pool items pq') \<and>
      q < NR_QUEUES \<and> items (pq_queues pq ! q) = th # items (pq_queues pq' ! q) \<and> (\<forall>r<q. items (pq_queues pq ! r) = [])"
proof (cases "pq_pool items pq = {#}")
  case True
  then have "pq_count pq = 0" using assms(2) by (simp add: pq_inv_def unat_eq_zero)
  then show ?thesis using True by (simp add: pq_take_def)
next
  case False
  let ?qs = "[0..<length (pq_queues pq)]"
  have pos: "0 < unat (pq_count pq)" using False assms(2) by (simp add: pq_inv_def nonempty_has_size)
  have "take_first ll ?qs (pq_queues pq) \<noteq> None"
    using False by (auto simp: take_first_None [OF assms(1)] pq_pool_def queued_empty_iff)
  then obtain q th queues where t: "take_first ll ?qs (pq_queues pq) = Some (q, th, queues)" by auto
  from take_first_Some [OF assms(1) _ t] have T: "q < length (pq_queues pq)" "length queues = length (pq_queues pq)"
    "queued items (pq_queues pq) = add_mset th (queued items queues)" "items (pq_queues pq ! q) = th # items (queues ! q)"
    and W: "\<forall>r\<in>set (takeWhile (\<lambda>r. r \<noteq> q) ?qs). items (pq_queues pq ! r) = []" by auto
  have "takeWhile (\<lambda>r. r \<noteq> q) ?qs = [0..<q]"
    using T(1) by (subst takeWhile_eq_take_P_nth [of q]) (auto simp: take_upt)
  with W have W': "\<forall>r<q. items (pq_queues pq ! r) = []" by simp
  obtain c where c: "checked_sub (pq_count pq) 1 = Some c" "unat c = unat (pq_count pq) - 1"
    using pos by (auto simp: checked_sub_def word_le_nat_alt unat_sub)
  show ?thesis
    using False pos t T c W' assms(2) by (auto simp: pq_take_def pq_inv_def pq_pool_def)
qed

definition ts_pool :: "('l \<Rightarrow> tid list) \<Rightarrow> 'l TimeshareQueue \<Rightarrow> tid multiset" where
  "ts_pool items ts = queued items (ts_queues ts)"

definition stable_bucket :: "threads \<Rightarrow> tid \<Rightarrow> nat" where
  "stable_bucket threads th = bucket (get_stable_effective_priority (threads th))"

definition ts_inv :: "('l \<Rightarrow> tid list) \<Rightarrow> threads \<Rightarrow> 'l TimeshareQueue \<Rightarrow> bool" where
  "ts_inv items threads ts \<longleftrightarrow>
     length (ts_queues ts) = NR_QUEUES \<and> length (ts_priorities ts) = NR_QUEUES \<and>
     insert_idx ts < NR_QUEUES \<and> take_idx ts < NR_QUEUES \<and>
     unat (ts_count ts) = size (ts_pool items ts) \<and>
     (\<forall>i<NR_QUEUES. unat (ts_priorities ts ! i) = size {#th \<in># ts_pool items ts. stable_bucket threads th = i#})"

text \<open>The counts depend on the queued threads' stable priorities only.\<close>

lemma ts_inv_threads:
  assumes "ts_inv items threads ts"
    and "\<And>th. th \<in># ts_pool items ts \<Longrightarrow> stable_priority (threads' th) = stable_priority (threads th)"
  shows "ts_inv items threads' ts"
proof -
  have "{#th \<in># ts_pool items ts. stable_bucket threads' th = i#} = {#th \<in># ts_pool items ts. stable_bucket threads th = i#}" for i
    using assms(2) by (intro filter_mset_cong) (auto simp: stable_bucket_def get_stable_effective_priority_def)
  then show ?thesis using assms(1) by (simp add: ts_inv_def)
qed

lemma ts_insert_queue_less:
  assumes "ts_inv items threads ts" and "pri_valid pri"
  shows "\<exists>q<NR_QUEUES. ts_insert_queue ts pri current = Some q"
proof -
  have "pri_value pri \<le> MAX_PRIORITY" using assms(2) by (simp add: pri_valid_def)
  then show ?thesis
    using assms(1) bucket_size_8 [of "ts_queues ts"]
    by (auto simp: ts_insert_queue_def ts_inv_def checked_sub_def NR_QUEUES_def Let_def)
qed

lemma stable_effective_fields:
  assumes "stable_effective_priority th = (pri, th')"
  shows "pri = effective_priority th" "get_stable_effective_priority th' = pri" "th_sched th' = th_sched th"
    "th_flags th' = th_flags th" "effective_priority th' = pri"
  using assms pri_valid_effective [of th]
  by (auto simp: stable_effective_priority_def get_stable_effective_priority_def from_raw_raw effective_priority_def
    has_donated_def Let_def)

lemma ts_insert_spec:
  assumes laws: "linked_list_laws ll items" and inv: "ts_inv items threads ts" and th: "th \<notin># ts_pool items ts"
    and size: "size (ts_pool items ts) < 2 ^ 32 - 1"
  shows "\<exists>ts' t'. ts_insert ll th current threads ts = Some (threads(th := t'), ts') \<and>
    ts_inv items (threads(th := t')) ts' \<and> ts_pool items ts' = add_mset th (ts_pool items ts) \<and>
    th_sched t' = th_sched (threads th) \<and> th_flags t' = th_flags (threads th)"
proof -
  let ?N = NR_QUEUES
  obtain pri t' where e: "stable_effective_priority (threads th) = (pri, t')" by (cases "stable_effective_priority (threads th)")
  note E = stable_effective_fields [OF e]
  have valid: "pri_valid pri" using E(1) pri_valid_effective by simp
  obtain q where q: "q < ?N" "ts_insert_queue ts pri current = Some q"
    using ts_insert_queue_less [OF inv valid] by auto
  have len: "length (ts_queues ts) = ?N" "length (ts_priorities ts) = ?N" using inv by (simp_all add: ts_inv_def)
  note b = bucket_size_8 [OF len(1)]
  have p: "bucket pri < ?N" using bucket_less [OF valid] .
  let ?ts = "ts\<lparr>ts_queues := (ts_queues ts)[q := ll_push_back ll th (ts_queues ts ! q)]\<rparr>"
  have pool: "ts_pool items ?ts = add_mset th (ts_pool items ts)"
    using queued_push [OF laws, of q "ts_queues ts" th] q(1) len th by (simp add: ts_pool_def)
  have inv': "ts_inv items (threads(th := t')) ts" by (rule ts_inv_threads [OF inv]) (use th in auto)
  have "unat (ts_priorities ts ! bucket pri) \<le> size (ts_pool items ts)"
    using inv p by (simp add: ts_inv_def size_filter_mset_lesseq)
  then obtain n where n: "checked_add (ts_priorities ts ! bucket pri) 1 = Some n" "unat n = unat (ts_priorities ts ! bucket pri) + 1"
    using size by (auto simp: checked_add_def unat_word_ariths)
  obtain c where c: "checked_add (ts_count ts) 1 = Some c" "unat c = unat (ts_count ts) + 1"
    using size inv by (auto simp: ts_inv_def checked_add_def unat_word_ariths)
  let ?ts' = "?ts\<lparr>ts_priorities := (ts_priorities ts)[bucket pri := n], ts_count := c\<rparr>"
  have "ts_insert ll th current threads ts = Some (threads(th := t'), ?ts')"
    using e q len b p n c by (simp add: ts_insert_def bucket_def)
  moreover have "stable_bucket (threads(th := t')) th = bucket pri" using E(2) by (simp add: stable_bucket_def)
  then have "ts_inv items (threads(th := t')) ?ts'"
    using inv' pool n(2) c(2) p q(1) len by (auto simp: ts_inv_def ts_pool_def nth_list_update)
  ultimately show ?thesis using pool E(3,4) by (auto simp: ts_pool_def)
qed

lemma ts_take_spec:
  assumes laws: "linked_list_laws ll items" and inv: "ts_inv items threads ts"
  shows "if ts_pool items ts = {#} then ts_take ll threads ts = Some (None, ts\<lparr>take_idx := insert_idx ts\<rparr>)
    else \<exists>th ts'. ts_take ll threads ts = Some (Some th, ts') \<and> ts_inv items threads ts' \<and>
      ts_pool items ts = add_mset th (ts_pool items ts')"
proof -
  let ?N = NR_QUEUES
  have len: "length (ts_queues ts) = ?N" "length (ts_priorities ts) = ?N" using inv by (simp_all add: ts_inv_def)
  let ?qs = "map (\<lambda>i. (take_idx ts + i) mod ?N) [0..<?N]"
  have qs: "set ?qs = {0..<?N}"
  proof -
    have "q \<in> set ?qs" if "q < ?N" for q
    proof -
      have "(take_idx ts + (q + (?N - take_idx ts)) mod ?N) mod ?N = (q + ?N) mod ?N"
        using inv by (simp add: ts_inv_def mod_add_right_eq)
      then have "q = (take_idx ts + (q + (?N - take_idx ts)) mod ?N) mod ?N" using that by simp
      moreover have "(q + (?N - take_idx ts)) mod ?N < ?N" by (simp add: NR_QUEUES_def)
      ultimately show ?thesis unfolding set_map by (intro image_eqI) simp_all
    qed
    then show ?thesis by (auto simp: NR_QUEUES_def)
  qed
  show ?thesis
  proof (cases "ts_pool items ts = {#}")
    case True
    then have "take_first ll ?qs (ts_queues ts) = None"
      unfolding take_first_None [OF laws] qs using len by (simp add: ts_pool_def queued_empty_iff)
    then show ?thesis using True len by (simp add: ts_take_def)
  next
    case False
    then have "take_first ll ?qs (ts_queues ts) \<noteq> None"
      unfolding take_first_None [OF laws] qs using len by (auto simp: ts_pool_def queued_empty_iff)
    then obtain q th queues where t: "take_first ll ?qs (ts_queues ts) = Some (q, th, queues)" by auto
    have T: "q < ?N" "length queues = ?N" "queued items (ts_queues ts) = add_mset th (queued items queues)"
      using take_first_Some [OF laws _ t] qs len by auto
    let ?p = "stable_bucket threads th"
    have p: "?p < ?N" using bucket_less pri_valid_from_raw by (simp add: stable_bucket_def get_stable_effective_priority_def)
    have pos: "unat (ts_priorities ts ! ?p) > 0" "unat (ts_count ts) > 0"
      using inv p T(3) by (auto simp: ts_inv_def ts_pool_def)
    obtain c where c: "checked_sub (ts_count ts) 1 = Some c" "unat c = unat (ts_count ts) - 1"
      using pos by (auto simp: checked_sub_def word_le_nat_alt unat_sub)
    let ?i = "if q \<noteq> insert_idx ts \<and> ll_is_empty ll (queues ! q) then (q + 1) mod ?N else q"
    let ?ts = "ts\<lparr>ts_queues := queues, ts_count := c,
      ts_priorities := (ts_priorities ts)[?p := saturating_sub (ts_priorities ts ! ?p) 1], take_idx := ?i\<rparr>"
    have "ts_take ll threads ts = Some (Some th, ?ts)"
      using t c len p bucket_size_8 [OF len(1)] by (simp add: ts_take_def stable_bucket_def bucket_def Let_def)
    moreover have "?i < ?N" using T(1) by (simp add: NR_QUEUES_def)
    then have "ts_inv items threads ?ts"
      using inv T c p pos len by (auto simp: ts_inv_def ts_pool_def nth_list_update unat_saturating_sub)
    ultimately show ?thesis using False T(3) by (auto simp: ts_pool_def)
  qed
qed

section \<open>The run queue is a pool of threads\<close>

locale thread_pool =
  fixes inv :: "'s \<Rightarrow> bool"
    and pool :: "'s \<Rightarrow> 'a multiset"
    and fits :: "'a \<Rightarrow> 's \<Rightarrow> bool"
    and room :: nat
    and ins :: "'a \<Rightarrow> 's \<Rightarrow> (bool \<times> 's) option"
    and out :: "'s \<Rightarrow> ('a option \<times> 's) option"
  assumes insert_law: "inv s \<Longrightarrow> x \<notin># pool s \<Longrightarrow> fits x s \<Longrightarrow> size (pool s) < room \<Longrightarrow>
      \<exists>b s'. ins x s = Some (b, s') \<and> inv s' \<and> pool s' = add_mset x (pool s) \<and> (\<forall>y. fits y s' \<longleftrightarrow> fits y s)"
    and take_law: "inv s \<Longrightarrow>
      if pool s = {#} then \<exists>s'. out s = Some (None, s') \<and> inv s' \<and> pool s' = {#}
      else \<exists>x s'. out s = Some (Some x, s') \<and> inv s' \<and> pool s = add_mset x (pool s')"
begin

lemma fill:
  assumes "inv s" and "distinct xs" and "set xs \<inter> set_mset (pool s) = {}" and "list_all (\<lambda>x. fits x s) xs"
    and "size (pool s) + length xs \<le> room"
  shows "\<exists>b s'. enq_all ins xs s = Some (b, s') \<and> inv s' \<and> pool s' = pool s + mset xs"
  using assms
proof (induction xs arbitrary: s)
  case (Cons x xs)
  obtain b s1 where 1: "ins x s = Some (b, s1)" "inv s1" "pool s1 = add_mset x (pool s)" "\<forall>y. fits y s1 \<longleftrightarrow> fits y s"
    using insert_law [of s x] Cons.prems by auto
  then obtain b' s2 where "enq_all ins xs s1 = Some (b', s2)" "inv s2" "pool s2 = pool s1 + mset xs"
    using Cons.IH [of s1] Cons.prems by auto
  with 1 show ?case by auto
qed (simp, blast)

lemma drain:
  assumes "inv s" and "size (pool s) = n"
  shows "\<exists>xs s'. deq_many out n s = Some (map Some xs, s') \<and> mset xs = pool s \<and> inv s' \<and> pool s' = {#}"
  using assms
proof (induction n arbitrary: s)
  case (Suc n)
  then have "pool s \<noteq> {#}" by auto
  then obtain x s1 where 1: "out s = Some (Some x, s1)" "inv s1" "pool s = add_mset x (pool s1)"
    using take_law [OF Suc.prems(1)] by auto
  then obtain xs s' where "deq_many out n s1 = Some (map Some xs, s')" "mset xs = pool s1" "inv s'" "pool s' = {#}"
    using Suc.IH [of s1] Suc.prems(2) by auto
  with 1 show ?case by (intro exI [of _ "x # xs"] exI [of _ s']) simp
qed simp

text \<open>Every thread that is inserted is taken exactly once.\<close>

lemma fill_drain:
  assumes "inv s" and "pool s = {#}" and "distinct xs" and "list_all (\<lambda>x. fits x s) xs" and "length xs \<le> room"
  shows "\<exists>b s1 ys s2 s3. enq_all ins xs s = Some (b, s1) \<and> deq_many out (length xs) s1 = Some (map Some ys, s2) \<and>
    mset ys = mset xs \<and> out s2 = Some (None, s3)"
proof -
  obtain b s1 where 1: "enq_all ins xs s = Some (b, s1)" "inv s1" "pool s1 = mset xs"
    using fill [OF assms(1,3)] assms by auto
  then obtain ys s2 where "deq_many out (length xs) s1 = Some (map Some ys, s2)" "mset ys = mset xs" "inv s2" "pool s2 = {#}"
    using drain [of s1 "length xs"] by auto
  with 1 show ?thesis using take_law [of s2] by auto
qed

end

definition run_pool :: "('l \<Rightarrow> tid list) \<Rightarrow> 'l RunQueue \<Rightarrow> tid multiset" where
  "run_pool items rq = pq_pool items (realtime rq) + ts_pool items (timeshare rq) + pq_pool items (idle rq)"

definition unpinned :: "threads \<Rightarrow> tid \<Rightarrow> bool" where
  "unpinned threads th \<longleftrightarrow> pinned_to (th_sched (threads th)) = None"

definition run_inv :: "'l linked_list \<Rightarrow> ('l \<Rightarrow> tid list) \<Rightarrow> threads \<times> 'l RunQueue \<Rightarrow> bool" where
  "run_inv ll items = (\<lambda>(threads, rq). linked_list_laws ll items \<and>
     pq_inv items (realtime rq) \<and> ts_inv items threads (timeshare rq) \<and> pq_inv items (idle rq) \<and>
     (bit (run_flags rq) 0 \<longleftrightarrow> pq_pool items (realtime rq) \<noteq> {#}) \<and>
     (bit (run_flags rq) 1 \<longleftrightarrow> ts_pool items (timeshare rq) \<noteq> {#}) \<and>
     (bit (run_flags rq) 2 \<longleftrightarrow> pq_pool items (idle rq) \<noteq> {#}) \<and>
     unat (load rq) = size (run_pool items rq) \<and> unat (timeshare_load rq) = size (ts_pool items (timeshare rq)) \<and>
     unat (movable rq) = size {#th \<in># run_pool items rq. unpinned threads th#})"

lemma flag_tests:
  "w AND RQ_HAS_RT = 0 \<longleftrightarrow> \<not> bit w 0" "w AND RQ_HAS_TS = 0 \<longleftrightarrow> \<not> bit w 1" "w AND RQ_HAS_IL = 0 \<longleftrightarrow> \<not> bit w 2"
  using and_pow2_eq_0 [of w 2] by (simp_all add: RQ_HAS_RT_def RQ_HAS_TS_def RQ_HAS_IL_def and_1_eq_0 and_2_eq_0)

lemma flag_bits:
  "bit RQ_HAS_RT n \<longleftrightarrow> n = 0" "bit RQ_HAS_TS n \<longleftrightarrow> n = 1" "bit RQ_HAS_IL n \<longleftrightarrow> n = 2"
  using bit_pow2 [of 2 n, where 'a = 32] by (auto simp: RQ_HAS_RT_def RQ_HAS_TS_def RQ_HAS_IL_def)

lemmas flag_updates = flag_bits bit_or_iff bit_and_iff bit_not_iff

lemma run_is_empty_iff: "run_is_empty rq \<longleftrightarrow> \<not> bit (run_flags rq) 0 \<and> \<not> bit (run_flags rq) 1 \<and> \<not> bit (run_flags rq) 2"
proof -
  have "w AND (a OR b OR c) = 0 \<longleftrightarrow> w AND b = 0 \<and> w AND c = 0 \<and> w AND a = 0" for w a b c :: u32
    by (auto simp: bit.conj_disj_distrib or_eq_0_iff)
  then show ?thesis unfolding run_is_empty_def by (simp add: flag_tests)
qed

text \<open>The parts of the invariant.\<close>

lemma run_invD:
  assumes "run_inv ll items (threads, rq)"
  shows "linked_list_laws ll items" "pq_inv items (realtime rq)" "ts_inv items threads (timeshare rq)" "pq_inv items (idle rq)"
    "bit (run_flags rq) 0 \<longleftrightarrow> pq_pool items (realtime rq) \<noteq> {#}"
    "bit (run_flags rq) 1 \<longleftrightarrow> ts_pool items (timeshare rq) \<noteq> {#}"
    "bit (run_flags rq) 2 \<longleftrightarrow> pq_pool items (idle rq) \<noteq> {#}"
    "unat (load rq) = size (run_pool items rq)" "unat (timeshare_load rq) = size (ts_pool items (timeshare rq))"
    "unat (movable rq) = size {#th \<in># run_pool items rq. unpinned threads th#}"
  using assms by (simp_all add: run_inv_def)

lemma unat_inc32: "unat w < 2 ^ 32 - 1 \<Longrightarrow> unat (w + 1) = unat w + 1" for w :: u32
  by (simp add: unat_word_ariths)

lemma unat_dec32: "0 < unat w \<Longrightarrow> unat (w - 1) = unat w - 1" for w :: u32
  by (simp add: unat_sub word_le_nat_alt)

text \<open>What every insertion does to the counters.\<close>

definition enter_counts :: "threads \<Rightarrow> tid \<Rightarrow> 'l RunQueue \<Rightarrow> 'l RunQueue" where
  "enter_counts threads th rq =
     (let rq = (if pinned_to (th_sched (threads th)) = None then rq\<lparr>movable := movable rq + 1\<rparr> else rq);
          rq = rq\<lparr>load := load rq + 1\<rparr>
      in if from_raw (current_priority_raw rq) < effective_priority (threads th)
         then rq\<lparr>current_priority_raw := raw (effective_priority (threads th))\<rparr> else rq)"

lemma enter_counts_fields [simp]:
  "realtime (enter_counts threads th rq) = realtime rq" "timeshare (enter_counts threads th rq) = timeshare rq"
  "idle (enter_counts threads th rq) = idle rq" "run_flags (enter_counts threads th rq) = run_flags rq"
  "timeshare_load (enter_counts threads th rq) = timeshare_load rq" "load (enter_counts threads th rq) = load rq + 1"
  "movable (enter_counts threads th rq) = (if unpinned threads th then movable rq + 1 else movable rq)"
  by (simp_all add: enter_counts_def unpinned_def Let_def)

lemma run_insert_enter:
  "run_insert ll ticks th current threads rq = do {
     assert_that (\<not> is_idle_thread (threads th));
     let rq = enter_counts threads th rq;
     case pri_class (effective_priority (threads th)) of
       Realtime \<Rightarrow> do {
         q \<leftarrow> pq_insert ll threads th (realtime rq);
         Some (True, threads, rq\<lparr>realtime := q, run_flags := run_flags rq OR RQ_HAS_RT\<rparr>) }
     | User \<Rightarrow>
         if deadline (th_sched (threads th)) \<le> ticks then do {
           q \<leftarrow> pq_insert ll threads th (realtime rq);
           Some (True, threads, rq\<lparr>realtime := q, run_flags := run_flags rq OR RQ_HAS_RT\<rparr>) }
         else do {
           (threads, q) \<leftarrow> ts_insert ll th current threads (timeshare rq);
           Some (True, threads, rq\<lparr>timeshare_load := timeshare_load rq + 1, timeshare := q,
             run_flags := run_flags rq OR RQ_HAS_TS\<rparr>) }
     | _ \<Rightarrow> do {
         q \<leftarrow> pq_insert ll threads th (idle rq);
         Some (False, threads, rq\<lparr>idle := q, run_flags := run_flags rq OR RQ_HAS_IL\<rparr>) } }"
  unfolding run_insert_def enter_counts_def Let_def by (rule refl)

lemma run_insert_counts:
  assumes inv: "run_inv ll items (threads, rq)" and size: "size (run_pool items rq) < 2 ^ 32 - 1"
  shows "unat (load rq + 1) = size (run_pool items rq) + 1" "unat (timeshare_load rq + 1) = size (ts_pool items (timeshare rq)) + 1"
    "unat (movable rq + 1) = size {#th \<in># run_pool items rq. unpinned threads th#} + 1"
proof -
  note I = run_invD [OF inv]
  have "size {#th \<in># run_pool items rq. unpinned threads th#} \<le> size (run_pool items rq)"
    by (rule size_filter_mset_lesseq)
  then have "unat (movable rq) < 2 ^ 32 - 1" using I(10) size by linarith
  then show "unat (movable rq + 1) = size {#th \<in># run_pool items rq. unpinned threads th#} + 1"
    using I(10) by (simp only: unat_inc32)
  show "unat (load rq + 1) = size (run_pool items rq) + 1" "unat (timeshare_load rq + 1) = size (ts_pool items (timeshare rq)) + 1"
    using I(8,9) size by (simp_all add: unat_inc32 run_pool_def)
qed

lemma run_insert_spec:
  assumes inv: "run_inv ll items (threads, rq)" and th: "th \<notin># run_pool items rq" "\<not> is_idle_thread (threads th)"
    and size: "size (run_pool items rq) < 2 ^ 32 - 1"
  shows "\<exists>b threads' rq'. run_insert ll ticks th current threads rq = Some (b, threads', rq') \<and>
    run_inv ll items (threads', rq') \<and> run_pool items rq' = add_mset th (run_pool items rq) \<and>
    (\<forall>t. th_flags (threads' t) = th_flags (threads t))"
proof -
  note I = run_invD [OF inv]
  note C = run_insert_counts [OF inv size]
  let ?rq = "enter_counts threads th rq"
  let ?rt = "\<lambda>q. ?rq\<lparr>realtime := q, run_flags := run_flags ?rq OR RQ_HAS_RT\<rparr>"
  let ?ts = "\<lambda>q. ?rq\<lparr>timeshare_load := timeshare_load ?rq + 1, timeshare := q, run_flags := run_flags ?rq OR RQ_HAS_TS\<rparr>"
  let ?il = "\<lambda>q. ?rq\<lparr>idle := q, run_flags := run_flags ?rq OR RQ_HAS_IL\<rparr>"
  have th': "th \<notin># pq_pool items (realtime rq)" "th \<notin># ts_pool items (timeshare rq)" "th \<notin># pq_pool items (idle rq)"
    and size': "size (pq_pool items (realtime rq)) < 2 ^ 32" "size (ts_pool items (timeshare rq)) < 2 ^ 32 - 1"
      "size (pq_pool items (idle rq)) < 2 ^ 32"
    using th size by (auto simp: run_pool_def)
  obtain rt where rt: "pq_insert ll threads th (realtime rq) = Some rt" "pq_inv items rt"
    "pq_pool items rt = add_mset th (pq_pool items (realtime rq))"
    using pq_insert_spec [OF I(1,2) th'(1) size'(1)] by blast
  obtain il where il: "pq_insert ll threads th (idle rq) = Some il" "pq_inv items il"
    "pq_pool items il = add_mset th (pq_pool items (idle rq))"
    using pq_insert_spec [OF I(1,4) th'(3) size'(3)] by blast
  obtain ts t' where ts: "ts_insert ll th current threads (timeshare rq) = Some (threads(th := t'), ts)"
    "ts_inv items (threads(th := t')) ts" "ts_pool items ts = add_mset th (ts_pool items (timeshare rq))"
    "th_sched t' = th_sched (threads th)" "th_flags t' = th_flags (threads th)"
    using ts_insert_spec [OF I(1,3) th'(2) size'(2)] by blast
  have up: "unpinned (threads(th := t')) = unpinned threads" using ts(4) by (auto simp: unpinned_def fun_eq_iff)
  have RT: "run_inv ll items (threads, ?rt rt)" "run_pool items (?rt rt) = add_mset th (run_pool items rq)"
    using I C rt by (auto simp: run_inv_def run_pool_def flag_updates)
  have IL: "run_inv ll items (threads, ?il il)" "run_pool items (?il il) = add_mset th (run_pool items rq)"
    using I C il by (auto simp: run_inv_def run_pool_def flag_updates)
  have TS: "run_inv ll items (threads(th := t'), ?ts ts)" "run_pool items (?ts ts) = add_mset th (run_pool items rq)"
    using I C ts up by (auto simp: run_inv_def run_pool_def flag_updates)
  show ?thesis
    unfolding run_insert_enter Let_def using th(2) rt(1) il(1) ts(1,5) RT IL TS
    by (cases "pri_class (effective_priority (threads th))") auto
qed

lemma leave_movable_eq:
  "(unpinned threads th \<Longrightarrow> 0 < unat (movable rq)) \<Longrightarrow>
   leave_movable threads th rq = Some (rq\<lparr>movable := (if unpinned threads th then movable rq - 1 else movable rq)\<rparr>)"
  by (auto simp: leave_movable_def unpinned_def word_less_nat_alt)

text \<open>Taking from one of the three queues: nothing when it is empty, else one of its threads.\<close>

lemma take_realtime_spec:
  assumes inv: "run_inv ll items (threads, rq)"
  shows "if pq_pool items (realtime rq) = {#} then take_realtime ll threads rq = Some (None, rq)
    else \<exists>th rq'. take_realtime ll threads rq = Some (Some th, rq') \<and> run_inv ll items (threads, rq') \<and>
      run_pool items rq = add_mset th (run_pool items rq') \<and> th \<in># pq_pool items (realtime rq)"
proof (cases "pq_pool items (realtime rq) = {#}")
  case True
  then show ?thesis using run_invD(5) [OF inv] by (simp add: take_realtime_def flag_tests)
next
  case False
  note I = run_invD [OF inv]
  obtain th q where t: "pq_take ll (realtime rq) = Some (Some th, q)" "pq_inv items q"
    "pq_pool items (realtime rq) = add_mset th (pq_pool items q)"
    using pq_take_spec [OF I(1,2)] False by auto
  have e: "pq_is_empty q \<longleftrightarrow> pq_pool items q = {#}"
    using t(2) by (auto simp: pq_is_empty_def pq_inv_def unat_eq_zero)
  have pos: "0 < unat (load rq)" "unpinned threads th \<Longrightarrow> 0 < unat (movable rq)"
    using I(8,10) t(3) by (auto simp: run_pool_def)
  let ?f = "if pq_is_empty q then run_flags rq AND NOT RQ_HAS_RT else run_flags rq"
  have flags: "bit ?f 0 \<longleftrightarrow> pq_pool items q \<noteq> {#}" "bit ?f 1 \<longleftrightarrow> bit (run_flags rq) 1" "bit ?f 2 \<longleftrightarrow> bit (run_flags rq) 2"
    using e I(5) t(3) by (auto simp: flag_updates)
  obtain rq' where r: "take_realtime ll threads rq = Some (Some th, rq')" "realtime rq' = q" "timeshare rq' = timeshare rq"
    "idle rq' = idle rq" "run_flags rq' = ?f" "load rq' = load rq - 1" "timeshare_load rq' = timeshare_load rq"
    "movable rq' = (if unpinned threads th then movable rq - 1 else movable rq)"
    using t(1) False I(5) pos(2) by (cases "pq_is_empty q") (auto simp: take_realtime_def flag_tests leave_movable_eq Let_def)
  show ?thesis
    using False I t flags pos r by (auto simp: run_inv_def run_pool_def unat_dec32)
qed

lemma take_idle_spec:
  assumes inv: "run_inv ll items (threads, rq)"
  shows "if pq_pool items (idle rq) = {#} then take_idle ll threads rq = Some (None, rq)
    else \<exists>th rq'. take_idle ll threads rq = Some (Some th, rq') \<and> run_inv ll items (threads, rq') \<and>
      run_pool items rq = add_mset th (run_pool items rq') \<and> th \<in># pq_pool items (idle rq)"
proof (cases "pq_pool items (idle rq) = {#}")
  case True
  then show ?thesis using run_invD(7) [OF inv] by (simp add: take_idle_def flag_tests)
next
  case False
  note I = run_invD [OF inv]
  obtain th q where t: "pq_take ll (idle rq) = Some (Some th, q)" "pq_inv items q"
    "pq_pool items (idle rq) = add_mset th (pq_pool items q)"
    using pq_take_spec [OF I(1,4)] False by auto
  have e: "pq_is_empty q \<longleftrightarrow> pq_pool items q = {#}"
    using t(2) by (auto simp: pq_is_empty_def pq_inv_def unat_eq_zero)
  have pos: "0 < unat (load rq)" "unpinned threads th \<Longrightarrow> 0 < unat (movable rq)"
    using I(8,10) t(3) by (auto simp: run_pool_def)
  let ?f = "if pq_is_empty q then run_flags rq AND NOT RQ_HAS_IL else run_flags rq"
  have flags: "bit ?f 2 \<longleftrightarrow> pq_pool items q \<noteq> {#}" "bit ?f 1 \<longleftrightarrow> bit (run_flags rq) 1" "bit ?f 0 \<longleftrightarrow> bit (run_flags rq) 0"
    using e I(7) t(3) by (auto simp: flag_updates)
  obtain rq' where r: "take_idle ll threads rq = Some (Some th, rq')" "idle rq' = q" "timeshare rq' = timeshare rq"
    "realtime rq' = realtime rq" "run_flags rq' = ?f" "load rq' = load rq - 1" "timeshare_load rq' = timeshare_load rq"
    "movable rq' = (if unpinned threads th then movable rq - 1 else movable rq)"
    using t(1) False I(7) pos(2) by (cases "pq_is_empty q") (auto simp: take_idle_def flag_tests leave_movable_eq Let_def)
  show ?thesis
    using False I t flags pos r by (auto simp: run_inv_def run_pool_def unat_dec32)
qed

lemma recalc_fields [simp]:
  "realtime (recalc_priority_timeshare ll rq) = realtime rq" "timeshare (recalc_priority_timeshare ll rq) = timeshare rq"
  "idle (recalc_priority_timeshare ll rq) = idle rq" "run_flags (recalc_priority_timeshare ll rq) = run_flags rq"
  "load (recalc_priority_timeshare ll rq) = load rq" "movable (recalc_priority_timeshare ll rq) = movable rq"
  "timeshare_load (recalc_priority_timeshare ll rq) = timeshare_load rq"
  by (simp_all add: recalc_priority_timeshare_def)

lemma take_timeshare_spec:
  assumes inv: "run_inv ll items (threads, rq)"
  shows "if ts_pool items (timeshare rq) = {#} then take_timeshare ll threads rq = Some (None, rq)
    else \<exists>th rq'. take_timeshare ll threads rq = Some (Some th, rq') \<and> run_inv ll items (threads, rq') \<and>
      run_pool items rq = add_mset th (run_pool items rq') \<and> th \<in># ts_pool items (timeshare rq)"
proof (cases "ts_pool items (timeshare rq) = {#}")
  case True
  then show ?thesis using run_invD(6) [OF inv] by (simp add: take_timeshare_def flag_tests)
next
  case False
  note I = run_invD [OF inv]
  obtain th q where t: "ts_take ll threads (timeshare rq) = Some (Some th, q)" "ts_inv items threads q"
    "ts_pool items (timeshare rq) = add_mset th (ts_pool items q)"
    using ts_take_spec [OF I(1,3)] False by auto
  have e: "ts_is_empty q \<longleftrightarrow> ts_pool items q = {#}"
    using t(2) by (auto simp: ts_is_empty_def ts_inv_def unat_eq_zero)
  have pos: "0 < unat (load rq)" "0 < unat (timeshare_load rq)" "unpinned threads th \<Longrightarrow> 0 < unat (movable rq)"
    using I(8-10) t(3) by (auto simp: run_pool_def)
  let ?f = "if ts_is_empty q then run_flags rq AND NOT RQ_HAS_TS else run_flags rq"
  have flags: "bit ?f 1 \<longleftrightarrow> ts_pool items q \<noteq> {#}" "bit ?f 0 \<longleftrightarrow> bit (run_flags rq) 0" "bit ?f 2 \<longleftrightarrow> bit (run_flags rq) 2"
    using e I(6) t(3) by (auto simp: flag_updates)
  obtain rq' where r: "take_timeshare ll threads rq = Some (Some th, rq')" "timeshare rq' = q" "realtime rq' = realtime rq"
    "idle rq' = idle rq" "run_flags rq' = ?f" "load rq' = load rq - 1" "timeshare_load rq' = timeshare_load rq - 1"
    "movable rq' = (if unpinned threads th then movable rq - 1 else movable rq)"
    using t(1) False I(6) pos(3) by (cases "ts_is_empty q") (auto simp: take_timeshare_def flag_tests leave_movable_eq Let_def)
  show ?thesis
    using False I t flags pos r by (auto simp: run_inv_def run_pool_def unat_dec32)
qed

lemma run_take_spec:
  assumes inv: "run_inv ll items (threads, rq)"
  shows "if run_pool items rq = {#} \<or> stealing \<and> movable rq = 0 then run_take ll stealing threads rq = Some (None, rq)
    else \<exists>th rq'. run_take ll stealing threads rq = Some (Some th, rq') \<and> run_inv ll items (threads, rq') \<and>
      run_pool items rq = add_mset th (run_pool items rq') \<and>
      th \<in># (if pq_pool items (realtime rq) \<noteq> {#} then pq_pool items (realtime rq)
            else if ts_pool items (timeshare rq) \<noteq> {#} then ts_pool items (timeshare rq) else pq_pool items (idle rq))"
proof -
  have "run_is_empty rq \<longleftrightarrow> run_pool items rq = {#}"
    using run_invD(5-7) [OF inv] by (auto simp: run_is_empty_iff run_pool_def)
  then show ?thesis
    using take_realtime_spec [OF inv] take_timeshare_spec [OF inv] take_idle_spec [OF inv]
    by (auto simp: run_take_def run_pool_def split: if_splits)
qed

lemma run_new_inv:
  assumes "linked_list_laws ll items"
  shows "run_inv ll items (threads, RunQueue_new ll NR_QUEUES)" and "run_pool items (RunQueue_new ll NR_QUEUES) = {#}"
  using assms
  by (auto simp: run_inv_def RunQueue_new_def PriorityQueue_new_def TimeshareQueue_new_def pq_inv_def ts_inv_def
    pq_pool_def ts_pool_def run_pool_def NR_QUEUES_def)

definition pool_insert :: "'l linked_list \<Rightarrow> u64 \<Rightarrow> bool \<Rightarrow> tid \<Rightarrow> threads \<times> 'l RunQueue \<Rightarrow> (bool \<times> threads \<times> 'l RunQueue) option" where
  "pool_insert ll ticks current th = (\<lambda>(threads, rq). run_insert ll ticks th current threads rq)"

definition pool_take :: "'l linked_list \<Rightarrow> threads \<times> 'l RunQueue \<Rightarrow> (tid option \<times> threads \<times> 'l RunQueue) option" where
  "pool_take ll = (\<lambda>(threads, rq). do { (th, rq) \<leftarrow> run_take ll False threads rq; Some (th, threads, rq) })"

interpretation run: thread_pool "run_inv ll items" "\<lambda>(threads, rq). run_pool items rq"
  "\<lambda>th (threads, rq). \<not> is_idle_thread (threads th)" "2 ^ 32 - 1" "pool_insert ll ticks current" "pool_take ll"
  for ll items ticks current
proof
  fix s x
  assume "run_inv ll items s" "x \<notin># (\<lambda>(threads, rq). run_pool items rq) s"
    "(\<lambda>th (threads, rq). \<not> is_idle_thread (threads th)) x s" "size ((\<lambda>(threads, rq). run_pool items rq) s) < 2 ^ 32 - 1"
  then show "\<exists>b s'. pool_insert ll ticks current x s = Some (b, s') \<and> run_inv ll items s' \<and>
      (\<lambda>(threads, rq). run_pool items rq) s' = add_mset x ((\<lambda>(threads, rq). run_pool items rq) s) \<and>
      (\<forall>y. (\<lambda>th (threads, rq). \<not> is_idle_thread (threads th)) y s' \<longleftrightarrow> (\<lambda>th (threads, rq). \<not> is_idle_thread (threads th)) y s)"
    using run_insert_spec [of ll items "fst s" "snd s" x ticks current]
    by (cases s) (fastforce simp: pool_insert_def is_idle_thread_def)
next
  fix s
  assume "run_inv ll items s"
  then show "if (\<lambda>(threads, rq). run_pool items rq) s = {#}
    then \<exists>s'. pool_take ll s = Some (None, s') \<and> run_inv ll items s' \<and> (\<lambda>(threads, rq). run_pool items rq) s' = {#}
    else \<exists>x s'. pool_take ll s = Some (Some x, s') \<and> run_inv ll items s' \<and>
      (\<lambda>(threads, rq). run_pool items rq) s = add_mset x ((\<lambda>(threads, rq). run_pool items rq) s')"
    using run_take_spec [of ll items "fst s" "snd s" False] by (cases s) (fastforce simp: pool_take_def)
qed

section \<open>Highest priorities\<close>

lemma find_rev_upt:
  assumes "i < n" and "P i" and "\<And>j. i < j \<Longrightarrow> j < n \<Longrightarrow> \<not> P j"
  shows "List.find P (rev [0..<n]) = Some i"
  using assms by (induction n) (auto simp: less_Suc_eq)

lemma pq_highest_priority_eq:
  assumes "linked_list_laws ll items" and "pq_inv items pq" and "q < NR_QUEUES" and "items (pq_queues pq ! q) \<noteq> []"
    and "\<And>r. q < r \<Longrightarrow> r < NR_QUEUES \<Longrightarrow> items (pq_queues pq ! r) = []"
  shows "pq_highest_priority ll pq = Some (of_nat (q * 16))"
proof -
  have len: "length (pq_queues pq) = NR_QUEUES" using assms(2) by (simp add: pq_inv_def)
  have "pq_pool items pq \<noteq> {#}" using assms(3,4) len by (auto simp: pq_pool_def queued_empty_iff)
  then have "pq_count pq \<noteq> 0" using assms(2) by (auto simp: pq_inv_def)
  moreover have "List.find (\<lambda>q. \<not> ll_is_empty ll (pq_queues pq ! q)) (rev [0..<NR_QUEUES]) = Some q"
    using assms by (intro find_rev_upt) (auto simp: linked_list_laws_def)
  ultimately show ?thesis using len bucket_size_8 [OF len] by (simp add: pq_highest_priority_def)
qed

lemma pq_new_inv: "linked_list_laws ll items \<Longrightarrow> pq_inv items (PriorityQueue_new ll NR_QUEUES)"
  "linked_list_laws ll items \<Longrightarrow> pq_pool items (PriorityQueue_new ll NR_QUEUES) = {#}"
  by (simp_all add: pq_inv_def pq_pool_def PriorityQueue_new_def)

section \<open>Properties\<close>

text \<open>Linked lists exist: the lists of the logic satisfy the laws.\<close>

definition plain_list :: "tid list linked_list" where
  "plain_list = \<lparr>ll_new = [], ll_push_back = (\<lambda>x l. l @ [x]),
     ll_pop_front = (\<lambda>l. case l of [] \<Rightarrow> None | x # xs \<Rightarrow> Some (x, xs)), ll_is_empty = (\<lambda>l. l = [])\<rparr>"

lemma plain_list_laws: "linked_list_laws plain_list (\<lambda>l. l)"
  by (auto simp: linked_list_laws_def plain_list_def)





text \<open>
  C19: the priority the timeshare queue reports is that of the highest bucket of its threads'
  stable priorities, in every state that satisfies the invariant the operations keep.
\<close>

theorem timeshare_highest_priority:
  assumes "ts_inv items threads ts" and "th \<in># ts_pool items ts"
    and "\<forall>t\<in>#ts_pool items ts. stable_bucket threads t \<le> stable_bucket threads th"
  shows "ts_highest_priority ts = Some (of_nat (stable_bucket threads th * 16))"
proof -
  let ?b = "stable_bucket threads th"
  have len: "length (ts_queues ts) = NR_QUEUES" using assms(1) by (simp add: ts_inv_def)
  have b: "?b < NR_QUEUES" using bucket_less pri_valid_from_raw by (simp add: stable_bucket_def get_stable_effective_priority_def)
  have P: "ts_priorities ts ! i > 0 \<longleftrightarrow> {#t \<in># ts_pool items ts. stable_bucket threads t = i#} \<noteq> {#}" if "i < NR_QUEUES" for i
    using assms(1) that unfolding ts_inv_def word_less_nat_alt nonempty_has_size by simp
  have "List.find (\<lambda>i. ts_priorities ts ! i > 0) (rev [0..<NR_QUEUES]) = Some ?b"
    using assms(2,3) b P by (intro find_rev_upt) fastforce+
  moreover have "ts_count ts \<noteq> 0" using assms(1,2) by (auto simp: ts_inv_def)
  ultimately show ?thesis using len bucket_size_8 [OF len] by (simp add: ts_highest_priority_def ts_is_empty_def)
qed

theorem timeshare_highest_priority_witness:
  "\<exists>threads ts. ts_insert plain_list 3 False (\<lambda>_. user_thread) (TimeshareQueue_new plain_list NR_QUEUES) = Some (threads, ts) \<and>
     ts_highest_priority ts = Some 64"
proof -
  have new: "ts_inv (\<lambda>l. l) (\<lambda>_. user_thread) (TimeshareQueue_new plain_list NR_QUEUES)"
    "ts_pool (\<lambda>l. l) (TimeshareQueue_new plain_list NR_QUEUES) = {#}"
    using plain_list_laws by (simp_all add: ts_inv_def TimeshareQueue_new_def ts_pool_def NR_QUEUES_def queued_def plain_list_def)
  obtain ts t' where i: "ts_insert plain_list 3 False (\<lambda>_. user_thread) (TimeshareQueue_new plain_list NR_QUEUES) =
      Some ((\<lambda>_. user_thread)(3 := t'), ts)" "ts_inv (\<lambda>l. l) ((\<lambda>_. user_thread)(3 := t')) ts" "ts_pool (\<lambda>l. l) ts = {#3#}"
    using ts_insert_spec [OF plain_list_laws new(1), of 3 False] new(2) by auto
  have t': "t' = snd (stable_effective_priority user_thread)"
    using i(1) by (auto simp: ts_insert_def Let_def exec_simps fun_eq_iff split: prod.splits if_splits)
  have "stable_bucket ((\<lambda>_. user_thread)(3 := t')) 3 = 4"
    using from_raw_raw [of USER]
    by (simp add: t' stable_bucket_def stable_effective_priority_def get_stable_effective_priority_def user_thread_pri
      bucket_def pri_valid_def USER_def MAX_PRIORITY_def Let_def)
  then show ?thesis using timeshare_highest_priority [OF i(2), of 3] i(1,3) by auto
qed

text \<open>
  C20: a time slice is between 2 and 100 ticks, and computing a deadline from the load never
  overflows and is at most 100 ticks for each thread of the queue.
\<close>

theorem timeslice_bounds:
  "2 \<le> run_timeslice c rq \<and> run_timeslice c rq \<le> 100 \<and>
   (\<exists>d. run_deadline c rq = Some d \<and> unat d \<le> 100 * unat (load rq))"
proof -
  have "unat (DEFAULT_TIMESLICE_TICKS div timeshare_load rq) \<le> 32"
    by (simp add: unat_div DEFAULT_TIMESLICE_TICKS_def)
  then have b: "2 \<le> unat (run_timeslice c rq)" "unat (run_timeslice c rq) \<le> 100"
    by (cases c; simp add: run_timeslice_def unat_ucast MAX_TIMESLICE_TICKS_def MIN_TIMESLICE_TICKS_def max_def
      word_le_nat_alt)+
  have l: "unat (ucast (load rq) :: u64) = unat (load rq)"
    using unat_word_less [of "load rq"] by (simp add: unat_ucast)
  have m: "unat (run_timeslice c rq) * unat (load rq) \<le> 100 * unat (load rq)" using b by simp
  have "100 * unat (load rq) < 2 ^ 64" using unat_word_less [of "load rq"] by simp
  with m have "unat (run_timeslice c rq) * unat (load rq) < 2 ^ 64" by (rule le_less_trans)
  then show ?thesis
    using b m l by (auto simp: run_deadline_def checked_mul_def word_le_nat_alt unat_word_ariths)
qed


definition two_threads :: threads where
  "two_threads th = user_thread\<lparr>th_priority := raw (if th = 0 then REALTIME else INTERRUPT),
     th_sched := (if th = 0 then pin_cpu 3 ThreadSched_default else ThreadSched_default)\<rparr>"

lemma two_threads_pri: "effective_priority (two_threads th) = (if th = 0 then REALTIME else INTERRUPT)"
  using from_raw_raw [of REALTIME] from_raw_raw [of INTERRUPT]
  by (simp add: two_threads_def effective_priority_def has_donated_def user_thread_def pri_valid_def REALTIME_def INTERRUPT_def
    MAX_PRIORITY_def)


lemma two_threads_fields:
  "is_idle_thread (two_threads th) \<longleftrightarrow> False" "unpinned two_threads th \<longleftrightarrow> th \<noteq> 0" "pinned_to (th_sched (two_threads 0)) = Some 3"
  by (simp_all add: two_threads_def is_idle_thread_def user_thread_def unpinned_def pinned_to_def pin_cpu_def ThreadSched_default_def)

lemma bucket_consts: "bucket REALTIME = 4" "bucket INTERRUPT = 7" "pri_class REALTIME = Realtime" "pri_class INTERRUPT = Realtime"
  by (simp_all add: bucket_def REALTIME_def INTERRUPT_def MAX_PRIORITY_def)

lemma pq_insert_realtime:
  assumes "length (pq_queues pq) = NR_QUEUES" and "pri_class (effective_priority (threads th)) = Realtime"
    and "unat (pq_count pq) < 100"
  shows "pq_insert ll threads th pq = Some \<lparr>pq_count = pq_count pq + 1, pq_queues = (pq_queues pq)
     [bucket (effective_priority (threads th)) := ll_push_back ll th (pq_queues pq ! bucket (effective_priority (threads th)))]\<rparr>"
  using assms bucket_size_8 [OF assms(1)] bucket_less [OF pri_valid_effective, of "threads th"]
  by (simp add: pq_insert_def Let_def bucket_def [symmetric] checked_add_def)


end
