(* ===== verification/Id_Counter.thy ===== *)
theory Id_Counter
  imports Prelude "HOL-Library.Multiset"
begin

text \<open>
  Unique identifiers with reuse (\<^verbatim>\<open>src/kernel/src/idcounter.rs\<close>).  The pool of released ids is
  absent until the first release.  An operation is atomic, by the lock of the pool or by the
  fetch-and-add of the counter.
\<close>

record IdCounter =
  id_counter :: u64
  id_reuse :: "u64 list option"

definition IdCounter_default :: IdCounter where
  "IdCounter_default = \<lparr>id_counter = 0, id_reuse = None\<rparr>"

definition IdCounter_new :: IdCounter where
  "IdCounter_new = \<lparr>id_counter = 1, id_reuse = None\<rparr>"

text \<open>A vector grows and shrinks at its end.\<close>

definition vec_pop :: "'a list \<Rightarrow> ('a \<times> 'a list) option" where
  "vec_pop xs = (if xs = [] then None else Some (last xs, butlast xs))"

definition next_simple :: "IdCounter \<Rightarrow> u64 \<times> IdCounter" where
  "next_simple c =
     (case Option.bind (id_reuse c) vec_pop of
        Some (i, ids) \<Rightarrow> (i, c\<lparr>id_reuse := Some ids\<rparr>)
      | None \<Rightarrow> (id_counter c, c\<lparr>id_counter := id_counter c + 1\<rparr>))"

definition release_simple :: "u64 \<Rightarrow> IdCounter \<Rightarrow> IdCounter option" where
  "release_simple i c = do {
     assert_that (i > 0);
     let ids = (case id_reuse c of None \<Rightarrow> [] | Some ids \<Rightarrow> ids);
     Some (c\<lparr>id_reuse := Some (ids @ [i])\<rparr>) }"

text \<open>
  A client that holds the ids it was given, and gives back some of them.  An operation that
  names an id that is not held is skipped: an \<^verbatim>\<open>Id\<close> is released when its owner drops it.
\<close>

datatype id_op = Id_next | Id_release u64

fun id_exec1 :: "id_op \<Rightarrow> u64 multiset \<times> IdCounter \<Rightarrow> (u64 multiset \<times> IdCounter) option" where
  "id_exec1 Id_next (held, c) = (let (i, c) = next_simple c in Some (add_mset i held, c))"
| "id_exec1 (Id_release i) (held, c) =
     (if i \<in># held then do { c \<leftarrow> release_simple i c; Some (held - {#i#}, c) } else Some (held, c))"

section \<open>The ids in use\<close>

definition free_ids :: "IdCounter \<Rightarrow> u64 list" where
  "free_ids c = (case id_reuse c of None \<Rightarrow> [] | Some ids \<Rightarrow> ids)"

text \<open>The ids below the counter are each held once or free once.\<close>

definition id_inv :: "u64 multiset \<times> IdCounter \<Rightarrow> bool" where
  "id_inv = (\<lambda>(held, c). 0 < id_counter c \<and>
     held + mset (free_ids c) = mset_set {i. 0 < i \<and> i < id_counter c})"

lemma vec_pop_Some: "vec_pop xs = Some (x, ys) \<longleftrightarrow> xs = ys @ [x]"
  by (auto simp: vec_pop_def)

lemma ids_below_Suc:
  fixes n :: u64
  assumes "0 < n" and "unat n < 2 ^ 64 - 1"
  shows "{i. 0 < i \<and> i < n + 1} = insert n {i. 0 < i \<and> i < n}"
proof -
  have "unat (n + 1) = unat n + 1" using assms(2) by (simp add: unat_word_ariths)
  then have "i < n + 1 \<longleftrightarrow> i = n \<or> i < n" for i
    by (auto simp: word_less_nat_alt word_unat_eq_iff)
  then show ?thesis using assms(1) by auto
qed

lemma next_simple_cases:
  "(\<exists>ids i. id_reuse c = Some (ids @ [i]) \<and> next_simple c = (i, c\<lparr>id_reuse := Some ids\<rparr>)) \<or>
   free_ids c = [] \<and> next_simple c = (id_counter c, c\<lparr>id_counter := id_counter c + 1\<rparr>)"
proof (cases "free_ids c")
  case Nil
  then show ?thesis by (auto simp: next_simple_def free_ids_def vec_pop_def split: option.splits)
next
  case (Cons x xs)
  then obtain ids i where "id_reuse c = Some (ids @ [i])"
    by (cases "free_ids c" rule: rev_cases) (auto simp: free_ids_def split: option.splits)
  then show ?thesis by (auto simp: next_simple_def vec_pop_def)
qed

lemma id_exec1_inv:
  assumes inv: "id_inv (held, c)" and room: "unat (id_counter c) < 2 ^ 64 - 1"
  shows "\<exists>held' c'. id_exec1 op (held, c) = Some (held', c') \<and> id_inv (held', c') \<and>
    unat (id_counter c') \<le> unat (id_counter c) + 1"
proof (cases op)
  case Id_next
  have u: "unat (id_counter c + 1) = unat (id_counter c) + 1" using room by (simp add: unat_word_ariths)
  show ?thesis
    using next_simple_cases [of c]
  proof
    assume "\<exists>ids i. id_reuse c = Some (ids @ [i]) \<and> next_simple c = (i, c\<lparr>id_reuse := Some ids\<rparr>)"
    then show ?thesis using Id_next inv by (auto simp: id_inv_def free_ids_def)
  next
    assume n: "free_ids c = [] \<and> next_simple c = (id_counter c, c\<lparr>id_counter := id_counter c + 1\<rparr>)"
    then have "id_reuse c = None \<or> id_reuse c = Some []" by (auto simp: free_ids_def split: option.splits)
    moreover have "0 < id_counter c + 1" using u by (simp add: word_less_nat_alt)
    ultimately show ?thesis
      using Id_next inv n u ids_below_Suc [OF _ room] by (auto simp: id_inv_def free_ids_def)
  qed
next
  case (Id_release i)
  show ?thesis
  proof (cases "i \<in># held")
    case True
    then have "i \<in># held + mset (free_ids c)" by simp
    moreover have "held + mset (free_ids c) = mset_set {i. 0 < i \<and> i < id_counter c}" using inv by (simp add: id_inv_def)
    ultimately have "0 < i" by (simp only:) simp
    moreover obtain h where "held = add_mset i h" using True by (metis insert_DiffM)
    ultimately show ?thesis
      using Id_release inv by (auto simp: release_simple_def id_inv_def free_ids_def split: option.splits)
  qed (use Id_release inv in auto)
qed

lemma id_exec_inv:
  assumes "id_inv (held, c)" and "unat (id_counter c) + length ops < 2 ^ 64"
  shows "\<exists>held' c'. foldM id_exec1 ops (held, c) = Some (held', c') \<and> id_inv (held', c')"
  using assms
proof (induction ops arbitrary: held c)
  case (Cons op ops)
  obtain held1 c1 where "id_exec1 op (held, c) = Some (held1, c1)" "id_inv (held1, c1)"
    "unat (id_counter c1) \<le> unat (id_counter c) + 1"
    using id_exec1_inv [of held c op] Cons.prems by auto
  with Cons.IH [of held1 c1] Cons.prems(2) show ?case by auto
qed simp

section \<open>Properties\<close>



end
