(* ===== verification/Hash_Table.thy ===== *)
theory Hash_Table
  imports Prelude
begin

text \<open>
  The persistent hash table (\<^verbatim>\<open>src/lib/twizzler/src/collections/hachage/raw/mod.rs\<close> and
  \<^verbatim>\<open>control/tag.rs\<close>): open addressing with a tag byte for every bucket and linear probing.

  The memory behind the table is part of its record: the tags are a list as long as the number
  of buckets (empty while the control pointer is null), the entries a function from the index of a
  bucket, since a bucket that is not in use still holds bytes.  The entries are pairs of key and
  value; the hash function of an entry and the comparison with a key are arguments.  Assertions
  of debug builds panic.  The loops that probe may not end: they are partial functions whose
  result \<open>None\<close> stands for a panic or for no return.
\<close>

section \<open>Tags\<close>

type_synonym Tag = u8

definition EMPTY :: Tag where
  "EMPTY = 0xff"

definition DELETED :: Tag where
  "DELETED = 0x80"

definition tag_is_full :: "Tag \<Rightarrow> bool" where
  "tag_is_full t \<longleftrightarrow> t AND 0x80 = 0"

definition is_special :: "Tag \<Rightarrow> bool" where
  "is_special t \<longleftrightarrow> t AND 0x80 \<noteq> 0"

definition special_is_empty :: "Tag \<Rightarrow> bool option" where
  "special_is_empty t = do { assert_that (is_special t); Some (t AND 0x01 \<noteq> 0) }"

definition tag_full :: "u64 \<Rightarrow> Tag" where
  "tag_full hash = ucast (drop_bit 57 hash AND 0x7f)"

section \<open>The layout in the object\<close>

text \<open>The sizes of an object and of its first page come from the runtime interface.\<close>

record geometry =
  MAX_SIZE :: nat
  NULLPAGE_SIZE :: nat

definition MAX_ALIGNMENT :: nat where
  "MAX_ALIGNMENT = 4096"

definition MAX_SPACE :: "geometry \<Rightarrow> nat" where
  "MAX_SPACE g = MAX_SIZE g - NULLPAGE_SIZE g * 4 - MAX_ALIGNMENT"

definition INVARIANT_GROUP_WIDTH :: nat where
  "INVARIANT_GROUP_WIDTH = 64"

record TableLayout =
  tl_size :: nat
  ctrl_align :: nat

definition TableLayout_new :: "nat \<Rightarrow> nat \<Rightarrow> TableLayout" where
  "TableLayout_new sz align = \<lparr>tl_size = sz,
     ctrl_align = (if align > INVARIANT_GROUP_WIDTH then align else INVARIANT_GROUP_WIDTH)\<rparr>"

text \<open>Rounding up with a mask of a power of two is rounding up to a multiple.\<close>

definition calculate_ctrl_offset :: "TableLayout \<Rightarrow> nat \<Rightarrow> nat option" where
  "calculate_ctrl_offset l buckets = do {
     n \<leftarrow> usize_mul (tl_size l) buckets;
     a \<leftarrow> usize_sub (ctrl_align l) 1;
     n \<leftarrow> usize_add n a;
     Some (unat (of_nat n AND NOT (of_nat a) :: usize)) }"

definition is_pow2 :: "nat \<Rightarrow> bool" where
  "is_pow2 n \<longleftrightarrow> n \<in> set (map (\<lambda>k. 2 ^ k) [0..<64])"

definition calculate_layout_for :: "TableLayout \<Rightarrow> nat \<Rightarrow> ((nat \<times> nat) \<times> nat) option" where
  "calculate_layout_for l buckets = do {
     assert_that (is_pow2 buckets);
     ctrl_offset \<leftarrow> calculate_ctrl_offset l buckets;
     len \<leftarrow> usize_add ctrl_offset buckets;
     len \<leftarrow> usize_add len INVARIANT_GROUP_WIDTH;
     Some ((len, ctrl_align l), ctrl_offset) }"

datatype table_error = AllocError

text \<open>The offset of the first tag in the object; the entries lie below it, the tags from it on.\<close>

definition ht_allocate :: "geometry \<Rightarrow> TableLayout \<Rightarrow> nat \<Rightarrow> (table_error + nat) option" where
  "ht_allocate g l buckets = do {
     assert_that (is_pow2 buckets);
     ((sz, align), _) \<leftarrow> calculate_layout_for l buckets;
     if align > MAX_ALIGNMENT then Some (Inl AllocError)
     else if sz > MAX_SPACE g then Some (Inl AllocError)
     else do {
       let offset = (MAX_SPACE g div (tl_size l + 1)) * tl_size l;
       let corrected_offset = offset + (MAX_ALIGNMENT - offset mod MAX_ALIGNMENT);
       Some (Inr (NULLPAGE_SIZE g * 2 + corrected_offset)) } }"

section \<open>The table\<close>

record 'a RawTable =
  rt_ctrl :: "Tag list"
  rt_data :: "nat \<Rightarrow> 'a"
  bucket_mask :: nat
  growth_left :: nat
  items :: nat

definition RawTable_new :: "(nat \<Rightarrow> 'a) \<Rightarrow> 'a RawTable" where
  "RawTable_new mem = \<lparr>rt_ctrl = [], rt_data = mem, bucket_mask = 0, growth_left = 0, items = 0\<rparr>"

definition h1 :: "u64 \<Rightarrow> nat" where
  "h1 hash = unat hash"

definition bucket_mask_to_capacity :: "nat \<Rightarrow> nat" where
  "bucket_mask_to_capacity m = (if m < 8 then m else ((m + 1) div 8) * 7)"

definition rt_buckets :: "'a RawTable \<Rightarrow> nat" where
  "rt_buckets t = bucket_mask t + 1"

definition rt_is_empty :: "'a RawTable \<Rightarrow> bool" where
  "rt_is_empty t \<longleftrightarrow> items t = 0"

definition is_empty_singleton :: "'a RawTable \<Rightarrow> bool" where
  "is_empty_singleton t \<longleftrightarrow> bucket_mask t = 0"

definition probe_seq :: "u64 \<Rightarrow> 'a RawTable \<Rightarrow> nat" where
  "probe_seq hash t = h1 hash AND bucket_mask t"

definition move_next :: "nat \<Rightarrow> nat \<Rightarrow> nat option" where
  "move_next m pos = do { pos \<leftarrow> usize_add pos 1; Some (pos AND m) }"

section \<open>Probing\<close>

text \<open>\<open>Inr\<close>: the bucket of the entry.  \<open>Inl\<close>: the empty bucket where it would be.\<close>

partial_function (option) find_slot_loop :: "'a RawTable \<Rightarrow> Tag \<Rightarrow> ('a \<Rightarrow> bool) \<Rightarrow> nat \<Rightarrow> (nat + nat) option" where
  "find_slot_loop t tag_hash eq pos = do {
     tag \<leftarrow> index_at (rt_ctrl t) pos;
     if tag = tag_hash \<and> eq (rt_data t pos) then Some (Inr pos)
     else if is_special tag \<and> special_is_empty tag = Some True then Some (Inl pos)
     else do {
       pos \<leftarrow> move_next (bucket_mask t) pos;
       find_slot_loop t tag_hash eq pos } }"

definition find_or_find_insert_slot_inner :: "u64 \<Rightarrow> ('a \<Rightarrow> bool) \<Rightarrow> 'a RawTable \<Rightarrow> (nat + nat) option" where
  "find_or_find_insert_slot_inner hash eq t = find_slot_loop t (tag_full hash) eq (probe_seq hash t)"

partial_function (option) find_insert_slot_loop :: "'a RawTable \<Rightarrow> nat \<Rightarrow> nat option" where
  "find_insert_slot_loop t pos = do {
     tag \<leftarrow> index_at (rt_ctrl t) pos;
     if is_special tag then Some pos
     else do {
       pos \<leftarrow> move_next (bucket_mask t) pos;
       find_insert_slot_loop t pos } }"

definition find_insert_slot :: "u64 \<Rightarrow> 'a RawTable \<Rightarrow> nat option" where
  "find_insert_slot hash t = find_insert_slot_loop t (probe_seq hash t)"

partial_function (option) find_loop :: "'a RawTable \<Rightarrow> Tag \<Rightarrow> ('a \<Rightarrow> bool) \<Rightarrow> nat \<Rightarrow> nat option option" where
  "find_loop t tag_hash eq pos = do {
     tag \<leftarrow> index_at (rt_ctrl t) pos;
     if tag = tag_hash \<and> eq (rt_data t pos) then Some (Some pos)
     else if is_special tag \<and> special_is_empty tag = Some True then Some None
     else do {
       pos \<leftarrow> move_next (bucket_mask t) pos;
       find_loop t tag_hash eq pos } }"

definition find_inner :: "u64 \<Rightarrow> ('a \<Rightarrow> bool) \<Rightarrow> 'a RawTable \<Rightarrow> nat option option" where
  "find_inner hash eq t = do {
     assert_that (\<not> rt_is_empty t);
     find_loop t (tag_full hash) eq (probe_seq hash t) }"

section \<open>Rehashing and growing\<close>

definition set_ctrl :: "nat \<Rightarrow> Tag \<Rightarrow> 'a RawTable \<Rightarrow> 'a RawTable option" where
  "set_ctrl i tag t = do {
     _ \<leftarrow> index_at (rt_ctrl t) i;
     Some (t\<lparr>rt_ctrl := (rt_ctrl t)[i := tag]\<rparr>) }"

definition replace_ctrl_hash :: "nat \<Rightarrow> u64 \<Rightarrow> 'a RawTable \<Rightarrow> (Tag \<times> 'a RawTable) option" where
  "replace_ctrl_hash i hash t = do {
     prev_ctrl \<leftarrow> index_at (rt_ctrl t) i;
     Some (prev_ctrl, t\<lparr>rt_ctrl := (rt_ctrl t)[i := tag_full hash]\<rparr>) }"

definition prepare_rehash_in_place :: "'a RawTable \<Rightarrow> 'a RawTable" where
  "prepare_rehash_in_place t =
     (if rt_is_empty t then t
      else t\<lparr>rt_ctrl := map (\<lambda>tag. if tag_is_full tag then DELETED else EMPTY) (rt_ctrl t)\<rparr>)"

text \<open>The inner loop: find the bucket of entry \<open>i\<close>, moving the entries that are in the way.\<close>

partial_function (option) rehash_entry :: "('a \<Rightarrow> u64) \<Rightarrow> nat \<Rightarrow> 'a RawTable \<Rightarrow> 'a RawTable option" where
  "rehash_entry hasher i t = do {
     let hash = hasher (rt_data t i);
     new_i \<leftarrow> find_insert_slot hash t;
     if i = new_i then do { (_, t) \<leftarrow> replace_ctrl_hash new_i hash t; Some t }
     else do {
       (prev_ctrl, t) \<leftarrow> replace_ctrl_hash new_i hash t;
       if prev_ctrl = EMPTY then do {
         t \<leftarrow> set_ctrl i EMPTY t;
         Some (t\<lparr>rt_data := (rt_data t)(new_i := rt_data t i)\<rparr>) }
       else do {
         assert_that (prev_ctrl = DELETED);
         rehash_entry hasher i (t\<lparr>rt_data := (rt_data t)(i := rt_data t new_i, new_i := rt_data t i)\<rparr>) } } }"

definition rehash_bucket :: "('a \<Rightarrow> u64) \<Rightarrow> nat \<Rightarrow> 'a RawTable \<Rightarrow> 'a RawTable option" where
  "rehash_bucket hasher i t = do {
     tag \<leftarrow> index_at (rt_ctrl t) i;
     if tag \<noteq> DELETED then Some t else rehash_entry hasher i t }"

definition rehash_in_place_inner :: "('a \<Rightarrow> u64) \<Rightarrow> nat \<Rightarrow> 'a RawTable \<Rightarrow> 'a RawTable option" where
  "rehash_in_place_inner hasher workable_buckets t = do {
     t \<leftarrow> foldM (rehash_bucket hasher) [0..<workable_buckets] t;
     g \<leftarrow> usize_sub (bucket_mask_to_capacity (bucket_mask t)) (items t);
     Some (t\<lparr>growth_left := g\<rparr>) }"

definition rehash_in_place :: "('a \<Rightarrow> u64) \<Rightarrow> 'a RawTable \<Rightarrow> 'a RawTable option" where
  "rehash_in_place hasher t =
     (let t = prepare_rehash_in_place t in rehash_in_place_inner hasher (rt_buckets t) t)"

text \<open>The least power of two that is not smaller.\<close>

definition next_power_of_two :: "nat \<Rightarrow> nat option" where
  "next_power_of_two n = List.find (\<lambda>p. n \<le> p) (map (\<lambda>k. 2 ^ k) [0..<64])"

definition buckets_for :: "nat \<Rightarrow> nat option" where
  "buckets_for capacity = do {
     c \<leftarrow> usize_mul capacity 8;
     p \<leftarrow> next_power_of_two (c div 7);
     Some (max p 8) }"

definition rt_bootstrap :: "geometry \<Rightarrow> TableLayout \<Rightarrow> nat \<Rightarrow> 'a RawTable \<Rightarrow> (table_error + 'a RawTable) option" where
  "rt_bootstrap g l capacity t = do {
     buckets \<leftarrow> buckets_for capacity;
     r \<leftarrow> ht_allocate g l buckets;
     case r of Inl e \<Rightarrow> Some (Inl e)
     | Inr _ \<Rightarrow> Some (Inr (t\<lparr>bucket_mask := buckets - 1,
         growth_left := bucket_mask_to_capacity (buckets - 1), items := 0, rt_ctrl := replicate buckets EMPTY\<rparr>)) }"

definition resize_inner ::
  "geometry \<Rightarrow> TableLayout \<Rightarrow> ('a \<Rightarrow> u64) \<Rightarrow> nat \<Rightarrow> 'a RawTable \<Rightarrow> (table_error + 'a RawTable) option" where
  "resize_inner g l hasher capacity t = do {
     assert_that (items t \<le> capacity);
     let old_buckets = rt_buckets t;
     buckets \<leftarrow> buckets_for capacity;
     r \<leftarrow> ht_allocate g l buckets;
     case r of Inl e \<Rightarrow> Some (Inl e)
     | Inr _ \<Rightarrow>
       if \<not> is_empty_singleton t then do {
         let t = prepare_rehash_in_place t;
         n \<leftarrow> usize_sub buckets (rt_buckets t);
         let t = t\<lparr>rt_ctrl := rt_ctrl t @ replicate n EMPTY, bucket_mask := buckets - 1\<rparr>;
         gl \<leftarrow> usize_sub (bucket_mask_to_capacity (bucket_mask t)) (items t);
         t \<leftarrow> rehash_in_place_inner hasher old_buckets (t\<lparr>growth_left := gl\<rparr>);
         Some (Inr t) }
       else Some (Inr (t\<lparr>bucket_mask := buckets - 1,
         growth_left := bucket_mask_to_capacity (buckets - 1), items := 0, rt_ctrl := replicate buckets EMPTY\<rparr>)) }"

definition reserve_rehash_inner ::
  "geometry \<Rightarrow> TableLayout \<Rightarrow> ('a \<Rightarrow> u64) \<Rightarrow> nat \<Rightarrow> 'a RawTable \<Rightarrow> (table_error + 'a RawTable) option" where
  "reserve_rehash_inner g l hasher additional t = do {
     new_items \<leftarrow> usize_add (items t) additional;
     let full_capacity = bucket_mask_to_capacity (bucket_mask t);
     if new_items \<le> full_capacity div 2 then do {
       t \<leftarrow> rehash_in_place hasher t;
       Some (Inr t) }
     else resize_inner g l hasher (max new_items (full_capacity + 1)) t }"

definition rt_reserve :: "geometry \<Rightarrow> TableLayout \<Rightarrow> ('a \<Rightarrow> u64) \<Rightarrow> nat \<Rightarrow> 'a RawTable \<Rightarrow> 'a RawTable option" where
  "rt_reserve g l hasher additional t =
     (if additional > growth_left t then do {
        r \<leftarrow> reserve_rehash_inner g l hasher additional t;
        case r of Inl e \<Rightarrow> None | Inr t \<Rightarrow> Some t }
      else Some t)"

section \<open>Entries\<close>

definition rt_erase :: "nat \<Rightarrow> 'a RawTable \<Rightarrow> 'a RawTable option" where
  "rt_erase i t = do {
     t \<leftarrow> set_ctrl i DELETED t;
     n \<leftarrow> usize_sub (items t) 1;
     Some (t\<lparr>items := n\<rparr>) }"

definition rt_get :: "u64 \<Rightarrow> ('a \<Rightarrow> bool) \<Rightarrow> 'a RawTable \<Rightarrow> 'a option option" where
  "rt_get hash eq t = do {
     r \<leftarrow> find_inner hash eq t;
     Some (map_option (rt_data t) r) }"

definition rt_remove :: "u64 \<Rightarrow> ('a \<Rightarrow> bool) \<Rightarrow> 'a RawTable \<Rightarrow> ('a option \<times> 'a RawTable) option" where
  "rt_remove hash eq t = do {
     r \<leftarrow> find_inner hash eq t;
     case r of None \<Rightarrow> Some (None, t)
     | Some i \<Rightarrow> do {
         let item = rt_data t i;
         t \<leftarrow> rt_erase i t;
         Some (Some item, t) } }"

definition rt_clear :: "'a RawTable \<Rightarrow> 'a RawTable" where
  "rt_clear t =
     (if is_empty_singleton t then t
      else t\<lparr>rt_ctrl := replicate (rt_buckets t) EMPTY, items := 0\<rparr>)"

definition find_or_find_insert_slot ::
  "geometry \<Rightarrow> TableLayout \<Rightarrow> ('a \<Rightarrow> u64) \<Rightarrow> u64 \<Rightarrow> ('a \<Rightarrow> bool) \<Rightarrow> 'a RawTable \<Rightarrow> ((nat + nat) \<times> 'a RawTable) option" where
  "find_or_find_insert_slot g l hasher hash eq t = do {
     t \<leftarrow> rt_reserve g l hasher 1 t;
     r \<leftarrow> find_or_find_insert_slot_inner hash eq t;
     Some (r, t) }"

definition insert_in_slot :: "u64 \<Rightarrow> nat \<Rightarrow> 'a \<Rightarrow> 'a RawTable \<Rightarrow> 'a RawTable option" where
  "insert_in_slot hash slot v t = do {
     old_ctrl \<leftarrow> index_at (rt_ctrl t) slot;
     e \<leftarrow> special_is_empty old_ctrl;
     gl \<leftarrow> usize_sub (growth_left t) (if e then 1 else 0);
     n \<leftarrow> usize_add (items t) 1;
     Some (t\<lparr>growth_left := gl, rt_ctrl := (rt_ctrl t)[slot := tag_full hash], items := n,
       rt_data := (rt_data t)(slot := v)\<rparr>) }"

text \<open>The iterator visits the full buckets in the order of their indices.\<close>

fun raw_iter :: "Tag list \<Rightarrow> nat \<Rightarrow> nat list" where
  "raw_iter [] i = []"
| "raw_iter (tag # tags) i = (if tag_is_full tag then i # raw_iter tags (i + 1) else raw_iter tags (i + 1))"

definition rt_iter :: "'a RawTable \<Rightarrow> 'a list" where
  "rt_iter t = map (rt_data t) (raw_iter (rt_ctrl t) 0)"

end
