(* ===== verification/Hash_Map.thy ===== *)
theory Hash_Map
  imports Hash_Table
begin

text \<open>
  The persistent hash map (\<^verbatim>\<open>src/lib/twizzler/src/collections/hachage/map.rs\<close>) over the table of
  the theory Hash\_Table.  Keys are compared by equality and hashed by a function that
  is an argument.  The map refines a partial function from keys to values.
\<close>

section \<open>The map\<close>

definition make_hasher :: "('k \<Rightarrow> u64) \<Rightarrow> 'k \<times> 'v \<Rightarrow> u64" where
  "make_hasher hash e = hash (fst e)"

definition equivalent_key :: "'k \<Rightarrow> 'k \<times> 'v \<Rightarrow> bool" where
  "equivalent_key k e \<longleftrightarrow> k = fst e"

definition hm_with_builder :: "geometry \<Rightarrow> TableLayout \<Rightarrow> (nat \<Rightarrow> 'k \<times> 'v) \<Rightarrow> (table_error + ('k \<times> 'v) RawTable) option" where
  "hm_with_builder g l mem = rt_bootstrap g l 1 (RawTable_new mem)"

definition hm_len :: "('k \<times> 'v) RawTable \<Rightarrow> nat" where
  "hm_len t = items t"

definition hm_get :: "('k \<Rightarrow> u64) \<Rightarrow> 'k \<Rightarrow> ('k \<times> 'v) RawTable \<Rightarrow> 'v option option" where
  "hm_get hash k t = do {
     r \<leftarrow> rt_get (hash k) (equivalent_key k) t;
     Some (map_option snd r) }"

definition hm_remove :: "('k \<Rightarrow> u64) \<Rightarrow> 'k \<Rightarrow> ('k \<times> 'v) RawTable \<Rightarrow> ('v option \<times> ('k \<times> 'v) RawTable) option" where
  "hm_remove hash k t = do {
     (r, t) \<leftarrow> rt_remove (hash k) (equivalent_key k) t;
     Some (map_option snd r, t) }"

definition hm_insert ::
  "geometry \<Rightarrow> TableLayout \<Rightarrow> ('k \<Rightarrow> u64) \<Rightarrow> 'k \<Rightarrow> 'v \<Rightarrow> ('k \<times> 'v) RawTable \<Rightarrow> ('v option \<times> ('k \<times> 'v) RawTable) option" where
  "hm_insert g l hash k v t = do {
     (r, t) \<leftarrow> find_or_find_insert_slot g l (make_hasher hash) (hash k) (equivalent_key k) t;
     case r of
       Inr i \<Rightarrow> Some (Some (snd (rt_data t i)), t\<lparr>rt_data := (rt_data t)(i := (fst (rt_data t i), v))\<rparr>)
     | Inl slot \<Rightarrow> do {
         t \<leftarrow> insert_in_slot (hash k) slot (k, v) t;
         Some (None, t) } }"

definition hm_reserve :: "geometry \<Rightarrow> TableLayout \<Rightarrow> ('k \<Rightarrow> u64) \<Rightarrow> nat \<Rightarrow> ('k \<times> 'v) RawTable \<Rightarrow> ('k \<times> 'v) RawTable option" where
  "hm_reserve g l hash additional t = rt_reserve g l (make_hasher hash) additional t"

definition hm_resize ::
  "geometry \<Rightarrow> TableLayout \<Rightarrow> ('k \<Rightarrow> u64) \<Rightarrow> nat \<Rightarrow> ('k \<times> 'v) RawTable \<Rightarrow> (table_error + ('k \<times> 'v) RawTable) option" where
  "hm_resize g l hash capacity t = resize_inner g l (make_hasher hash) capacity t"

definition hm_iter :: "('k \<times> 'v) RawTable \<Rightarrow> ('k \<times> 'v) list" where
  "hm_iter t = rt_iter t"

section \<open>Tags\<close>

lemma bit_0x80: "t AND 0x80 = 0 \<longleftrightarrow> \<not> bit (t :: u8) 7"
  using and_pow2_eq_0 [of t 7] by simp

lemma tag_full_bit: "\<not> bit (tag_full h) 7"
proof -
  have "(0x7f :: u64) = mask 7" by (simp add: mask_eq_exp_minus_1)
  then show ?thesis unfolding tag_full_def by (simp only: bit_ucast_iff bit_and_iff bit_mask_iff) simp
qed

lemma tag_is_full_tag_full [simp]: "tag_is_full (tag_full h)"
  using tag_full_bit [of h] by (simp add: tag_is_full_def bit_0x80)

lemma special_tags [simp]: "\<not> tag_is_full EMPTY" "\<not> tag_is_full DELETED" "EMPTY \<noteq> DELETED" "DELETED \<noteq> EMPTY"
  "special_is_empty EMPTY = Some True" "special_is_empty DELETED = Some False"
  by (simp_all add: tag_is_full_def EMPTY_def DELETED_def special_is_empty_def is_special_def)

lemma is_special_iff [simp]: "is_special t \<longleftrightarrow> \<not> tag_is_full t"
  by (simp add: is_special_def tag_is_full_def)

lemma tag_full_neq [simp]: "tag_full h \<noteq> EMPTY" "tag_full h \<noteq> DELETED"
  using tag_is_full_tag_full [of h] special_tags(1,2) by metis+

section \<open>Probe sequences\<close>

definition table_size :: "nat \<Rightarrow> 'a RawTable \<Rightarrow> bool" where
  "table_size n t \<longleftrightarrow> 3 \<le> n \<and> n < 60 \<and> bucket_mask t = 2 ^ n - 1 \<and> length (rt_ctrl t) = 2 ^ n"

lemma nat_and_mask: "a AND (2 ^ n - 1) = a mod 2 ^ n" for a n :: nat
  by (metis mask_eq_exp_minus_1 take_bit_eq_mask take_bit_eq_mod)

lemma table_sizeD:
  assumes "table_size n t"
  shows "length (rt_ctrl t) = 2 ^ n" "rt_buckets t = 2 ^ n" "probe_seq h t = h1 h mod 2 ^ n" "8 \<le> (2 :: nat) ^ n"
    "p < 2 ^ n \<Longrightarrow> move_next (bucket_mask t) p = Some ((p + 1) mod 2 ^ n)"
proof -
  have n: "3 \<le> n" "n < 60" using assms by (simp_all add: table_size_def)
  then have "(2 :: nat) ^ n \<le> 2 ^ 60" by (intro power_increasing) simp_all
  moreover have "(2 :: nat) ^ 3 \<le> 2 ^ n" using n(1) by (intro power_increasing) simp_all
  ultimately show "length (rt_ctrl t) = 2 ^ n" "rt_buckets t = 2 ^ n" "probe_seq h t = h1 h mod 2 ^ n" "8 \<le> (2 :: nat) ^ n"
    "p < 2 ^ n \<Longrightarrow> move_next (bucket_mask t) p = Some ((p + 1) mod 2 ^ n)"
    using assms by (simp_all add: table_size_def rt_buckets_def probe_seq_def nat_and_mask move_next_def usize_add_def
      del: One_nat_def)
qed

text \<open>How far a bucket is from the start of a probe sequence.\<close>

definition dist :: "nat \<Rightarrow> nat \<Rightarrow> nat \<Rightarrow> nat" where
  "dist B p i = (i + (B - p)) mod B"

lemma dist_step: "p < B \<Longrightarrow> i < B \<Longrightarrow> (p + dist B p i) mod B = i"
  unfolding dist_def by (simp add: mod_add_right_eq)

lemma dist_less: "0 < B \<Longrightarrow> dist B p i < B"
  by (simp add: dist_def)

lemma step_inj:
  fixes B :: nat
  assumes eq: "(p + d) mod B = (p + e) mod B" and "d < B" and "e < B"
  shows "d = e"
proof -
  have "d = e" if "d \<le> e" "(p + d) mod B = (p + e) mod B" "e < B" for d e
    using that mod_eq_dvd_iff_nat [of "p + d" "p + e" B] by (auto dest: dvd_imp_le)
  from this [of d e] this [of e d] show ?thesis using assms by (cases "d \<le> e") auto
qed

text \<open>What the three loops return when the first bucket that stops them is \<open>d\<close> steps away.\<close>

definition tags_known :: "'a RawTable \<Rightarrow> bool" where
  "tags_known t \<longleftrightarrow> (\<forall>i<length (rt_ctrl t). \<not> tag_is_full (rt_ctrl t ! i) \<longrightarrow> rt_ctrl t ! i \<in> {EMPTY, DELETED})"

definition hits :: "'a RawTable \<Rightarrow> Tag \<Rightarrow> ('a \<Rightarrow> bool) \<Rightarrow> nat \<Rightarrow> bool" where
  "hits t tag eq i \<longleftrightarrow> rt_ctrl t ! i = tag \<and> eq (rt_data t i)"

lemma find_loops_stop:
  assumes t: "table_size n t" and known: "tags_known t"
    and "p < 2 ^ n" and "\<forall>e<d. rt_ctrl t ! ((p + e) mod 2 ^ n) \<noteq> EMPTY \<and> \<not> hits t tag eq ((p + e) mod 2 ^ n)"
    and "hits t tag eq ((p + d) mod 2 ^ n) \<or> rt_ctrl t ! ((p + d) mod 2 ^ n) = EMPTY"
  shows "find_slot_loop t tag eq p =
      Some (if hits t tag eq ((p + d) mod 2 ^ n) then Inr ((p + d) mod 2 ^ n) else Inl ((p + d) mod 2 ^ n)) \<and>
    find_loop t tag eq p = Some (if hits t tag eq ((p + d) mod 2 ^ n) then Some ((p + d) mod 2 ^ n) else None)"
  using assms(3-5)
proof (induction d arbitrary: p)
  case 0
  then show ?case
    using table_sizeD(1) [OF t]
    by (auto simp: find_slot_loop.simps [of t tag eq p] find_loop.simps [of t tag eq p] index_at_def hits_def)
next
  case (Suc d)
  let ?q = "(p + 1) mod 2 ^ n"
  have shift: "(?q + e) mod 2 ^ n = (p + Suc e) mod 2 ^ n" for e
    by (simp add: mod_add_left_eq)
  have f: "rt_ctrl t ! p \<noteq> EMPTY" "\<not> hits t tag eq p" using Suc.prems by (auto dest: spec [of _ 0])
  then have "tag_is_full (rt_ctrl t ! p) \<or> rt_ctrl t ! p = DELETED"
    using known Suc.prems(1) table_sizeD(1) [OF t] by (auto simp: tags_known_def)
  then have "find_slot_loop t tag eq p = find_slot_loop t tag eq ?q \<and> find_loop t tag eq p = find_loop t tag eq ?q"
    using f Suc.prems(1) table_sizeD(1,5) [OF t]
    by (auto simp: find_slot_loop.simps [of t tag eq p] find_loop.simps [of t tag eq p] index_at_def hits_def)
  moreover have "\<forall>e<d. rt_ctrl t ! ((p + Suc e) mod 2 ^ n) \<noteq> EMPTY \<and> \<not> hits t tag eq ((p + Suc e) mod 2 ^ n)"
    using Suc.prems(2) by (meson Suc_less_eq)
  ultimately show ?case
    using Suc.IH [of ?q, unfolded shift, OF _ _ Suc.prems(3)] by (simp only: mod_less_divisor zero_less_power zero_less_numeral)
qed

lemma find_insert_slot_loop_stops:
  assumes t: "table_size n t" and "p < 2 ^ n" and "\<And>e. e < d \<Longrightarrow> tag_is_full (rt_ctrl t ! ((p + e) mod 2 ^ n))"
    and "\<not> tag_is_full (rt_ctrl t ! ((p + d) mod 2 ^ n))"
  shows "find_insert_slot_loop t p = Some ((p + d) mod 2 ^ n)"
  using assms(2-4)
proof (induction d arbitrary: p)
  case 0
  then show ?case
    using table_sizeD(1) [OF t] by (simp add: find_insert_slot_loop.simps [of t p] index_at_def)
next
  case (Suc d)
  let ?q = "(p + 1) mod 2 ^ n"
  have shift: "(?q + e) mod 2 ^ n = (p + Suc e) mod 2 ^ n" for e
    by (simp add: mod_add_left_eq)
  have "tag_is_full (rt_ctrl t ! p)" using Suc.prems(1) Suc.prems(2) [of 0] by simp
  then have "find_insert_slot_loop t p = find_insert_slot_loop t ?q"
    using Suc.prems(1) table_sizeD(1,5) [OF t] by (simp add: find_insert_slot_loop.simps [of t p] index_at_def)
  also have "\<dots> = Some ((?q + d) mod 2 ^ n)" using Suc.prems by (intro Suc.IH) (simp_all only: shift, simp_all)
  finally show ?case by (simp only: shift)
qed

section \<open>The invariant of the table\<close>

definition full_at :: "'a RawTable \<Rightarrow> nat \<Rightarrow> bool" where
  "full_at t i \<longleftrightarrow> i < length (rt_ctrl t) \<and> tag_is_full (rt_ctrl t ! i)"

definition tags_ok :: "('a \<Rightarrow> u64) \<Rightarrow> 'a RawTable \<Rightarrow> bool" where
  "tags_ok hasher t \<longleftrightarrow> (\<forall>i<length (rt_ctrl t).
     rt_ctrl t ! i = EMPTY \<or> rt_ctrl t ! i = DELETED \<or> rt_ctrl t ! i = tag_full (hasher (rt_data t i)))"

text \<open>No probe for an entry meets a bucket outside \<open>S\<close> before it meets the entry.\<close>

definition reachable :: "('a \<Rightarrow> u64) \<Rightarrow> nat set \<Rightarrow> nat \<Rightarrow> 'a RawTable \<Rightarrow> bool" where
  "reachable hasher S n t \<longleftrightarrow> (\<forall>i. full_at t i \<longrightarrow>
     (\<forall>e<dist (2 ^ n) (h1 (hasher (rt_data t i)) mod 2 ^ n) i. (h1 (hasher (rt_data t i)) mod 2 ^ n + e) mod 2 ^ n \<in> S))"

definition used :: "'a RawTable \<Rightarrow> nat set" where
  "used t = {i. i < length (rt_ctrl t) \<and> rt_ctrl t ! i \<noteq> EMPTY}"

definition full_set :: "'a RawTable \<Rightarrow> nat set" where
  "full_set t = {i. full_at t i}"

definition hm_inv :: "('k \<Rightarrow> u64) \<Rightarrow> ('k \<times> 'v) RawTable \<Rightarrow> bool" where
  "hm_inv hash t \<longleftrightarrow> (\<exists>n. table_size n t \<and> reachable (make_hasher hash) (used t) n t) \<and>
     tags_ok (make_hasher hash) t \<and> inj_on (fst \<circ> rt_data t) (full_set t) \<and>
     items t = card (full_set t) \<and> growth_left t + card (used t) \<le> bucket_mask_to_capacity (bucket_mask t)"

text \<open>The map that the table stands for, read off by looking at every bucket.\<close>

definition table_map :: "('k \<times> 'v) RawTable \<Rightarrow> 'k \<Rightarrow> 'v option" where
  "table_map t k = map_option (snd \<circ> rt_data t)
     (List.find (\<lambda>i. tag_is_full (rt_ctrl t ! i) \<and> fst (rt_data t i) = k) [0..<length (rt_ctrl t)])"

lemma tags_ok_known: "tags_ok hasher t \<Longrightarrow> tags_known t"
  by (auto simp: tags_ok_def tags_known_def)

lemma full_set_finite [simp]: "finite (full_set t)"
  by (rule finite_subset [of _ "{..<length (rt_ctrl t)}"]) (auto simp: full_set_def full_at_def)

lemma used_finite [simp]: "finite (used t)"
  by (rule finite_subset [of _ "{..<length (rt_ctrl t)}"]) (auto simp: used_def)

lemma full_used: "full_set t \<subseteq> used t"
  by (auto simp: full_set_def full_at_def used_def)

lemma table_map_Some:
  assumes "inj_on (fst \<circ> rt_data t) (full_set t)"
  shows "table_map t k = Some v \<longleftrightarrow> (\<exists>i. full_at t i \<and> rt_data t i = (k, v))"
proof
  assume "table_map t k = Some v"
  then show "\<exists>i. full_at t i \<and> rt_data t i = (k, v)"
    by (auto simp: table_map_def find_Some_iff full_at_def intro!: prod_eqI)
next
  assume "\<exists>i. full_at t i \<and> rt_data t i = (k, v)"
  then obtain i where i: "full_at t i" "rt_data t i = (k, v)" by blast
  then have "List.find (\<lambda>i. tag_is_full (rt_ctrl t ! i) \<and> fst (rt_data t i) = k) [0..<length (rt_ctrl t)] \<noteq> None"
    by (auto simp: find_None_iff full_at_def intro!: bexI [of _ i])
  then obtain j where j: "List.find (\<lambda>i. tag_is_full (rt_ctrl t ! i) \<and> fst (rt_data t i) = k) [0..<length (rt_ctrl t)] = Some j"
    by auto
  then have "full_at t j" "fst (rt_data t j) = k" by (auto simp: find_Some_iff full_at_def)
  then have "j = i" using inj_onD [OF assms, of j i] i by (simp add: full_set_def)
  then show "table_map t k = Some v" using j i by (simp add: table_map_def)
qed

lemma table_map_None: "table_map t k = None \<longleftrightarrow> (\<forall>i. full_at t i \<longrightarrow> fst (rt_data t i) \<noteq> k)"
  by (auto simp: table_map_def find_None_iff full_at_def)

text \<open>A table with a free bucket: both searches end, at the entry or at an empty bucket.\<close>

lemma find_at:
  assumes t: "table_size n t" and reach: "reachable (make_hasher hash) (used t) n t" and tags: "tags_ok (make_hasher hash) t"
    and inj: "inj_on (fst \<circ> rt_data t) (full_set t)" and i: "full_at t i" "fst (rt_data t i) = k"
  shows "find_slot_loop t (tag_full (hash k)) (equivalent_key k) (probe_seq (hash k) t) = Some (Inr i) \<and>
    find_loop t (tag_full (hash k)) (equivalent_key k) (probe_seq (hash k) t) = Some (Some i)"
proof -
  let ?p = "h1 (hash k) mod 2 ^ n" and ?hits = "hits t (tag_full (hash k)) (equivalent_key k)"
  let ?d = "dist (2 ^ n) ?p i"
  have p: "?p < 2 ^ n" and i': "i < 2 ^ n" using i table_sizeD(1) [OF t] by (simp_all add: full_at_def)
  have h: "make_hasher hash (rt_data t i) = hash k" using i by (simp add: make_hasher_def)
  have at: "(?p + ?d) mod 2 ^ n = i" using dist_step [OF p i'] .
  have "rt_ctrl t ! i = tag_full (hash k)"
    using tags i(1) unfolding tags_ok_def full_at_def h [symmetric] by (metis special_tags(1,2))
  then have hit: "?hits i" using i by (simp add: hits_def equivalent_key_def)
  have "rt_ctrl t ! ((?p + e) mod 2 ^ n) \<noteq> EMPTY \<and> \<not> ?hits ((?p + e) mod 2 ^ n)" if e: "e < ?d" for e
  proof
    show "rt_ctrl t ! ((?p + e) mod 2 ^ n) \<noteq> EMPTY"
      using reach i(1) e unfolding reachable_def used_def h [symmetric] by blast
    show "\<not> ?hits ((?p + e) mod 2 ^ n)"
    proof
      assume "?hits ((?p + e) mod 2 ^ n)"
      then have "full_at t ((?p + e) mod 2 ^ n)" "fst (rt_data t ((?p + e) mod 2 ^ n)) = k"
        using table_sizeD(1) [OF t] by (auto simp: hits_def equivalent_key_def full_at_def)
      then have "(?p + e) mod 2 ^ n = i"
        using i by (intro inj_onD [OF inj]) (simp_all only: full_set_def mem_Collect_eq o_apply)
      then have "(?p + e) mod 2 ^ n = (?p + ?d) mod 2 ^ n" using at by (simp only:)
      moreover have "?d < 2 ^ n" by (rule dist_less) simp
      ultimately have "e = ?d" using e by (meson step_inj less_trans)
      then show False using e by simp
    qed
  qed
  then show ?thesis
    using find_loops_stop [OF t tags_ok_known [OF tags] p, of ?d "tag_full (hash k)" "equivalent_key k"] hit
    unfolding at table_sizeD(3) [OF t] by simp
qed

lemma find_absent:
  assumes t: "table_size n t" and tags: "tags_ok (make_hasher hash) t"
    and absent: "\<And>i. full_at t i \<Longrightarrow> fst (rt_data t i) \<noteq> k" and free: "i < 2 ^ n" "rt_ctrl t ! i = EMPTY"
  shows "\<exists>d<2 ^ n. let p = h1 (hash k) mod 2 ^ n; q = (p + d) mod 2 ^ n in rt_ctrl t ! q = EMPTY \<and> (\<forall>e<d. (p + e) mod 2 ^ n \<in> used t) \<and>
    find_slot_loop t (tag_full (hash k)) (equivalent_key k) (probe_seq (hash k) t) = Some (Inl q) \<and>
    find_loop t (tag_full (hash k)) (equivalent_key k) (probe_seq (hash k) t) = Some None"
proof -
  let ?p = "h1 (hash k) mod 2 ^ n" and ?hits = "hits t (tag_full (hash k)) (equivalent_key k)"
  let ?P = "\<lambda>d. rt_ctrl t ! ((?p + d) mod 2 ^ n) = EMPTY"
  have p: "?p < 2 ^ n" by simp
  have len: "length (rt_ctrl t) = 2 ^ n" using table_sizeD(1) [OF t] .
  have "?P (dist (2 ^ n) ?p i)" using dist_step [OF p free(1)] free(2) by simp
  then have P: "?P (LEAST d. ?P d)" and le: "(LEAST d. ?P d) \<le> dist (2 ^ n) ?p i" by (rule LeastI, rule Least_le)
  let ?d = "LEAST d. ?P d"
  have before: "\<not> ?P e" if "e < ?d" for e using not_less_Least [OF that] .
  have nohit: "\<not> ?hits q" if "q < 2 ^ n" for q
    using absent [of q] that len by (auto simp: hits_def equivalent_key_def full_at_def)
  have "find_slot_loop t (tag_full (hash k)) (equivalent_key k) ?p = Some (Inl ((?p + ?d) mod 2 ^ n)) \<and>
    find_loop t (tag_full (hash k)) (equivalent_key k) ?p = Some None"
    using find_loops_stop [OF t tags_ok_known [OF tags] p, of ?d "tag_full (hash k)" "equivalent_key k"] before P nohit by simp
  moreover have "?d < 2 ^ n" using le dist_less [of "2 ^ n" ?p i] by simp
  moreover have "\<forall>e<?d. (?p + e) mod 2 ^ n \<in> used t" using before len by (auto simp: used_def)
  ultimately show ?thesis using P unfolding table_sizeD(3) [OF t] Let_def by blast
qed

text \<open>Which parts of the state the notions depend on.\<close>

lemma counters_irrelevant [simp]:
  "full_at (t\<lparr>growth_left := g\<rparr>) = full_at t" "full_set (t\<lparr>growth_left := g\<rparr>) = full_set t" "used (t\<lparr>growth_left := g\<rparr>) = used t"
  "table_size n (t\<lparr>growth_left := g\<rparr>) = table_size n t" "tags_ok h (t\<lparr>growth_left := g\<rparr>) = tags_ok h t"
  "reachable h S n (t\<lparr>growth_left := g\<rparr>) = reachable h S n t"
  "full_at (t\<lparr>items := g\<rparr>) = full_at t" "full_set (t\<lparr>items := g\<rparr>) = full_set t" "used (t\<lparr>items := g\<rparr>) = used t"
  "table_size n (t\<lparr>items := g\<rparr>) = table_size n t" "tags_ok h (t\<lparr>items := g\<rparr>) = tags_ok h t"
  "reachable h S n (t\<lparr>items := g\<rparr>) = reachable h S n t"
  by (auto simp: full_at_def full_set_def used_def table_size_def tags_ok_def reachable_def fun_eq_iff)

section \<open>Rehashing\<close>

text \<open>While entries are being placed, those still to be placed are marked as deleted.\<close>

definition rehashing :: "('a \<Rightarrow> u64) \<Rightarrow> nat \<Rightarrow> 'a set \<Rightarrow> 'a RawTable \<Rightarrow> bool" where
  "rehashing hasher n S t \<longleftrightarrow> table_size n t \<and> tags_ok hasher t \<and> reachable hasher (full_set t) n t \<and>
     rt_data t ` used t = S \<and> inj_on (rt_data t) (used t)"

definition deleted :: "'a RawTable \<Rightarrow> nat set" where
  "deleted t = {i. i < length (rt_ctrl t) \<and> rt_ctrl t ! i = DELETED}"

lemma deleted_finite [simp]: "finite (deleted t)"
  by (rule finite_subset [of _ "{..<length (rt_ctrl t)}"]) (auto simp: deleted_def)

lemma find_insert_slot_stops:
  assumes t: "table_size n t" and i: "i < 2 ^ n" "\<not> tag_is_full (rt_ctrl t ! i)"
  shows "\<exists>q<2 ^ n. find_insert_slot h t = Some q \<and> \<not> tag_is_full (rt_ctrl t ! q) \<and>
    (\<forall>e<dist (2 ^ n) (h1 h mod 2 ^ n) q. (h1 h mod 2 ^ n + e) mod 2 ^ n \<in> full_set t)"
proof -
  let ?p = "h1 h mod 2 ^ n"
  let ?P = "\<lambda>d. \<not> tag_is_full (rt_ctrl t ! ((?p + d) mod 2 ^ n))"
  have p: "?p < 2 ^ n" by simp
  have len: "length (rt_ctrl t) = 2 ^ n" using table_sizeD(1) [OF t] .
  have "?P (dist (2 ^ n) ?p i)" using dist_step [OF p i(1)] i(2) by simp
  then have P: "?P (LEAST d. ?P d)" and le: "(LEAST d. ?P d) \<le> dist (2 ^ n) ?p i" by (rule LeastI, rule Least_le)
  let ?d = "LEAST d. ?P d"
  let ?q = "(?p + ?d) mod 2 ^ n"
  have before: "tag_is_full (rt_ctrl t ! ((?p + e) mod 2 ^ n))" if "e < ?d" for e using not_less_Least [OF that] by simp
  have "?d < 2 ^ n" using le dist_less [of "2 ^ n" ?p i] by simp
  moreover have "(?p + dist (2 ^ n) ?p ?q) mod 2 ^ n = (?p + ?d) mod 2 ^ n" by (rule dist_step) simp_all
  moreover have "dist (2 ^ n) ?p ?q < 2 ^ n" by (rule dist_less) simp
  ultimately have "dist (2 ^ n) ?p ?q = ?d" by (meson step_inj)
  then have "\<forall>e<dist (2 ^ n) ?p ?q. (?p + e) mod 2 ^ n \<in> full_set t"
    using before len by (simp add: full_set_def full_at_def)
  moreover have "find_insert_slot h t = Some ?q"
    unfolding find_insert_slot_def table_sizeD(3) [OF t] using before P by (intro find_insert_slot_loop_stops [OF t p])
  ultimately show ?thesis using P by (intro exI [of _ ?q]) simp
qed

lemma reachable_place:
  assumes "reachable hasher (full_set t) n t" and "full_set t' = insert q (full_set t)"
    and "\<And>j. j \<in> full_set t \<Longrightarrow> rt_data t' j = rt_data t j"
    and "\<forall>e<dist (2 ^ n) (h1 (hasher (rt_data t' q)) mod 2 ^ n) q. (h1 (hasher (rt_data t' q)) mod 2 ^ n + e) mod 2 ^ n \<in> full_set t"
  shows "reachable hasher (full_set t') n t'"
  unfolding reachable_def
proof (intro allI impI)
  fix i e
  assume "full_at t' i" and e: "e < dist (2 ^ n) (h1 (hasher (rt_data t' i)) mod 2 ^ n) i"
  then have "i = q \<or> i \<in> full_set t" using assms(2) by (auto simp: full_set_def)
  then have "(h1 (hasher (rt_data t' i)) mod 2 ^ n + e) mod 2 ^ n \<in> full_set t"
  proof
    assume "i = q"
    then show ?thesis using assms(4) e by blast
  next
    assume "i \<in> full_set t"
    then show ?thesis using assms(1) assms(3) [of i] e by (simp add: reachable_def full_set_def)
  qed
  then show "(h1 (hasher (rt_data t' i)) mod 2 ^ n + e) mod 2 ^ n \<in> full_set t'" using assms(2) by simp
qed

text \<open>Placing one entry in bucket \<open>q\<close>, whatever happens to the buckets that are not full.\<close>

lemma rehashing_step:
  assumes R: "rehashing hasher n S t"
    and same: "bucket_mask t' = bucket_mask t" "length (rt_ctrl t') = length (rt_ctrl t)" "q < length (rt_ctrl t)"
    and new: "rt_ctrl t' ! q = tag_full (hasher (rt_data t' q))" "full_set t' = insert q (full_set t)"
      "\<forall>e<dist (2 ^ n) (h1 (hasher (rt_data t' q)) mod 2 ^ n) q. (h1 (hasher (rt_data t' q)) mod 2 ^ n + e) mod 2 ^ n \<in> full_set t"
    and old: "\<And>j. j \<in> full_set t \<Longrightarrow> rt_data t' j = rt_data t j"
      "\<And>j. j \<noteq> q \<Longrightarrow> rt_ctrl t' ! j = rt_ctrl t ! j \<or> rt_ctrl t' ! j = EMPTY"
    and entries: "rt_data t' ` used t' = S" "inj_on (rt_data t') (used t')"
  shows "rehashing hasher n S t'"
proof -
  have "tags_ok hasher t'"
    unfolding tags_ok_def
  proof (intro allI impI)
    fix j
    assume j: "j < length (rt_ctrl t')"
    show "rt_ctrl t' ! j = EMPTY \<or> rt_ctrl t' ! j = DELETED \<or> rt_ctrl t' ! j = tag_full (hasher (rt_data t' j))"
    proof (cases "j = q \<or> rt_ctrl t' ! j = EMPTY")
      case False
      then have "rt_ctrl t' ! j = rt_ctrl t ! j" using old(2) by blast
      moreover have "rt_ctrl t ! j = EMPTY \<or> rt_ctrl t ! j = DELETED \<or> rt_ctrl t ! j = tag_full (hasher (rt_data t j))"
        using R j same(2) by (simp add: rehashing_def tags_ok_def)
      moreover have "rt_data t' j = rt_data t j" if "rt_ctrl t ! j = tag_full (hasher (rt_data t j))"
        using that j same(2) by (intro old(1)) (simp add: full_set_def full_at_def)
      ultimately show ?thesis by auto
    qed (use new(1) in auto)
  qed
  moreover have "reachable hasher (full_set t') n t'"
    using R new old(1) by (intro reachable_place [of hasher t n t' q]) (simp_all add: rehashing_def)
  ultimately show ?thesis using R same entries by (simp add: rehashing_def table_size_def)
qed

lemma rehash_entry_ok:
  assumes "rehashing hasher n S t" and "i \<in> deleted t"
  shows "\<exists>t'. rehash_entry hasher i t = Some t' \<and> rehashing hasher n S t' \<and> deleted t' \<subseteq> deleted t - {i} \<and>
    items t' = items t"
  using assms
proof (induction "card (deleted t)" arbitrary: t rule: less_induct)
  case less
  note R = less.prems(1)
  let ?h = "hasher (rt_data t i)"
  have t: "table_size n t" and tags: "tags_ok hasher t" and S: "rt_data t ` used t = S" and inj: "inj_on (rt_data t) (used t)"
    using R by (simp_all add: rehashing_def)
  note len = table_sizeD(1) [OF t]
  have i: "i < 2 ^ n" "rt_ctrl t ! i = DELETED" using less.prems(2) len by (auto simp: deleted_def)
  then obtain q where q: "q < 2 ^ n" "find_insert_slot ?h t = Some q" "\<not> tag_is_full (rt_ctrl t ! q)"
    and path: "\<forall>e<dist (2 ^ n) (h1 ?h mod 2 ^ n) q. (h1 ?h mod 2 ^ n + e) mod 2 ^ n \<in> full_set t"
    using find_insert_slot_stops [OF t i(1), of ?h] by auto
  have qnf: "q \<notin> full_set t" "i \<notin> full_set t" using q i by (simp_all add: full_set_def full_at_def)
  have "rt_ctrl t ! q \<in> {EMPTY, DELETED}" using q(1,3) tags_ok_known [OF tags] len by (simp add: tags_known_def)
  then consider "q = i" | "q \<noteq> i" "rt_ctrl t ! q = EMPTY" | "q \<noteq> i" "rt_ctrl t ! q = DELETED" by blast
  then show ?case
  proof cases
    case 1
    let ?t = "t\<lparr>rt_ctrl := (rt_ctrl t)[i := tag_full ?h]\<rparr>"
    have sets: "full_set ?t = insert q (full_set t)" "used ?t = used t" "deleted ?t = deleted t - {i}"
      using i len 1 by (auto simp: full_set_def full_at_def used_def deleted_def nth_list_update)
    have "rehashing hasher n S ?t"
      by (rule rehashing_step [OF R _ _ _ _ sets(1)]) (use sets(2) S inj path i len 1 in \<open>auto simp: nth_list_update\<close>)
    then show ?thesis
      using 1 q i len sets(3) by (simp add: rehash_entry.simps [of hasher i t] replace_ctrl_hash_def index_at_def)
  next
    case 2
    let ?t = "t\<lparr>rt_ctrl := (rt_ctrl t)[q := tag_full ?h, i := EMPTY], rt_data := (rt_data t)(q := rt_data t i)\<rparr>"
    have sets: "full_set ?t = insert q (full_set t)" "used ?t = insert q (used t - {i})" "deleted ?t = deleted t - {i}"
      using i q 2 len by (auto simp: full_set_def full_at_def used_def deleted_def nth_list_update split: if_splits)
    have "i \<in> used t" "q \<notin> used t" using i q 2 len by (auto simp: used_def)
    then have "rt_data ?t ` used ?t = S" "inj_on (rt_data ?t) (used ?t)" using S inj sets(2) by (auto simp: inj_on_def)
    then have "rehashing hasher n S ?t"
      by (intro rehashing_step [OF R _ _ _ _ sets(1)]) (use path qnf q i len 2 in \<open>auto simp: nth_list_update\<close>)
    then show ?thesis
      using 2 q i len sets(3) by (simp add: rehash_entry.simps [of hasher i t] replace_ctrl_hash_def set_ctrl_def index_at_def)
  next
    case 3
    let ?t = "t\<lparr>rt_ctrl := (rt_ctrl t)[q := tag_full ?h], rt_data := (rt_data t)(i := rt_data t q, q := rt_data t i)\<rparr>"
    have sets: "full_set ?t = insert q (full_set t)" "used ?t = used t" "deleted ?t = deleted t - {q}"
      using i q 3 len by (auto simp: full_set_def full_at_def used_def deleted_def nth_list_update split: if_splits)
    have "i \<in> used t" "q \<in> used t" using i q 3 len by (auto simp: used_def)
    then have "rt_data ?t ` used ?t = S" "inj_on (rt_data ?t) (used ?t)" using S inj sets(2) by (auto simp: inj_on_def)
    then have "rehashing hasher n S ?t"
      by (intro rehashing_step [OF R _ _ _ _ sets(1)]) (use path qnf q i len 3 in \<open>auto simp: nth_list_update\<close>)
    moreover have "q \<in> deleted t" using q 3 len by (simp add: deleted_def)
    then have "card (deleted ?t) < card (deleted t)" "i \<in> deleted ?t"
      unfolding sets(3) using 3 less.prems(2) by (simp_all only: card_Diff1_less deleted_finite, simp)
    ultimately show ?thesis
      using less.hyps [of ?t] 3 q i len sets(3)
      by (auto simp: rehash_entry.simps [of hasher i t] replace_ctrl_hash_def index_at_def)
  qed
qed

lemma rehash_fold_ok:
  assumes "rehashing hasher n S t" and "deleted t \<subseteq> set idxs" and "set idxs \<subseteq> {..<2 ^ n}"
  shows "\<exists>t'. foldM (rehash_bucket hasher) idxs t = Some t' \<and> rehashing hasher n S t' \<and> deleted t' = {} \<and> items t' = items t"
  using assms
proof (induction idxs arbitrary: t)
  case (Cons i idxs)
  have len: "length (rt_ctrl t) = 2 ^ n" using Cons.prems(1) table_sizeD(1) by (auto simp: rehashing_def)
  have i: "i < 2 ^ n" using Cons.prems(3) by simp
  obtain t1 where "rehash_bucket hasher i t = Some t1" "rehashing hasher n S t1" "deleted t1 \<subseteq> deleted t - {i}" "items t1 = items t"
  proof (cases "i \<in> deleted t")
    case True
    then show ?thesis
      using rehash_entry_ok [OF Cons.prems(1) True] that i len by (auto simp: rehash_bucket_def index_at_def deleted_def)
  next
    case False
    then show ?thesis using that [of t] Cons.prems(1) i len by (auto simp: rehash_bucket_def index_at_def deleted_def)
  qed
  then show ?case using Cons.IH [of t1] Cons.prems(2,3) by auto
qed simp

text \<open>A table in which nothing is deleted any more stands for its entries.\<close>

lemma rehashed_inv:
  assumes R: "rehashing (make_hasher hash) n S t" and "deleted t = {}" and fst_inj: "inj_on fst S" and "items t = card S"
    and "growth_left t + items t \<le> bucket_mask_to_capacity (bucket_mask t)"
  shows "hm_inv hash t" and "table_map t k = Some v \<longleftrightarrow> (k, v) \<in> S"
proof -
  have tags: "tags_ok (make_hasher hash) t" and S: "rt_data t ` used t = S" and inj: "inj_on (rt_data t) (used t)"
    using R by (simp_all add: rehashing_def)
  have full: "full_set t = used t"
    using assms(2) tags_ok_known [OF tags] by (auto simp: full_set_def full_at_def used_def deleted_def tags_known_def)
  then have "card (used t) = items t" using card_image [OF inj] S assms(4) by simp
  moreover have I: "inj_on (fst \<circ> rt_data t) (full_set t)" using comp_inj_on [OF inj] fst_inj S full by simp
  ultimately show "hm_inv hash t" using R assms(5) full by (auto simp: hm_inv_def rehashing_def)
  show "table_map t k = Some v \<longleftrightarrow> (k, v) \<in> S"
    unfolding table_map_Some [OF I] S [symmetric] full [symmetric] by (auto simp: full_set_def image_iff)
qed

lemma hm_invD:
  assumes "hm_inv hash t"
  obtains n where "table_size n t" "reachable (make_hasher hash) (used t) n t" "tags_ok (make_hasher hash) t"
    "inj_on (fst \<circ> rt_data t) (full_set t)" "items t = card (full_set t)"
    "growth_left t + card (used t) \<le> bucket_mask_to_capacity (bucket_mask t)"
  using assms by (auto simp: hm_inv_def)

lemma hm_inv_parts:
  assumes "hm_inv hash t"
  shows "tags_ok (make_hasher hash) t" "inj_on (fst \<circ> rt_data t) (full_set t)" "items t = card (full_set t)"
    "growth_left t + card (used t) \<le> bucket_mask_to_capacity (bucket_mask t)"
  using assms by (auto simp: hm_inv_def)

text \<open>Rehashing at the same or a larger size.\<close>

definition no_ghosts :: "'a RawTable \<Rightarrow> bool" where
  "no_ghosts t \<longleftrightarrow> items t > 0 \<or> DELETED \<notin> set (rt_ctrl t)"

lemma prepare_ctrl:
  assumes inv: "hm_inv hash t" and "no_ghosts t"
  shows "rt_ctrl (prepare_rehash_in_place t) = map (\<lambda>tag. if tag_is_full tag then DELETED else EMPTY) (rt_ctrl t)"
proof (cases "items t = 0")
  case True
  note tags = hm_inv_parts(1) [OF inv] and it = hm_inv_parts(3) [OF inv]
  have "full_set t = {}" "DELETED \<notin> set (rt_ctrl t)" using it True assms(2) by (auto simp: no_ghosts_def)
  then have "rt_ctrl t ! j = EMPTY" if "j < length (rt_ctrl t)" for j
    using that tags_ok_known [OF tags] by (auto simp: tags_known_def full_set_def full_at_def) (metis nth_mem)
  then show ?thesis using True by (intro nth_equalityI) (auto simp: prepare_rehash_in_place_def rt_is_empty_def)
qed (simp add: prepare_rehash_in_place_def rt_is_empty_def)

text \<open>The table that is rehashed: the old buckets prepared, followed by empty ones.\<close>

definition grown :: "nat \<Rightarrow> nat \<Rightarrow> nat \<Rightarrow> 'a RawTable \<Rightarrow> 'a RawTable" where
  "grown m n gl t = (prepare_rehash_in_place t)\<lparr>rt_ctrl := rt_ctrl (prepare_rehash_in_place t) @ replicate (2 ^ m - 2 ^ n) EMPTY,
     bucket_mask := 2 ^ m - 1, growth_left := gl\<rparr>"

lemma grown_rehashing:
  assumes inv: "hm_inv hash t" and "no_ghosts t" and size: "table_size n t" and n: "n \<le> m" "m < 60"
  shows "rehashing (make_hasher hash) m (rt_data t ` full_set t) (grown m n gl t)"
    and "deleted (grown m n gl t) \<subseteq> {..<2 ^ n}" and "items (grown m n gl t) = items t"
proof -
  let ?t = "grown m n gl t"
  note ctrl = prepare_ctrl [OF assms(1,2)]
  note inj = hm_inv_parts(2) [OF inv]
  have len: "length (rt_ctrl t) = 2 ^ n" using table_sizeD(1) [OF size] .
  have le: "(2 :: nat) ^ n \<le> 2 ^ m" using n by (intro power_increasing) simp_all
  have c1: "rt_ctrl ?t ! j = (if full_at t j then DELETED else EMPTY)" if "j < 2 ^ m" for j
    using that len ctrl by (auto simp: grown_def full_at_def nth_append)
  have f: "length (rt_ctrl ?t) = 2 ^ m" "rt_data ?t = rt_data t" "bucket_mask ?t = 2 ^ m - 1"
    using ctrl len le by (auto simp: grown_def prepare_rehash_in_place_def)
  have lt: "j < 2 ^ n" "j < 2 ^ m" if "full_at t j" for j
    using that less_le_trans [OF _ le, of j] by (simp_all add: full_at_def len)
  have sets: "full_set ?t = {}" "used ?t = full_set t" "deleted ?t = full_set t"
    using c1 f(1) lt by (auto simp: full_set_def full_at_def [of ?t] used_def deleted_def split: if_splits)
  have "table_size m ?t" using f size n by (simp add: table_size_def)
  moreover have "tags_ok (make_hasher hash) ?t" using c1 f(1) by (auto simp: tags_ok_def)
  moreover have "reachable (make_hasher hash) (full_set ?t) m ?t" using sets(1) by (auto simp: reachable_def full_set_def)
  ultimately show "rehashing (make_hasher hash) m (rt_data t ` full_set t) ?t"
    using f(2) sets(2) inj_on_imageI2 [OF inj] by (simp add: rehashing_def)
  show "deleted ?t \<subseteq> {..<2 ^ n}" unfolding sets(3) using lt by (auto simp: full_set_def)
  show "items ?t = items t" by (simp add: grown_def prepare_rehash_in_place_def)
qed

lemma rehash_grow_ok:
  assumes inv: "hm_inv hash t" and "no_ghosts t" and size: "table_size n t" and n: "n \<le> m" "m < 60"
    and cap: "items t \<le> bucket_mask_to_capacity (2 ^ m - 1)"
  shows "\<exists>t'. rehash_in_place_inner (make_hasher hash) (2 ^ n) (grown m n gl t) = Some t' \<and> hm_inv hash t' \<and>
    table_map t' = table_map t \<and> items t' = items t \<and> growth_left t' = bucket_mask_to_capacity (2 ^ m - 1) - items t \<and>
    table_size m t' \<and> DELETED \<notin> set (rt_ctrl t')"
proof -
  let ?h = "make_hasher hash" and ?S = "rt_data t ` full_set t"
  note G = grown_rehashing [OF assms(1-5), of gl]
  note inj = hm_inv_parts(2) [OF inv] and it = hm_inv_parts(3) [OF inv]
  have "(2 :: nat) ^ n \<le> 2 ^ m" using n by (intro power_increasing) simp_all
  then obtain t' where t': "foldM (rehash_bucket ?h) [0..<2 ^ n] (grown m n gl t) = Some t'" "rehashing ?h m ?S t'" "deleted t' = {}"
    "items t' = items t" using rehash_fold_ok [OF G(1), of "[0..<2 ^ n]"] G(2,3) by (auto simp: atLeast0LessThan)
  have cS: "items t = card ?S" "inj_on fst ?S"
    using it inj inj_on_imageI2 [OF inj] by (simp_all add: card_image inj_on_imageI)
  have mask: "bucket_mask t' = 2 ^ m - 1" using t'(2) by (simp add: rehashing_def table_size_def)
  let ?t = "t'\<lparr>growth_left := bucket_mask_to_capacity (2 ^ m - 1) - items t\<rparr>"
  have R: "rehashing ?h m ?S ?t" "deleted ?t = {}"
    using t'(2,3) by (simp_all add: rehashing_def deleted_def)
  have "rehash_in_place_inner ?h (2 ^ n) (grown m n gl t) = Some ?t"
    using t'(1,4) mask cap by (simp add: rehash_in_place_inner_def usize_sub_def)
  moreover have "hm_inv hash ?t" by (rule rehashed_inv(1) [OF R cS(2)]) (use t'(4) cS(1) mask cap in simp_all)
  moreover have "table_map ?t k = Some v \<longleftrightarrow> (k, v) \<in> ?S" for k v
    by (rule rehashed_inv(2) [OF R cS(2)]) (use t'(4) cS(1) mask cap in simp_all)
  then have "table_map ?t k = Some v \<longleftrightarrow> table_map t k = Some v" for k v
    unfolding table_map_Some [OF inj] by (auto simp: full_set_def image_iff)
  then have "table_map ?t = table_map t" by (intro ext) (metis not_Some_eq)
  moreover have "DELETED \<notin> set (rt_ctrl ?t)" using R(2) by (auto simp: deleted_def in_set_conv_nth)
  ultimately show ?thesis using t'(4) R(1) by (auto simp: rehashing_def)
qed

section \<open>Growing\<close>

lemma capacity_eq: "3 \<le> n \<Longrightarrow> bucket_mask_to_capacity (2 ^ n - 1) = 7 * 2 ^ (n - 3)"
proof -
  assume n: "3 \<le> n"
  then have e: "(2 :: nat) ^ n = 8 * 2 ^ (n - 3)" using power_add [of "2 :: nat" 3 "n - 3"] by simp
  show ?thesis
  proof (cases "n = 3")
    case False
    then have "(2 :: nat) ^ 1 \<le> 2 ^ (n - 3)" using n by (intro power_increasing) simp_all
    then show ?thesis unfolding bucket_mask_to_capacity_def e by simp
  qed (simp add: bucket_mask_to_capacity_def)
qed

lemma capacity_less: "3 \<le> n \<Longrightarrow> bucket_mask_to_capacity (2 ^ n - 1) < 2 ^ n"
proof -
  assume n: "3 \<le> n"
  then have "(2 :: nat) ^ n = 8 * 2 ^ (n - 3)" using power_add [of "2 :: nat" 3 "n - 3"] by simp
  then show ?thesis using capacity_eq [OF n] by simp
qed

lemma next_power_of_two_eq:
  assumes "2 ^ n < y" and "y \<le> 2 ^ (n + 1)" and "n + 1 < 64"
  shows "next_power_of_two y = Some (2 ^ (n + 1))"
proof -
  have "\<not> y \<le> 2 ^ k" if "k < n + 1" for k
  proof -
    have "(2 :: nat) ^ k \<le> 2 ^ n" using that by (intro power_increasing) simp_all
    then show ?thesis using assms(1) by linarith
  qed
  then show ?thesis
    using assms(2,3) unfolding next_power_of_two_def find_Some_iff by (intro exI [of _ "n + 1"]) simp
qed

lemma buckets_for_grow:
  assumes "3 \<le> n" and "n < 60"
  shows "buckets_for (bucket_mask_to_capacity (2 ^ n - 1) + 1) = Some (2 ^ (n + 1))"
proof -
  let ?x = "(2 :: nat) ^ (n - 3)"
  have e: "(2 :: nat) ^ n = 8 * ?x" using power_add [of "2 :: nat" 3 "n - 3"] assms(1) by simp
  have "?x \<le> 2 ^ 56" using assms(2) by (intro power_increasing) simp_all
  then have m: "usize_mul (7 * ?x + 1) 8 = Some (56 * ?x + 8)" by (simp add: usize_mul_def algebra_simps)
  have d: "(56 * ?x + 8) div 7 = 2 ^ n + 1" using e by simp
  have "next_power_of_two (2 ^ n + 1) = Some (2 ^ (n + 1))"
    using assms(2) e by (intro next_power_of_two_eq) simp_all
  then show ?thesis using m d e unfolding buckets_for_def capacity_eq [OF assms(1)] by simp
qed

lemma ht_allocate_bound: "ht_allocate g l b = Some (Inr off) \<Longrightarrow> b \<le> MAX_SPACE g"
  by (auto simp: ht_allocate_def calculate_layout_for_def exec_simps split: if_splits prod.splits)

text \<open>The allocation that growing needs succeeds.\<close>

definition can_grow :: "geometry \<Rightarrow> TableLayout \<Rightarrow> 'a RawTable \<Rightarrow> bool" where
  "can_grow g l t \<longleftrightarrow> MAX_SIZE g < 2 ^ 59 \<and> (case ht_allocate g l (2 * rt_buckets t) of Some (Inr _) \<Rightarrow> True | _ \<Rightarrow> False)"

definition hm_ready :: "geometry \<Rightarrow> TableLayout \<Rightarrow> 'a RawTable \<Rightarrow> bool" where
  "hm_ready g l t \<longleftrightarrow> growth_left t > 0 \<or> no_ghosts t \<and> can_grow g l t"

lemma grown_same: "table_size n t \<Longrightarrow> grown n n (growth_left t) t = prepare_rehash_in_place t"
  by (cases t) (simp add: grown_def prepare_rehash_in_place_def table_size_def)

lemma reserve_ok:
  assumes inv: "hm_inv hash t" and ready: "hm_ready g l t"
  shows "\<exists>t'. rt_reserve g l (make_hasher hash) 1 t = Some t' \<and> hm_inv hash t' \<and> table_map t' = table_map t \<and>
    items t' = items t \<and> 0 < growth_left t'"
proof (cases "growth_left t > 0")
  case True
  then show ?thesis using inv by (simp add: rt_reserve_def)
next
  case False
  from inv obtain n where size: "table_size n t" by (rule hm_invD)
  have n: "3 \<le> n" "n < 60" and mask: "bucket_mask t = 2 ^ n - 1" using size by (simp_all add: table_size_def)
  have ng: "no_ghosts t" and cg: "can_grow g l t" using ready False by (simp_all add: hm_ready_def)
  have le: "items t \<le> bucket_mask_to_capacity (2 ^ n - 1)"
    using hm_inv_parts(3,4) [OF inv] card_mono [OF used_finite full_used, of t] mask by simp
  have "(2 :: nat) ^ n \<le> 2 ^ 60" using n by (intro power_increasing) simp_all
  then have add: "usize_add (items t) 1 = Some (items t + 1)"
    using le capacity_less [OF n(1)] by (simp add: usize_add_def)
  show ?thesis
  proof (cases "items t + 1 \<le> bucket_mask_to_capacity (2 ^ n - 1) div 2")
    case True
    obtain t' where "rehash_in_place_inner (make_hasher hash) (2 ^ n) (prepare_rehash_in_place t) = Some t'" "hm_inv hash t'"
      "table_map t' = table_map t" "items t' = items t" "growth_left t' = bucket_mask_to_capacity (2 ^ n - 1) - items t"
      using rehash_grow_ok [OF inv ng size order.refl n(2) le, of "growth_left t"] grown_same [OF size] by auto
    moreover have "rt_buckets (prepare_rehash_in_place t) = 2 ^ n"
      using table_sizeD(2) [OF size] by (simp add: prepare_rehash_in_place_def rt_buckets_def)
    ultimately show ?thesis
      using False True add mask by (simp add: rt_reserve_def reserve_rehash_inner_def rehash_in_place_def Let_def)
  next
    case big: False
    obtain off where off: "ht_allocate g l (2 ^ (n + 1)) = Some (Inr off)" and ms: "MAX_SIZE g < 2 ^ 59"
      using cg table_sizeD(2) [OF size] by (auto simp: can_grow_def split: option.splits sum.splits)
    have "(2 :: nat) ^ (n + 1) < 2 ^ 59" using ht_allocate_bound [OF off] ms by (simp add: MAX_SPACE_def)
    then have n1: "n + 1 < 60" by (simp only: power_strict_increasing_iff)
    have "bucket_mask_to_capacity (2 ^ (n + 1) - 1) = 14 * 2 ^ (n - 3)"
      using n capacity_eq [of "n + 1"] by (simp only: Suc_diff_le Suc_eq_plus1 [symmetric]) simp
    moreover have "items t \<le> 7 * 2 ^ (n - 3)" "0 < (2 :: nat) ^ (n - 3)" using le capacity_eq [OF n(1)] by simp_all
    ultimately have "items t < bucket_mask_to_capacity (2 ^ (n + 1) - 1)" by linarith
    then have le1: "items t \<le> bucket_mask_to_capacity (2 ^ (n + 1) - 1)" "items t < bucket_mask_to_capacity (2 ^ (n + 1) - 1)"
      by simp_all
    let ?gl = "bucket_mask_to_capacity (2 ^ (n + 1) - 1) - items t"
    obtain t' where "rehash_in_place_inner (make_hasher hash) (2 ^ n) (grown (n + 1) n ?gl t) = Some t'" "hm_inv hash t'"
      "table_map t' = table_map t" "items t' = items t" "growth_left t' = ?gl"
      using rehash_grow_ok [OF inv ng size _ n1 le1(1), of ?gl] by auto
    moreover have "items (prepare_rehash_in_place t) = items t" "bucket_mask (prepare_rehash_in_place t) = bucket_mask t"
      by (simp_all add: prepare_rehash_in_place_def)
    moreover have "\<not> (2 :: nat) ^ n \<le> Suc 0" using table_sizeD(4) [OF size] by simp
    ultimately show ?thesis
      using False big add mask off n buckets_for_grow [OF n] le1 table_sizeD(2) [OF size] le
      by (simp add: rt_reserve_def reserve_rehash_inner_def resize_inner_def is_empty_singleton_def Let_def usize_sub_def
        grown_def rt_buckets_def max_def)
  qed
qed

section \<open>The operations of the map\<close>

text \<open>Some bucket is empty, whatever the number of entries.\<close>

lemma has_free:
  assumes "hm_inv hash t" and size: "table_size n t"
  shows "\<exists>i<2 ^ n. rt_ctrl t ! i = EMPTY"
proof (rule ccontr)
  assume "\<not> ?thesis"
  then have "used t = {..<2 ^ n}" using table_sizeD(1) [OF size] by (auto simp: used_def)
  then have "card (used t) = 2 ^ n" by simp
  moreover have "card (used t) < 2 ^ n"
    using hm_inv_parts(4) [OF assms(1)] capacity_less [of n] size by (simp add: table_size_def)
  ultimately show False by simp
qed

lemma items_pos: "hm_inv hash t \<Longrightarrow> items t = 0 \<longleftrightarrow> table_map t = Map.empty"
proof -
  assume "hm_inv hash t"
  then have "items t = 0 \<longleftrightarrow> full_set t = {}" using hm_inv_parts(3) by fastforce
  then show ?thesis using table_map_None [of t] by (auto simp: fun_eq_iff full_set_def)
qed

lemma find_ok:
  assumes inv: "hm_inv hash t"
  shows "case table_map t k of
      Some v \<Rightarrow> \<exists>i. full_at t i \<and> rt_data t i = (k, v) \<and>
        find_or_find_insert_slot_inner (hash k) (equivalent_key k) t = Some (Inr i) \<and>
        find_loop t (tag_full (hash k)) (equivalent_key k) (probe_seq (hash k) t) = Some (Some i)
    | None \<Rightarrow> \<exists>n q. table_size n t \<and> q < 2 ^ n \<and> rt_ctrl t ! q = EMPTY \<and>
        (\<forall>e<dist (2 ^ n) (h1 (hash k) mod 2 ^ n) q. (h1 (hash k) mod 2 ^ n + e) mod 2 ^ n \<in> used t) \<and>
        find_or_find_insert_slot_inner (hash k) (equivalent_key k) t = Some (Inl q) \<and>
        find_loop t (tag_full (hash k)) (equivalent_key k) (probe_seq (hash k) t) = Some None"
proof -
  from inv obtain n where size: "table_size n t" and reach: "reachable (make_hasher hash) (used t) n t"
    and tags: "tags_ok (make_hasher hash) t" and inj: "inj_on (fst \<circ> rt_data t) (full_set t)" by (rule hm_invD)
  show ?thesis
  proof (cases "table_map t k")
    case None
    obtain i where i: "i < 2 ^ n" "rt_ctrl t ! i = EMPTY" using has_free [OF inv size] by blast
    let ?p = "h1 (hash k) mod 2 ^ n"
    obtain d where d: "d < 2 ^ n" "rt_ctrl t ! ((?p + d) mod 2 ^ n) = EMPTY" "\<forall>e<d. (?p + e) mod 2 ^ n \<in> used t"
      "find_slot_loop t (tag_full (hash k)) (equivalent_key k) (probe_seq (hash k) t) = Some (Inl ((?p + d) mod 2 ^ n))"
      "find_loop t (tag_full (hash k)) (equivalent_key k) (probe_seq (hash k) t) = Some None"
      using find_absent [OF size tags _ i, of k] None [unfolded table_map_None] by (auto simp: Let_def)
    have "(?p + dist (2 ^ n) ?p ((?p + d) mod 2 ^ n)) mod 2 ^ n = (?p + d) mod 2 ^ n" by (rule dist_step) simp_all
    moreover have "dist (2 ^ n) ?p ((?p + d) mod 2 ^ n) < 2 ^ n" by (rule dist_less) simp
    ultimately have "dist (2 ^ n) ?p ((?p + d) mod 2 ^ n) = d" using d(1) by (meson step_inj)
    then have "\<forall>e<dist (2 ^ n) ?p ((?p + d) mod 2 ^ n). (?p + e) mod 2 ^ n \<in> used t" using d(3) by (simp only:)
    moreover have "(?p + d) mod 2 ^ n < 2 ^ n" by simp
    ultimately show ?thesis
      using d size unfolding find_or_find_insert_slot_inner_def None option.case by blast
  next
    case (Some v)
    then obtain i where "full_at t i" "rt_data t i = (k, v)" using table_map_Some [OF inj] by blast
    then show ?thesis
      using find_at [OF size reach tags inj, of i k] Some by (auto simp: find_or_find_insert_slot_inner_def)
  qed
qed

lemma find_inner_ok:
  assumes "hm_inv hash t" and "items t > 0"
  shows "find_inner (hash k) (equivalent_key k) t = find_loop t (tag_full (hash k)) (equivalent_key k) (probe_seq (hash k) t)"
  using assms(2) by (simp add: find_inner_def rt_is_empty_def)

lemma hm_get_ok:
  assumes inv: "hm_inv hash t" and "table_map t \<noteq> Map.empty"
  shows "hm_get hash k t = Some (table_map t k)"
proof -
  have "items t > 0" using items_pos [OF inv] assms(2) by simp
  then show ?thesis
    using find_ok [OF inv, of k] find_inner_ok [OF inv] by (auto simp: hm_get_def rt_get_def split: option.splits)
qed

text \<open>A table with the same entries but one.\<close>

lemma hm_remove_ok:
  assumes inv: "hm_inv hash t" and ne: "table_map t \<noteq> Map.empty"
  shows "\<exists>t'. hm_remove hash k t = Some (table_map t k, t') \<and> hm_inv hash t' \<and> table_map t' = (table_map t)(k := None)"
proof -
  have pos: "items t > 0" using items_pos [OF inv] ne by simp
  show ?thesis
  proof (cases "table_map t k")
    case None
    then show ?thesis
      using find_ok [OF inv, of k] find_inner_ok [OF inv pos] inv
      by (auto simp: hm_remove_def rt_remove_def fun_upd_idem)
  next
    case (Some v)
    then obtain i where i: "full_at t i" "rt_data t i = (k, v)"
      "find_inner (hash k) (equivalent_key k) t = Some (Some i)"
      using find_ok [OF inv, of k] find_inner_ok [OF inv pos, of k] by auto
    from inv obtain n where size: "table_size n t" and reach: "reachable (make_hasher hash) (used t) n t"
      and tags: "tags_ok (make_hasher hash) t" and inj: "inj_on (fst \<circ> rt_data t) (full_set t)" by (rule hm_invD)
    let ?t = "t\<lparr>rt_ctrl := (rt_ctrl t)[i := DELETED], items := items t - 1\<rparr>"
    have r: "hm_remove hash k t = Some (Some v, ?t)"
      using i pos by (simp add: hm_remove_def rt_remove_def rt_erase_def set_ctrl_def index_at_def full_at_def usize_sub_def)
    have sets: "full_set ?t = full_set t - {i}" "used ?t = used t"
      using i(1) by (auto simp: full_set_def full_at_def used_def nth_list_update split: if_splits)
    have inj': "inj_on (fst \<circ> rt_data ?t) (full_set ?t)" using inj sets(1) by (auto simp: inj_on_def)
    have "tags_ok (make_hasher hash) ?t" using tags i(1) by (auto simp: tags_ok_def full_at_def nth_list_update)
    moreover have "reachable (make_hasher hash) (used ?t) n ?t"
      using reach i(1) unfolding reachable_def sets(2) by (auto simp: full_at_def nth_list_update split: if_splits)
    moreover have "items ?t = card (full_set ?t)" using hm_inv_parts(3) [OF inv] i(1) sets(1) by (simp add: full_set_def)
    ultimately have "hm_inv hash ?t"
      using size inj' hm_inv_parts(4) [OF inv] sets(2) by (auto simp: hm_inv_def table_size_def)
    moreover have "table_map ?t k' = Some v' \<longleftrightarrow> k' \<noteq> k \<and> table_map t k' = Some v'" for k' v'
      unfolding table_map_Some [OF inj'] table_map_Some [OF inj]
      using sets(1) i inj by (auto simp: full_set_def inj_on_def set_eq_iff)
    then have "table_map ?t k' = ((table_map t)(k := None)) k'" for k' by (cases "table_map ?t k'") (auto split: option.splits, metis not_Some_eq)
    ultimately show ?thesis using r Some by (auto simp: fun_eq_iff)
  qed
qed

lemma update_ok:
  assumes inv: "hm_inv hash t" and i: "full_at t i" "rt_data t i = (k, u)"
  shows "hm_inv hash (t\<lparr>rt_data := (rt_data t)(i := (k, v))\<rparr>)"
    and "table_map (t\<lparr>rt_data := (rt_data t)(i := (k, v))\<rparr>) = (table_map t)(k \<mapsto> v)"
proof -
  from inv obtain n where size: "table_size n t" and reach: "reachable (make_hasher hash) (used t) n t"
    and tags: "tags_ok (make_hasher hash) t" and inj: "inj_on (fst \<circ> rt_data t) (full_set t)" by (rule hm_invD)
  let ?t = "t\<lparr>rt_data := (rt_data t)(i := (k, v))\<rparr>"
  have sets: "full_set ?t = full_set t" "used ?t = used t" "full_at ?t = full_at t"
    by (auto simp: full_set_def full_at_def used_def fun_eq_iff)
  have fst_eq: "fst \<circ> rt_data ?t = fst \<circ> rt_data t" using i(2) by (auto simp: fun_eq_iff)
  then have h: "make_hasher hash (rt_data ?t j) = make_hasher hash (rt_data t j)" for j
    by (auto simp: make_hasher_def fun_eq_iff)
  have "tags_ok (make_hasher hash) ?t" using tags unfolding tags_ok_def h by simp
  moreover have "reachable (make_hasher hash) (used ?t) n ?t" using reach unfolding reachable_def sets h by simp
  ultimately show "hm_inv hash ?t"
    using inv size sets fst_eq by (auto simp: hm_inv_def table_size_def)
  have inj': "inj_on (fst \<circ> rt_data ?t) (full_set ?t)" using inj sets fst_eq by simp
  have "table_map ?t k' = Some v' \<longleftrightarrow> ((table_map t)(k \<mapsto> v)) k' = Some v'" for k' v'
  proof (cases "k' = k")
    case True
    then show ?thesis
      unfolding table_map_Some [OF inj'] sets using i inj by (auto simp: inj_on_def full_set_def)
  next
    case False
    then show ?thesis
      using table_map_Some [OF inj, of k' v'] i(2) unfolding table_map_Some [OF inj'] sets by auto (metis prod.inject)
  qed
  then show "table_map ?t = (table_map t)(k \<mapsto> v)" by (rule map_eqI)
qed

lemma add_ok:
  assumes inv: "hm_inv hash t" and new: "table_map t k = None" and size: "table_size n t"
    and q: "q < 2 ^ n" "rt_ctrl t ! q = EMPTY"
      "\<forall>e<dist (2 ^ n) (h1 (hash k) mod 2 ^ n) q. (h1 (hash k) mod 2 ^ n + e) mod 2 ^ n \<in> used t"
    and gl: "0 < growth_left t"
  shows "\<exists>t'. insert_in_slot (hash k) q (k, v) t = Some t' \<and> hm_inv hash t' \<and> table_map t' = (table_map t)(k \<mapsto> v)"
proof -
  from inv obtain n' where "table_size n' t" "reachable (make_hasher hash) (used t) n' t"
    and tags: "tags_ok (make_hasher hash) t" and inj: "inj_on (fst \<circ> rt_data t) (full_set t)" by (rule hm_invD)
  moreover from this size have "n' = n" by (auto simp: table_size_def)
  ultimately have reach: "reachable (make_hasher hash) (used t) n t" by simp
  have len: "length (rt_ctrl t) = 2 ^ n" using table_sizeD(1) [OF size] .
  let ?t = "t\<lparr>growth_left := growth_left t - 1, rt_ctrl := (rt_ctrl t)[q := tag_full (hash k)], items := items t + 1,
    rt_data := (rt_data t)(q := (k, v))\<rparr>"
  have "(2 :: nat) ^ n \<le> 2 ^ 60" using size by (intro power_increasing) (simp_all add: table_size_def)
  then have "items t + 1 < 2 ^ 64"
    using hm_inv_parts(3,4) [OF inv] card_mono [OF used_finite full_used, of t] capacity_less [of n] size
    by (simp add: table_size_def)
  then have r: "insert_in_slot (hash k) q (k, v) t = Some ?t"
    using q(1,2) len gl by (simp add: insert_in_slot_def index_at_def usize_sub_def usize_add_def)
  have sets: "full_set ?t = insert q (full_set t)" "used ?t = insert q (used t)"
    using q(1,2) len by (auto simp: full_set_def full_at_def used_def nth_list_update split: if_splits)
  have qn: "q \<notin> used t" "q \<notin> full_set t" using q(2) by (simp_all add: used_def full_set_def full_at_def)
  have fresh: "fst (rt_data t j) \<noteq> k" if "j \<in> full_set t" for j
    using new that unfolding table_map_None by (simp add: full_set_def)
  have "tags_ok (make_hasher hash) ?t"
    using tags q(1) len by (auto simp: tags_ok_def nth_list_update make_hasher_def)
  moreover have "reachable (make_hasher hash) (used ?t) n ?t"
    unfolding reachable_def
  proof (intro allI impI)
    fix i e
    assume "full_at ?t i" "e < dist (2 ^ n) (h1 (make_hasher hash (rt_data ?t i)) mod 2 ^ n) i"
    moreover from this(1) have "i = q \<or> full_at t i \<and> i \<noteq> q" using sets(1) qn by (auto simp: full_set_def)
    ultimately show "(h1 (make_hasher hash (rt_data ?t i)) mod 2 ^ n + e) mod 2 ^ n \<in> used ?t"
      using reach q(3) sets(2) by (auto simp: reachable_def make_hasher_def)
  qed
  moreover have inj': "inj_on (fst \<circ> rt_data ?t) (full_set ?t)"
    using inj fresh qn unfolding sets(1) by (auto simp: inj_on_def)
  moreover have "items ?t = card (full_set ?t)" "growth_left ?t + card (used ?t) \<le> bucket_mask_to_capacity (bucket_mask ?t)"
    unfolding sets using qn gl hm_inv_parts(3,4) [OF inv] by simp_all
  ultimately have "hm_inv hash ?t" using size by (auto simp: hm_inv_def table_size_def)
  moreover have "table_map ?t k' = Some v' \<longleftrightarrow> ((table_map t)(k \<mapsto> v)) k' = Some v'" for k' v'
  proof -
    have "table_map ?t k' = Some v' \<longleftrightarrow> (\<exists>i\<in>full_set ?t. rt_data ?t i = (k', v'))"
      unfolding table_map_Some [OF inj'] by (auto simp: full_set_def)
    also have "\<dots> \<longleftrightarrow> (k', v') = (k, v) \<or> (\<exists>i\<in>full_set t. rt_data t i = (k', v'))"
      unfolding sets(1) using qn(2) by auto
    also have "\<dots> \<longleftrightarrow> ((table_map t)(k \<mapsto> v)) k' = Some v'"
    proof (cases "k' = k")
      case True
      then have "\<not> (\<exists>i\<in>full_set t. rt_data t i = (k', v'))" using fresh by force
      then show ?thesis using True by auto
    next
      case False
      then show ?thesis using table_map_Some [OF inj, of k' v'] by (simp add: full_set_def)
    qed
    finally show ?thesis .
  qed
  then have "table_map ?t = (table_map t)(k \<mapsto> v)" by (rule map_eqI)
  ultimately show ?thesis using r by blast
qed

lemma hm_insert_ok:
  assumes inv: "hm_inv hash t" and ready: "hm_ready g l t"
  shows "\<exists>t'. hm_insert g l hash k v t = Some (table_map t k, t') \<and> hm_inv hash t' \<and> table_map t' = (table_map t)(k \<mapsto> v)"
proof -
  obtain t1 where t1: "rt_reserve g l (make_hasher hash) 1 t = Some t1" "hm_inv hash t1" "table_map t1 = table_map t" "0 < growth_left t1"
    using reserve_ok [OF assms] by blast
  show ?thesis
  proof (cases "table_map t k")
    case None
    then obtain n q where n: "table_size n t1" "q < 2 ^ n" "rt_ctrl t1 ! q = EMPTY"
      "\<forall>e<dist (2 ^ n) (h1 (hash k) mod 2 ^ n) q. (h1 (hash k) mod 2 ^ n + e) mod 2 ^ n \<in> used t1"
      "find_or_find_insert_slot_inner (hash k) (equivalent_key k) t1 = Some (Inl q)"
      using find_ok [OF t1(2), of k] t1(3) by auto
    obtain t' where "insert_in_slot (hash k) q (k, v) t1 = Some t'" "hm_inv hash t'" "table_map t' = (table_map t)(k \<mapsto> v)"
      using add_ok [OF t1(2) _ n(1-4) t1(4)] None t1(3) by metis
    then show ?thesis using None t1(1) n(5) by (simp add: hm_insert_def find_or_find_insert_slot_def)
  next
    case (Some u)
    then obtain i where i: "full_at t1 i" "rt_data t1 i = (k, u)"
      "find_or_find_insert_slot_inner (hash k) (equivalent_key k) t1 = Some (Inr i)"
      using find_ok [OF t1(2), of k] t1(3) by auto
    then show ?thesis
      using Some t1(1,3) update_ok [OF t1(2) i(1,2), of v] by (simp add: hm_insert_def find_or_find_insert_slot_def)
  qed
qed

lemma hm_clear_ok:
  assumes inv: "hm_inv hash t"
  shows "hm_inv hash (rt_clear t)" and "table_map (rt_clear t) = Map.empty"
proof -
  from inv obtain n where size: "table_size n t" by (rule hm_invD)
  have "rt_clear t = t\<lparr>rt_ctrl := replicate (2 ^ n) EMPTY, items := 0\<rparr>"
    using table_sizeD(2,4) [OF size] by (simp add: rt_clear_def is_empty_singleton_def rt_buckets_def)
  moreover have "full_set (t\<lparr>rt_ctrl := replicate (2 ^ n) EMPTY, items := 0\<rparr>) = {}"
    "used (t\<lparr>rt_ctrl := replicate (2 ^ n) EMPTY, items := 0\<rparr>) = {}"
    by (auto simp: full_set_def full_at_def used_def)
  ultimately show "hm_inv hash (rt_clear t)" "table_map (rt_clear t) = Map.empty"
    using size hm_inv_parts(4) [OF inv]
    by (auto simp: hm_inv_def table_size_def tags_ok_def reachable_def full_set_def fun_eq_iff table_map_None intro!: exI [of _ n])
qed

lemma hm_new_ok:
  assumes "hm_with_builder g l mem = Some (Inr t)"
  shows "hm_inv hash t" and "table_map t = Map.empty" and "growth_left t = 7" and "table_size 3 t"
proof -
  have "next_power_of_two 1 = Some 1" by (simp add: next_power_of_two_def upt_rec)
  then have "buckets_for 1 = Some 8" by (simp add: buckets_for_def usize_mul_def)
  then have t: "t = (RawTable_new mem)\<lparr>bucket_mask := 7, growth_left := 7, items := 0, rt_ctrl := replicate 8 EMPTY\<rparr>"
    using assms by (cases "ht_allocate g l 8"; cases "the (ht_allocate g l 8)")
      (auto simp: hm_with_builder_def rt_bootstrap_def bucket_mask_to_capacity_def)
  then have "full_set t = {}" "used t = {}" "table_size 3 t" "growth_left t = 7"
    by (auto simp: full_set_def full_at_def used_def table_size_def)
  then show "hm_inv hash t" "table_map t = Map.empty" "growth_left t = 7" "table_size 3 t"
    using t by (auto simp: hm_inv_def tags_ok_def reachable_def full_set_def fun_eq_iff table_map_None RawTable_new_def
      bucket_mask_to_capacity_def)
qed

section \<open>The contract of a map\<close>

locale finite_map =
  fixes inv :: "'s \<Rightarrow> bool"
    and content :: "'s \<Rightarrow> 'k \<Rightarrow> 'v option"
    and ready :: "'s \<Rightarrow> bool"
    and ins :: "'k \<Rightarrow> 'v \<Rightarrow> 's \<Rightarrow> ('v option \<times> 's) option"
    and del :: "'k \<Rightarrow> 's \<Rightarrow> ('v option \<times> 's) option"
    and lookup :: "'k \<Rightarrow> 's \<Rightarrow> 'v option option"
  assumes insert_law: "inv s \<Longrightarrow> ready s \<Longrightarrow>
      \<exists>s'. ins k v s = Some (content s k, s') \<and> inv s' \<and> content s' = (content s)(k \<mapsto> v)"
    and remove_law: "inv s \<Longrightarrow> content s \<noteq> Map.empty \<Longrightarrow>
      \<exists>s'. del k s = Some (content s k, s') \<and> inv s' \<and> content s' = (content s)(k := None)"
    and lookup_law: "inv s \<Longrightarrow> content s \<noteq> Map.empty \<Longrightarrow> lookup k s = Some (content s k)"
begin

text \<open>What a lookup finds after an insertion, and after an insertion and the removal of another key.\<close>

lemma insert_lookup:
  assumes "inv s" and "ready s"
  shows "\<exists>s'. ins k v s = Some (content s k, s') \<and> inv s' \<and>
    (\<forall>k'. lookup k' s' = Some (if k' = k then Some v else content s k'))"
proof -
  obtain s' where s': "ins k v s = Some (content s k, s')" "inv s'" "content s' = (content s)(k \<mapsto> v)"
    using insert_law [OF assms] by blast
  moreover from s'(3) have "content s' \<noteq> Map.empty" by auto
  ultimately show ?thesis using lookup_law [of s'] by auto
qed

lemma insert_remove:
  assumes "inv s" and "ready s" and "content s j = Some u" and "j \<noteq> k"
  shows "\<exists>s1 s2. ins k v s = Some (content s k, s1) \<and> del k s1 = Some (Some v, s2) \<and> inv s2 \<and>
    (\<forall>k'. lookup k' s2 = Some (if k' = k then None else content s k'))"
proof -
  obtain s1 where s1: "ins k v s = Some (content s k, s1)" "inv s1" "content s1 = (content s)(k \<mapsto> v)"
    using insert_law [OF assms(1,2)] by blast
  moreover from s1(3) have "content s1 \<noteq> Map.empty" by auto
  ultimately obtain s2 where s2: "del k s1 = Some (Some v, s2)" "inv s2" "content s2 = (content s)(k := None)"
    using remove_law [of s1 k] by auto
  moreover from s2(3) assms(3,4) have "content s2 \<noteq> Map.empty" by (metis fun_upd_apply option.distinct(1))
  ultimately show ?thesis using s1(1) lookup_law [of s2] by auto
qed

end

interpretation hm: finite_map "hm_inv hash" table_map "hm_ready g l" "hm_insert g l hash" "hm_remove hash" "hm_get hash"
  for hash g l
  by unfold_locales (simp_all add: hm_insert_ok hm_remove_ok hm_get_ok)

end
