(* ===== verification/Hash_Churn.thy ===== *)
theory Hash_Churn
  imports Hash_Map
begin

text \<open>
  Entries that were removed, lookups in an empty map, and the place of a table in its object.
\<close>

section \<open>Removed entries\<close>

text \<open>
  Tables in which the first buckets were used and freed again: keys are numbers, each its own
  hash, and \<open>val k\<close> is the value of key \<open>k\<close>.
\<close>

definition id_hash :: "nat \<Rightarrow> u64" where
  "id_hash k = of_nat k"

definition churned :: "(nat \<Rightarrow> nat \<times> 'v) \<Rightarrow> (nat \<Rightarrow> 'v) \<Rightarrow> nat \<Rightarrow> (nat \<times> 'v) RawTable" where
  "churned mem val i = \<lparr>rt_ctrl = replicate i DELETED @ replicate (8 - i) EMPTY,
     rt_data = (\<lambda>j. if j < i then (j, val j) else mem j), bucket_mask = 7, growth_left = 7 - i, items = 0\<rparr>"

definition churn :: "geometry \<Rightarrow> TableLayout \<Rightarrow> (nat \<Rightarrow> 'v) \<Rightarrow> nat \<Rightarrow> (nat \<times> 'v) RawTable \<Rightarrow> (nat \<times> 'v) RawTable option" where
  "churn g l val k t = do {
     (_, t) \<leftarrow> hm_insert g l id_hash k (val k) t;
     (_, t) \<leftarrow> hm_remove id_hash k t;
     Some t }"

lemma probe_id_hash: "k < 8 \<Longrightarrow> bucket_mask t = 7 \<Longrightarrow> probe_seq (id_hash k) t = k"
  using nat_and_mask [of k 3] by (simp add: probe_seq_def h1_def id_hash_def unat_of_nat)

definition inserted :: "(nat \<Rightarrow> nat \<times> 'v) \<Rightarrow> (nat \<Rightarrow> 'v) \<Rightarrow> nat \<Rightarrow> (nat \<times> 'v) RawTable" where
  "inserted mem val i = \<lparr>rt_ctrl = replicate i DELETED @ tag_full (id_hash i) # replicate (7 - i) EMPTY,
     rt_data = (rt_data (churned mem val i))(i := (i, val i)), bucket_mask = 7, growth_left = 6 - i, items = 1\<rparr>"

lemma churn_insert:
  assumes i: "i < 7"
  shows "hm_insert g l id_hash i (val i) (churned mem val i) = Some (None, inserted mem val i)"
proof -
  let ?t = "churned mem val i"
  have c: "replicate (8 - i) EMPTY = EMPTY # replicate (7 - i) EMPTY"
    using i replicate_Suc [of "7 - i" EMPTY] by (simp add: Suc_diff_le [symmetric])
  have "find_slot_loop ?t (tag_full (id_hash i)) (equivalent_key i) i = Some (Inl i)"
    using i by (subst find_slot_loop.simps) (simp add: churned_def c index_at_def nth_append tag_full_neq [symmetric])
  then show ?thesis
    using i probe_id_hash [of i ?t]
    by (simp add: hm_insert_def find_or_find_insert_slot_def rt_reserve_def find_or_find_insert_slot_inner_def insert_in_slot_def
      inserted_def churned_def c index_at_def nth_append usize_sub_def usize_add_def list_update_append)
qed

lemma churn_remove:
  assumes i: "i < 7"
  shows "hm_remove id_hash i (inserted mem val i) = Some (Some (val i), churned mem val (Suc i))"
proof -
  let ?t = "inserted mem val i"
  have "find_loop ?t (tag_full (id_hash i)) (equivalent_key i) i = Some (Some i)"
    by (subst find_loop.simps) (simp add: inserted_def index_at_def nth_append equivalent_key_def)
  then have "hm_remove id_hash i ?t = Some (Some (val i), ?t\<lparr>rt_ctrl := (rt_ctrl ?t)[i := DELETED], items := 0\<rparr>)"
    using i probe_id_hash [of i ?t]
    by (simp add: inserted_def hm_remove_def rt_remove_def find_inner_def rt_is_empty_def rt_erase_def set_ctrl_def index_at_def
      usize_sub_def)
  moreover have "?t\<lparr>rt_ctrl := (rt_ctrl ?t)[i := DELETED], items := 0\<rparr> = churned mem val (Suc i)"
    using i by (auto simp: inserted_def churned_def list_update_append replicate_append_same [symmetric] fun_eq_iff)
  ultimately show ?thesis by simp
qed

lemma churn_step: "i < 7 \<Longrightarrow> churn g l val i (churned mem val i) = Some (churned mem val (Suc i))"
  by (simp add: churn_def churn_insert churn_remove)

lemma churn_all: "n \<le> 7 \<Longrightarrow> foldM (churn g l val) [0..<n] (churned mem val 0) = Some (churned mem val n)"
  by (induction n) (simp_all add: churn_step)

lemma churned_new: "hm_with_builder g l mem = Some (Inr t) \<Longrightarrow> t = churned mem val 0"
  by (cases "ht_allocate g l 8"; cases "the (ht_allocate g l 8)")
    (auto simp: hm_with_builder_def rt_bootstrap_def bucket_mask_to_capacity_def churned_def RawTable_new_def buckets_for_def
      usize_mul_def next_power_of_two_def upt_rec)

lemma churned_fields:
  "items (churned mem val i) = 0" "bucket_mask (churned mem val i) = 7" "growth_left (churned mem val i) = 7 - i"
  by (simp_all add: churned_def)

lemma churned_rehashing:
  "rehashing (make_hasher id_hash) 3 ((\<lambda>j. (j, val j)) ` {..<7}) (churned mem val 7)"
  "deleted (churned mem val 7) = {..<7}" "full_set (churned mem val 7) = {}"
proof -
  let ?t = "churned mem val 7"
  have c: "rt_ctrl ?t ! j = (if j < 7 then DELETED else EMPTY)" if "j < 8" for j
    using that by (auto simp: churned_def nth_append)
  have len: "length (rt_ctrl ?t) = 8" by (simp add: churned_def)
  show "deleted ?t = {..<7}" and f: "full_set ?t = {}"
    using c len by (auto simp: deleted_def full_set_def full_at_def split: if_splits)
  have "used ?t = {..<7}" using c len by (auto simp: used_def split: if_splits)
  moreover have "rt_data ?t j = (j, val j)" if "j < 7" for j using that by (simp add: churned_def)
  ultimately have "rt_data ?t ` used ?t = (\<lambda>j. (j, val j)) ` {..<7}" "inj_on (rt_data ?t) (used ?t)"
    by (auto simp: inj_on_def)
  moreover have "tags_ok (make_hasher id_hash) ?t" using c len by (auto simp: tags_ok_def)
  moreover have "table_size 3 ?t" by (simp add: table_size_def churned_def)
  moreover have "reachable (make_hasher id_hash) (full_set ?t) 3 ?t" using f by (auto simp: reachable_def full_set_def)
  ultimately show "rehashing (make_hasher id_hash) 3 ((\<lambda>j. (j, val j)) ` {..<7}) ?t" by (simp add: rehashing_def)
qed

lemma churned_reserve:
  "\<exists>t. hm_reserve g l id_hash 1 (churned mem val 7) = Some t \<and> items t = 0 \<and>
    table_map t = (\<lambda>k. if k < 7 then Some (val k) else None)"
proof -
  let ?t = "churned mem val 7" and ?S = "(\<lambda>j. (j, val j)) ` {..<7}"
  obtain t' where t': "foldM (rehash_bucket (make_hasher id_hash)) [0..<8] ?t = Some t'" "items t' = items ?t"
    "rehashing (make_hasher id_hash) 3 ?S t'" "deleted t' = {}"
    using rehash_fold_ok [OF churned_rehashing(1), of mem val "[0..<8]"] churned_rehashing(2) [of mem val]
    by (auto simp: atLeast0LessThan)
  then have t'5: "bucket_mask t' = 7" "items t' = 0" by (simp_all add: rehashing_def table_size_def churned_def)
  then have r: "hm_reserve g l id_hash 1 ?t = Some (t'\<lparr>growth_left := 7\<rparr>)"
  proof -
    have "rehash_in_place (make_hasher id_hash) ?t = Some (t'\<lparr>growth_left := 7\<rparr>)"
      using t'(1) t'5 by (simp del: upt_Suc_append upt_rec_numeral upt_Suc foldM_append add: rehash_in_place_def prepare_rehash_in_place_def rt_is_empty_def
        rt_buckets_def rehash_in_place_inner_def usize_sub_def bucket_mask_to_capacity_def churned_fields)
    then show ?thesis
      by (simp add: hm_reserve_def rt_reserve_def reserve_rehash_inner_def usize_add_def bucket_mask_to_capacity_def churned_fields)
  qed
  have full: "full_set t' = used t'"
    using t'(3,4) tags_ok_known [of "make_hasher id_hash" t']
    by (auto simp: full_set_def full_at_def used_def deleted_def tags_known_def rehashing_def)
  have img: "rt_data t' ` full_set t' = ?S" and inj: "inj_on (rt_data t') (full_set t')"
    using t'(3) full by (simp_all add: rehashing_def)
  have "inj_on (fst \<circ> rt_data t') (full_set t')"
    using comp_inj_on [OF inj, of fst] unfolding img by (auto simp: inj_on_def)
  then have "table_map t' k = Some v \<longleftrightarrow> (k, v) \<in> rt_data t' ` full_set t'" for k v
    by (auto simp: table_map_Some full_set_def image_iff)
  then have "table_map t' = (\<lambda>k. if k < 7 then Some (val k) else None)"
    unfolding img by (intro map_eqI) auto
  moreover have "table_map (t'\<lparr>growth_left := 7\<rparr>) = table_map t'" by (simp add: fun_eq_iff table_map_def)
  ultimately show ?thesis using r t'5 by simp
qed

section \<open>Place in the object\<close>

lemma ctrl_offset_ge:
  assumes "calculate_ctrl_offset l b = Some off" and "is_pow2 (ctrl_align l)"
  shows "tl_size l * b \<le> off"
proof -
  from assms(2) obtain k where k: "ctrl_align l = 2 ^ k" "k < 64" by (auto simp: is_pow2_def)
  define a where "a = ctrl_align l - 1"
  let ?n = "tl_size l * b + a"
  from assms(1) have n: "?n < 2 ^ 64" and off: "off = unat (of_nat ?n AND NOT (of_nat a) :: usize)"
    unfolding calculate_ctrl_offset_def a_def
    by (simp_all del: of_nat_add of_nat_diff of_nat_mult add: usize_mul_def usize_add_def usize_sub_def split: if_splits)
  have "of_nat a = (mask k :: usize)" using k(1) by (simp add: a_def mask_eq_exp_minus_1 of_nat_diff)
  then have "off = ?n div 2 ^ k * 2 ^ k" using n unfolding off by (simp del: of_nat_add add: unat_and_not_mask unat_of_nat)
  moreover have "?n mod 2 ^ k < 2 ^ k" by simp
  then have "?n mod 2 ^ k \<le> a" unfolding a_def k(1) by linarith
  ultimately show ?thesis using div_mult_mod_eq [of ?n "2 ^ k"] by linarith
qed

lemma align_up_mod:
  fixes m x :: nat
  assumes "0 < m"
  shows "(x + (m - x mod m)) mod m = 0"
proof -
  have "x + (m - x mod m) = Suc (x div m) * m"
    using mod_less_divisor [OF assms, of x] div_mult_mod_eq [of x m] unfolding mult_Suc by linarith
  then show ?thesis by (simp only: mod_mult_self2_is_0)
qed

lemma allocate_facts:
  assumes "ht_allocate g l b = Some (Inr off)" and "is_pow2 (ctrl_align l)"
  shows "b * (tl_size l + 1) \<le> MAX_SPACE g" and "0 < b"
    and "off = NULLPAGE_SIZE g * 2 + (MAX_SPACE g div (tl_size l + 1) * tl_size l +
      (MAX_ALIGNMENT - MAX_SPACE g div (tl_size l + 1) * tl_size l mod MAX_ALIGNMENT))"
proof -
  from assms(1) obtain c where "calculate_ctrl_offset l b = Some c" "c + b + INVARIANT_GROUP_WIDTH \<le> MAX_SPACE g"
    by (auto simp: ht_allocate_def calculate_layout_for_def exec_simps split: if_splits)
  then show "b * (tl_size l + 1) \<le> MAX_SPACE g" using ctrl_offset_ge [OF _ assms(2)] by (fastforce simp: algebra_simps)
  have "is_pow2 b" using assms(1) by (cases "is_pow2 b") (simp_all add: ht_allocate_def)
  then show "0 < b" by (auto simp: is_pow2_def)
  show "off = NULLPAGE_SIZE g * 2 + (MAX_SPACE g div (tl_size l + 1) * tl_size l +
      (MAX_ALIGNMENT - MAX_SPACE g div (tl_size l + 1) * tl_size l mod MAX_ALIGNMENT))"
    using assms(1) by (auto simp: ht_allocate_def exec_simps Let_def split: if_splits)
qed

section \<open>Properties\<close>

definition demo_geometry :: geometry where
  "demo_geometry = \<lparr>MAX_SIZE = 2 ^ 30, NULLPAGE_SIZE = 4096\<rparr>"

definition demo_layout :: TableLayout where
  "demo_layout = TableLayout_new 16 8"

lemma demo_allocate: "ht_allocate demo_geometry demo_layout 8 = Some (Inr 1010573312)"
  by (simp add: ht_allocate_def demo_geometry_def demo_layout_def TableLayout_new_def INVARIANT_GROUP_WIDTH_def MAX_SPACE_def
    MAX_ALIGNMENT_def calculate_layout_for_def calculate_ctrl_offset_def usize_mul_def usize_sub_def usize_add_def is_pow2_def
    upt_rec)

text \<open>
  C10. A table that was allocated lies inside its object: the entries, which grow down from the tags,
  stay above the first two pages, and the tags end two pages before the end of the object.
\<close>

theorem hash_table_fits_object:
  assumes "ht_allocate g l b = Some (Inr off)" and "is_pow2 (ctrl_align l)"
  shows "NULLPAGE_SIZE g * 2 + tl_size l * b \<le> off \<and> off + b \<le> MAX_SIZE g - NULLPAGE_SIZE g * 2 \<and>
    (off - NULLPAGE_SIZE g * 2) mod MAX_ALIGNMENT = 0"
proof -
  note f = allocate_facts [OF assms]
  let ?s = "tl_size l" and ?M = "MAX_SPACE g"
  have b: "b \<le> ?M div (?s + 1)" using f(1) by (simp add: less_eq_div_iff_mult_less_eq)
  then have "?s * b \<le> ?M div (?s + 1) * ?s" using mult_le_mono2 [OF b, of ?s] by (simp only: mult.commute)
  then have "NULLPAGE_SIZE g * 2 + ?s * b \<le> off" unfolding f(3) by (intro add_le_mono le_refl trans_le_add1)
  moreover have "?M div (?s + 1) * ?s + b \<le> ?M"
    using b div_times_less_eq_dividend [of ?M "?s + 1"] by (simp add: algebra_simps)
  then have "off + b \<le> NULLPAGE_SIZE g * 2 + ?M + MAX_ALIGNMENT" using f(3) by simp
  moreover have "0 < ?M" using f(1,2) by (cases "?M") auto
  then have "NULLPAGE_SIZE g * 2 + ?M + MAX_ALIGNMENT = MAX_SIZE g - NULLPAGE_SIZE g * 2" by (simp add: MAX_SPACE_def)
  moreover have "(x + (MAX_ALIGNMENT - x mod MAX_ALIGNMENT)) mod MAX_ALIGNMENT = 0" for x
    by (rule align_up_mod) (simp add: MAX_ALIGNMENT_def)
  then have "(off - NULLPAGE_SIZE g * 2) mod MAX_ALIGNMENT = 0" unfolding f(3) by (simp only: diff_add_inverse)
  ultimately show ?thesis by simp
qed

theorem hash_table_fits_object_witness:
  "NULLPAGE_SIZE demo_geometry * 2 + tl_size demo_layout * 8 \<le> 1010573312 \<and>
   1010573312 + 8 \<le> MAX_SIZE demo_geometry - NULLPAGE_SIZE demo_geometry * 2"
  using hash_table_fits_object [OF demo_allocate]
  by (simp add: demo_layout_def TableLayout_new_def INVARIANT_GROUP_WIDTH_def is_pow2_def upt_rec)

lemma demo_map: "hm_with_builder demo_geometry demo_layout mem = Some (Inr (churned mem val 0))"
proof -
  have "next_power_of_two 1 = Some 1" by (simp add: next_power_of_two_def upt_rec)
  then show ?thesis
    by (simp add: hm_with_builder_def rt_bootstrap_def buckets_for_def usize_mul_def demo_allocate churned_def
      bucket_mask_to_capacity_def RawTable_new_def)
qed





text \<open>
  C24. Removed entries come back: seven keys are inserted and removed again in a new map; the map is
  empty then, and making room for one more entry, as every insertion does first, puts all seven
  entries back, although the number of entries stays zero.
\<close>

theorem hash_map_ghost_entries:
  assumes "hm_with_builder g l mem = Some (Inr t0)"
  shows "\<exists>t t'. foldM (churn g l val) [0..<7] t0 = Some t \<and> hm_len t = 0 \<and> table_map t = Map.empty \<and>
    hm_reserve g l id_hash 1 t = Some t' \<and> hm_len t' = 0 \<and> table_map t' = (\<lambda>k. if k < 7 then Some (val k) else None)"
proof -
  have "foldM (churn g l val) [0..<7] t0 = Some (churned mem val 7)"
    using churn_all [of 7 g l val mem] churned_new [OF assms, of val] by simp
  moreover have "table_map (churned mem val 7) = Map.empty"
    using churned_rehashing(3) [of mem val] by (auto simp: fun_eq_iff table_map_None full_set_def)
  ultimately show ?thesis
    using churned_reserve [of g l mem val] by (auto simp: hm_len_def churned_fields)
qed

theorem hash_map_ghost_entries_witness:
  "\<exists>t t'. foldM (churn demo_geometry demo_layout (\<lambda>k. 10 * k)) [0..<7] (churned (\<lambda>_. (0, 0)) (\<lambda>k. 10 * k) 0) = Some t \<and>
    hm_len t = 0 \<and> hm_reserve demo_geometry demo_layout id_hash 1 t = Some t' \<and> table_map t' 3 = Some (30 :: nat)"
  using hash_map_ghost_entries [OF demo_map [of "\<lambda>_. (0, 0)" "\<lambda>k. 10 * k"], of "\<lambda>k. 10 * k"] by auto



end
