(* ===== verification/Frame.thy ===== *)
theory Frame
  imports Address
begin

text \<open>
  Physical frames and the regions they are allocated from
  (\<^verbatim>\<open>src/kernel/src/memory/frame.rs\<close>).

  The metadata of all frames is one store from frame references to records.  A reference to the
  entry \<open>i\<close> of the frame array of the region that starts at page \<open>s\<close> is the number \<open>s + i\<close>; the
  arrays of different regions do not overlap.  Physical memory is a map from addresses to bytes.
  The intrusive lists come from a package: their operations are the argument \<open>ops\<close>, what is
  documented of them is \<open>frame_list_laws\<close>, and the link inside a frame, which the list sets, is
  the field \<open>fr_linked\<close>; linking a frame that is linked panics.  The environment has the width of physical
  addresses and the offset of the map of physical memory.
\<close>

section \<open>Frames\<close>

type_synonym FrameRef = nat
type_synonym Layout = "nat \<times> nat"

record Frame =
  fr_pa :: PhysAddr
  fr_flags :: u8
  fr_level :: u8
  fr_linked :: bool

record frame_env =
  fe_bits :: nat
  fe_off :: u64
  fe_frame_size :: nat

record frames =
  fm_frames :: "FrameRef \<Rightarrow> Frame"
  fm_mem :: "nat \<Rightarrow> u8"

definition PF_ZEROED :: u8 where "PF_ZEROED = 1"
definition PF_ALLOCATED :: u8 where "PF_ALLOCATED = 2"
definition PF_ADMITTED :: u8 where "PF_ADMITTED = 4"
definition PF_KERNEL :: u8 where "PF_KERNEL = 8"
definition PF_LOCKED :: u8 where "PF_LOCKED = 128"

definition PAGE :: nat where "PAGE = 4096"

definition PHYS_LEVEL_LAYOUTS :: "Layout list" where
  "PHYS_LEVEL_LAYOUTS = [(PAGE, PAGE), (PAGE * 512, PAGE * 512), (PAGE * 512 * 512, PAGE * 512 * 512)]"

definition NR_LEVELS :: nat where "NR_LEVELS = 3"

definition fr_reset :: "PhysAddr \<Rightarrow> u8 \<Rightarrow> u8 \<Rightarrow> Frame \<Rightarrow> Frame" where
  "fr_reset pa level init_flags f =
     f\<lparr>fr_flags := init_flags AND NOT PF_LOCKED, fr_level := level, fr_pa := pa, fr_linked := False\<rparr>"

text \<open>Taking a lock that is held does not return.\<close>

definition fr_lock :: "Frame \<Rightarrow> Frame option" where
  "fr_lock f = (if fr_flags f AND PF_LOCKED \<noteq> 0 then None else Some (f\<lparr>fr_flags := fr_flags f OR PF_LOCKED\<rparr>))"

definition fr_unlock :: "Frame \<Rightarrow> Frame" where
  "fr_unlock f = f\<lparr>fr_flags := fr_flags f AND NOT PF_LOCKED\<rparr>"

definition fr_get_flags :: "Frame \<Rightarrow> u8" where
  "fr_get_flags f = fr_flags f AND 0x8f"

definition fr_contains :: "Frame \<Rightarrow> u8 \<Rightarrow> bool" where
  "fr_contains f flag \<longleftrightarrow> fr_get_flags f AND flag = flag"

definition fr_get_level :: "Frame \<Rightarrow> nat" where
  "fr_get_level f = unat (fr_level f)"

definition fr_size :: "Frame \<Rightarrow> nat option" where
  "fr_size f = map_option fst (index_at PHYS_LEVEL_LAYOUTS (fr_get_level f))"

definition fr_is_zeroed :: "Frame \<Rightarrow> bool" where
  "fr_is_zeroed f \<longleftrightarrow> fr_contains f PF_ZEROED"

definition fr_set_admitted :: "Frame \<Rightarrow> Frame" where
  "fr_set_admitted f = f\<lparr>fr_flags := fr_flags f OR PF_ADMITTED\<rparr>"

definition fr_set_free :: "Frame \<Rightarrow> Frame" where
  "fr_set_free f = f\<lparr>fr_flags := fr_flags f AND NOT PF_ALLOCATED\<rparr>"

definition fr_set_allocated :: "Frame \<Rightarrow> Frame" where
  "fr_set_allocated f = f\<lparr>fr_flags := fr_flags f OR PF_ALLOCATED\<rparr>"

definition fr_set_kernel :: "bool \<Rightarrow> Frame \<Rightarrow> Frame" where
  "fr_set_kernel kern f =
     f\<lparr>fr_flags := (if kern then fr_flags f OR PF_KERNEL else fr_flags f AND NOT PF_KERNEL)\<rparr>"

definition fr_is_kernel :: "Frame \<Rightarrow> bool" where
  "fr_is_kernel f \<longleftrightarrow> fr_flags f AND PF_KERNEL \<noteq> 0"

definition fr_set_not_zero :: "Frame \<Rightarrow> Frame option" where
  "fr_set_not_zero f = do {
     f \<leftarrow> fr_lock f;
     let f = f\<lparr>fr_flags := fr_flags f AND NOT PF_ZEROED\<rparr>;
     Some (fr_unlock f) }"

section \<open>Contents of frames\<close>

definition mem_fill :: "nat \<Rightarrow> nat \<Rightarrow> (nat \<Rightarrow> u8) \<Rightarrow> nat \<Rightarrow> u8" where
  "mem_fill a len mem = (\<lambda>i. if a \<le> i \<and> i < a + len then 0 else mem i)"

definition mem_copy :: "nat \<Rightarrow> nat \<Rightarrow> nat \<Rightarrow> (nat \<Rightarrow> u8) \<Rightarrow> nat \<Rightarrow> u8" where
  "mem_copy dst src len mem = (\<lambda>i. if dst \<le> i \<and> i < dst + len then mem (src + (i - dst)) else mem i)"

definition fr_addr :: "Frame \<Rightarrow> nat" where
  "fr_addr f = unat (pa_raw (fr_pa f))"

definition set_frame :: "FrameRef \<Rightarrow> Frame \<Rightarrow> frames \<Rightarrow> frames" where
  "set_frame n f m = m\<lparr>fm_frames := (fm_frames m)(n := f)\<rparr>"

definition fr_zero :: "frame_env \<Rightarrow> FrameRef \<Rightarrow> frames \<Rightarrow> frames option" where
  "fr_zero env n m = do {
     f \<leftarrow> fr_lock (fm_frames m n);
     virt \<leftarrow> phys_to_virt (fe_off env) (fr_pa f);
     sz \<leftarrow> fr_size f;
     let m = m\<lparr>fm_mem := mem_fill (fr_addr f) sz (fm_mem m)\<rparr>;
     let f = f\<lparr>fr_flags := fr_flags f OR PF_ZEROED\<rparr>;
     Some (set_frame n (fr_unlock f) m) }"

definition copy_contents_from :: "frame_env \<Rightarrow> FrameRef \<Rightarrow> FrameRef \<Rightarrow> nat \<Rightarrow> nat \<Rightarrow> nat \<Rightarrow> frames \<Rightarrow> frames option" where
  "copy_contents_from env n other doff soff len m = do {
     f \<leftarrow> fr_lock (fm_frames m n);
     let m = set_frame n f m;
     let g = fm_frames m other;
     if fr_is_zeroed g then
       if fr_is_zeroed f then Some (set_frame n (fr_unlock f) m)
       else do {
         virt \<leftarrow> phys_to_virt (fe_off env) (fr_pa f);
         let m = m\<lparr>fm_mem := mem_fill (fr_addr f + doff) len (fm_mem m)\<rparr>;
         let f = f\<lparr>fr_flags := fr_flags f OR PF_ZEROED\<rparr>;
         Some (set_frame n (fr_unlock f) m) }
     else do {
       let f = f\<lparr>fr_flags := fr_flags f AND NOT PF_ZEROED\<rparr>;
       virt \<leftarrow> phys_to_virt (fe_off env) (fr_pa f);
       othervirt \<leftarrow> phys_to_virt (fe_off env) (fr_pa g);
       let m = m\<lparr>fm_mem := mem_copy (fr_addr f + doff) (fr_addr g + soff) len (fm_mem m)\<rparr>;
       Some (set_frame n (fr_unlock f) m) } }"

definition copy_contents_from_physaddr :: "frame_env \<Rightarrow> FrameRef \<Rightarrow> nat \<Rightarrow> PhysAddr \<Rightarrow> nat \<Rightarrow> frames \<Rightarrow> frames option" where
  "copy_contents_from_physaddr env n doff other len m = do {
     f \<leftarrow> fr_lock (fm_frames m n);
     let f = f\<lparr>fr_flags := fr_flags f AND NOT PF_ZEROED\<rparr>;
     virt \<leftarrow> phys_to_virt (fe_off env) (fr_pa f);
     othervirt \<leftarrow> phys_to_virt (fe_off env) other;
     let m = m\<lparr>fm_mem := mem_copy (fr_addr f + doff) (unat (pa_raw other)) len (fm_mem m)\<rparr>;
     Some (set_frame n (fr_unlock f) m) }"

section \<open>The index of frames\<close>

record FrameIndexer =
  fi_start :: PhysAddr
  fi_len :: nat
  fi_array_len :: nat

text \<open>An address some bytes further, where failing is a panic.\<close>

definition pa_plus :: "frame_env \<Rightarrow> PhysAddr \<Rightarrow> nat \<Rightarrow> PhysAddr option" where
  "pa_plus env pa n = do {
     r \<leftarrow> PhysAddr_offset (fe_bits env) pa (Usize (of_nat n));
     case r of Inl _ \<Rightarrow> panic | Inr a \<Rightarrow> Some a }"

definition fi_contains :: "frame_env \<Rightarrow> FrameIndexer \<Rightarrow> PhysAddr \<Rightarrow> bool option" where
  "fi_contains env fi pa =
     (if pa_raw (fi_start fi) \<le> pa_raw pa then do {
        e \<leftarrow> pa_plus env (fi_start fi) (fi_len fi);
        Some (pa_raw pa < pa_raw e) }
      else Some False)"

definition fi_get_frame :: "frame_env \<Rightarrow> FrameIndexer \<Rightarrow> PhysAddr \<Rightarrow> FrameRef option option" where
  "fi_get_frame env fi pa = do {
     c \<leftarrow> fi_contains env fi pa;
     if \<not> c then Some None
     else do {
       d \<leftarrow> PhysAddr_sub pa (fi_start fi);
       let index = unat d div PAGE;
       assert_that (index < fi_array_len fi);
       Some (Some (unat (pa_raw (fi_start fi)) div PAGE + index)) } }"

section \<open>Levels\<close>

record 'l frame_list_ops =
  fl_new :: 'l
  fl_push_back :: "FrameRef \<Rightarrow> 'l \<Rightarrow> 'l"
  fl_pop_back :: "'l \<Rightarrow> (FrameRef \<times> 'l) option"

definition frame_list_laws :: "'l frame_list_ops \<Rightarrow> ('l \<Rightarrow> FrameRef list) \<Rightarrow> bool" where
  "frame_list_laws ops its \<longleftrightarrow> its (fl_new ops) = [] \<and>
     (\<forall>f l. its (fl_push_back ops f l) = its l @ [f]) \<and>
     (\<forall>l. case fl_pop_back ops l of None \<Rightarrow> its l = [] | Some (f, l') \<Rightarrow> its l = its l' @ [f])"

definition list_push :: "'l frame_list_ops \<Rightarrow> FrameRef \<Rightarrow> 'l \<times> frames \<Rightarrow> ('l \<times> frames) option" where
  "list_push ops n = (\<lambda>(l, m). do {
     assert_that (\<not> fr_linked (fm_frames m n));
     Some (fl_push_back ops n l, set_frame n ((fm_frames m n)\<lparr>fr_linked := True\<rparr>) m) })"

definition list_pop :: "'l frame_list_ops \<Rightarrow> 'l \<times> frames \<Rightarrow> FrameRef option \<times> 'l \<times> frames" where
  "list_pop ops = (\<lambda>(l, m). case fl_pop_back ops l of
     None \<Rightarrow> (None, l, m)
   | Some (n, l) \<Rightarrow> (Some n, l, set_frame n ((fm_frames m n)\<lparr>fr_linked := False\<rparr>) m))"

record 'l AllocationRegionLevel =
  al_alloc_size :: nat
  al_align :: nat
  al_free :: nat
  al_zeroed :: 'l
  al_non_zeroed :: 'l

definition al_new :: "'l frame_list_ops \<Rightarrow> Layout \<Rightarrow> 'l AllocationRegionLevel" where
  "al_new ops layout = \<lparr>al_alloc_size = fst layout, al_align = snd layout, al_free = 0,
     al_zeroed = fl_new ops, al_non_zeroed = fl_new ops\<rparr>"

definition al_push :: "'l frame_list_ops \<Rightarrow> bool \<Rightarrow> FrameRef \<Rightarrow> 'l AllocationRegionLevel \<times> frames \<Rightarrow>
    ('l AllocationRegionLevel \<times> frames) option" where
  "al_push ops zero n = (\<lambda>(al, m). do {
     (al, m) \<leftarrow>
       (if zero then do { (l, m) \<leftarrow> list_push ops n (al_zeroed al, m); Some (al\<lparr>al_zeroed := l\<rparr>, m) }
        else do { (l, m) \<leftarrow> list_push ops n (al_non_zeroed al, m); Some (al\<lparr>al_non_zeroed := l\<rparr>, m) });
     k \<leftarrow> usize_add (al_free al) 1;
     Some (al\<lparr>al_free := k\<rparr>, m) })"

definition al_free_frame :: "'l frame_list_ops \<Rightarrow> FrameRef \<Rightarrow> 'l AllocationRegionLevel \<times> frames \<Rightarrow>
    ('l AllocationRegionLevel \<times> frames) option" where
  "al_free_frame ops n = (\<lambda>(al, m). al_push ops (fr_is_zeroed (fm_frames m n)) n (al, m))"

definition al_pop_zeroed :: "'l frame_list_ops \<Rightarrow> 'l AllocationRegionLevel \<times> frames \<Rightarrow>
    (FrameRef option \<times> 'l AllocationRegionLevel \<times> frames) option" where
  "al_pop_zeroed ops = (\<lambda>(al, m). case list_pop ops (al_zeroed al, m) of
     (Some n, l, m) \<Rightarrow> do { k \<leftarrow> usize_sub (al_free al) 1; Some (Some n, al\<lparr>al_zeroed := l, al_free := k\<rparr>, m) }
   | (None, l, m) \<Rightarrow> Some (None, al, m))"

definition al_allocate :: "'l frame_list_ops \<Rightarrow> bool \<Rightarrow> bool \<Rightarrow> 'l AllocationRegionLevel \<times> frames \<Rightarrow>
    (FrameRef option \<times> 'l AllocationRegionLevel \<times> frames) option" where
  "al_allocate ops try_zero only_zero = (\<lambda>(al, m).
     if only_zero then al_pop_zeroed ops (al, m)
     else (case list_pop ops (al_non_zeroed al, m) of
         (Some n, l, m) \<Rightarrow> do { k \<leftarrow> usize_sub (al_free al) 1; Some (Some n, al\<lparr>al_non_zeroed := l, al_free := k\<rparr>, m) }
       | (None, l, m) \<Rightarrow> if try_zero then al_pop_zeroed ops (al, m) else Some (None, al, m)))"

definition admit_one :: "'l frame_list_ops \<Rightarrow> FrameRef \<Rightarrow> PhysAddr \<Rightarrow> nat \<Rightarrow> u8 \<Rightarrow>
    'l AllocationRegionLevel \<times> frames \<Rightarrow> ('l AllocationRegionLevel \<times> frames) option" where
  "admit_one ops n addr level init_flags = (\<lambda>(al, m).
     let f = fr_reset addr (of_nat level) init_flags (fm_frames m n);
         f = fr_set_free (fr_set_admitted f)
     in al_push ops (init_flags AND PF_ZEROED = PF_ZEROED) n (al, set_frame n f m))"

section \<open>Regions\<close>

record 'l AllocationRegion =
  ar_indexer :: FrameIndexer
  ar_nr_pages :: nat
  ar_levels :: "'l AllocationRegionLevel list"

type_synonym 'l region = "'l AllocationRegion \<times> frames"

definition ar_contains :: "frame_env \<Rightarrow> 'l AllocationRegion \<Rightarrow> PhysAddr \<Rightarrow> bool option" where
  "ar_contains env r pa = fi_contains env (ar_indexer r) pa"

text \<open>Work on one level of a region.\<close>

definition with_level :: "nat \<Rightarrow> ('l AllocationRegionLevel \<times> frames \<Rightarrow> ('a \<times> 'l AllocationRegionLevel \<times> frames) option) \<Rightarrow>
    'l region \<Rightarrow> ('a \<times> 'l region) option" where
  "with_level level f = (\<lambda>(r, m). do {
     al \<leftarrow> index_at (ar_levels r) level;
     (x, al, m) \<leftarrow> f (al, m);
     Some (x, r\<lparr>ar_levels := (ar_levels r)[level := al]\<rparr>, m) })"

definition ar_free :: "frame_env \<Rightarrow> 'l frame_list_ops \<Rightarrow> FrameRef \<Rightarrow> 'l region \<Rightarrow> 'l region option" where
  "ar_free env ops n = (\<lambda>(r, m). do {
     c \<leftarrow> ar_contains env r (fr_pa (fm_frames m n));
     if \<not> c then Some (r, m)
     else do {
       let m = set_frame n (fr_set_free (fm_frames m n)) m;
       let level = fr_get_level (fm_frames m n);
       assert_that (level < NR_LEVELS);
       (_, r, m) \<leftarrow> with_level level (\<lambda>s. map_option (Pair ()) (al_free_frame ops n s)) (r, m);
       Some (r, m) } })"

definition position :: "('a \<Rightarrow> bool) \<Rightarrow> 'a list \<Rightarrow> nat option" where
  "position P xs = List.find (\<lambda>i. P (xs ! i)) [0..<length xs]"

definition find_level :: "Layout \<Rightarrow> 'l AllocationRegion \<Rightarrow> nat option" where
  "find_level layout r = position (\<lambda>al. al_alloc_size al \<ge> fst layout \<and> al_align al \<ge> snd layout) (ar_levels r)"

definition admit_child :: "frame_env \<Rightarrow> 'l frame_list_ops \<Rightarrow> PhysAddr \<Rightarrow> nat \<Rightarrow> u8 \<Rightarrow> 'l region \<Rightarrow> 'l region option" where
  "admit_child env ops pa level init_flags = (\<lambda>(r, m). do {
     child \<leftarrow> fi_get_frame env (ar_indexer r) pa;
     child \<leftarrow> child;
     (_, r, m) \<leftarrow> with_level level (\<lambda>s. map_option (Pair ()) (admit_one ops child pa level init_flags s)) (r, m);
     Some (r, m) })"

definition ar_split :: "frame_env \<Rightarrow> 'l frame_list_ops \<Rightarrow> FrameRef \<Rightarrow> 'l region \<Rightarrow> 'l region option" where
  "ar_split env ops n = (\<lambda>(r, m). do {
     c \<leftarrow> ar_contains env r (fr_pa (fm_frames m n));
     if \<not> c then Some (r, m)
     else do {
       let level = fr_get_level (fm_frames m n);
       assert_that (level > 0);
       new_layout \<leftarrow> index_at PHYS_LEVEL_LAYOUTS (level - 1);
       sz \<leftarrow> fr_size (fm_frames m n);
       let child_count = sz div fst new_layout;
       (r, m) \<leftarrow> foldM (\<lambda>child_idx (r, m). do {
           pa \<leftarrow> pa_plus env (fr_pa (fm_frames m n)) (child_idx * fst new_layout);
           admit_child env ops pa (level - 1) (fr_get_flags (fm_frames m n) AND PF_ZEROED) (r, m) }) [1..<child_count] (r, m);
       admit_child env ops (fr_pa (fm_frames m n)) (level - 1) (fr_get_flags (fm_frames m n) AND PF_ZEROED) (r, m) } })"

function do_allocate :: "frame_env \<Rightarrow> 'l frame_list_ops \<Rightarrow> bool \<Rightarrow> bool \<Rightarrow> nat \<Rightarrow> 'l region \<Rightarrow>
    (FrameRef option \<times> 'l region) option" where
  "do_allocate env ops try_zero only_zero level s =
     (if level \<ge> NR_LEVELS then Some (None, s)
      else do {
        (frame, s) \<leftarrow> with_level level (al_allocate ops try_zero only_zero) s;
        if frame \<noteq> None then Some (frame, s)
        else do {
          (bigger_frame, s) \<leftarrow> do_allocate env ops try_zero only_zero (level + 1) s;
          case bigger_frame of
            None \<Rightarrow> Some (None, s)
          | Some n \<Rightarrow> do {
              s \<leftarrow> ar_split env ops n s;
              with_level level (al_allocate ops try_zero only_zero) s } } })"
  by pat_completeness auto
termination
  by (relation "measure (\<lambda>(_, _, _, _, level, _). NR_LEVELS - level)") auto

declare do_allocate.simps [simp del]

definition ar_allocate :: "frame_env \<Rightarrow> 'l frame_list_ops \<Rightarrow> bool \<Rightarrow> bool \<Rightarrow> Layout \<Rightarrow> 'l region \<Rightarrow>
    (FrameRef option \<times> 'l region) option" where
  "ar_allocate env ops try_zero only_zero layout = (\<lambda>(r, m).
     case find_level layout r of
       None \<Rightarrow> Some (None, r, m)
     | Some level \<Rightarrow> do {
         (frame, r, m) \<leftarrow> do_allocate env ops try_zero only_zero level (r, m);
         case frame of
           None \<Rightarrow> Some (None, r, m)
         | Some n \<Rightarrow> do {
             assert_that (\<not> fr_contains (fm_frames m n) PF_ALLOCATED);
             Some (Some n, r, set_frame n (fr_set_allocated (fm_frames m n)) m) } })"

definition keep_child :: "frame_env \<Rightarrow> 'l AllocationRegion \<Rightarrow> PhysAddr \<Rightarrow> nat \<Rightarrow> u8 \<Rightarrow> frames \<Rightarrow> frames option" where
  "keep_child env r pa level init_flags m = do {
     child \<leftarrow> fi_get_frame env (ar_indexer r) pa;
     child \<leftarrow> child;
     Some (set_frame child
       (fr_set_allocated (fr_set_admitted (fr_reset pa (of_nat level) init_flags (fm_frames m child)))) m) }"

definition split_and_keep :: "frame_env \<Rightarrow> FrameRef \<Rightarrow> 'l region \<Rightarrow> ((FrameRef \<times> nat) \<times> 'l region) option" where
  "split_and_keep env n = (\<lambda>(r, m). do {
     c \<leftarrow> ar_contains env r (fr_pa (fm_frames m n));
     assert_that c;
     let level = fr_get_level (fm_frames m n);
     if level = 0 then Some ((n, PAGE), r, m)
     else do {
       new_layout \<leftarrow> index_at PHYS_LEVEL_LAYOUTS (level - 1);
       sz \<leftarrow> fr_size (fm_frames m n);
       let child_count = sz div fst new_layout;
       m \<leftarrow> foldM (\<lambda>child_idx m. do {
           pa \<leftarrow> pa_plus env (fr_pa (fm_frames m n)) (child_idx * fst new_layout);
           keep_child env r pa (level - 1) (fr_get_flags (fm_frames m n) AND PF_ZEROED) m }) [1..<child_count] m;
       m \<leftarrow> keep_child env r (fr_pa (fm_frames m n)) (level - 1) (fr_get_flags (fm_frames m n) AND PF_ZEROED) m;
       Some ((n, sz), r, m) } })"

section \<open>Building a region\<close>

datatype MemoryRegionKind = UsableRam | Reserved | BootloaderReserved

record MemoryRegion =
  mr_start :: PhysAddr
  mr_length :: nat
  mr_kind :: MemoryRegionKind

text \<open>The level for the rest of a region from an address on: the largest that is aligned and fits.\<close>

definition choose_level :: "PhysAddr \<Rightarrow> nat \<Rightarrow> 'l AllocationRegionLevel list \<Rightarrow> nat option" where
  "choose_level cursor remaining levels = do {
     i \<leftarrow> position (\<lambda>al. unat (pa_raw cursor) mod al_align al = 0 \<and> remaining \<ge> al_alloc_size al) (rev levels);
     Some (NR_LEVELS - 1 - i) }"

definition reset_sub :: "frame_env \<Rightarrow> FrameIndexer \<Rightarrow> PhysAddr \<Rightarrow> nat \<Rightarrow> frames \<Rightarrow> frames option" where
  "reset_sub env fi cursor i m = do {
     sub_addr \<leftarrow> pa_plus env cursor (i * PAGE);
     n \<leftarrow> fi_get_frame env fi sub_addr;
     n \<leftarrow> n;
     Some (set_frame n (fr_reset sub_addr 0 0 (fm_frames m n)) m) }"

partial_function (option) build_levels :: "frame_env \<Rightarrow> 'l frame_list_ops \<Rightarrow> FrameIndexer \<Rightarrow> PhysAddr \<Rightarrow> PhysAddr \<Rightarrow>
    'l AllocationRegionLevel list \<Rightarrow> frames \<Rightarrow> ('l AllocationRegionLevel list \<times> frames) option" where
  "build_levels env ops fi cursor end_pa levels m =
     (if pa_raw cursor < pa_raw end_pa then do {
        remaining \<leftarrow> PhysAddr_sub end_pa cursor;
        level \<leftarrow> choose_level cursor (unat remaining) levels;
        frame \<leftarrow> fi_get_frame env fi cursor;
        frame \<leftarrow> frame;
        layout \<leftarrow> index_at PHYS_LEVEL_LAYOUTS level;
        m \<leftarrow> foldM (reset_sub env fi cursor) [0..<fst layout div PAGE] m;
        al \<leftarrow> index_at levels level;
        (al, m) \<leftarrow> admit_one ops frame cursor level 0 (al, m);
        cursor \<leftarrow> pa_plus env cursor (al_alloc_size al);
        build_levels env ops fi cursor end_pa (levels[level := al]) m }
      else Some (levels, m))"

definition ar_new :: "frame_env \<Rightarrow> 'l frame_list_ops \<Rightarrow> MemoryRegion \<Rightarrow> frames \<Rightarrow> ('l AllocationRegion option \<times> frames) option" where
  "ar_new env ops mr m = do {
     start \<leftarrow> PhysAddr_align_up (fe_bits env) (mr_start mr) (of_nat PAGE);
     start \<leftarrow> (case start of Inl _ \<Rightarrow> panic | Inr a \<Rightarrow> Some a);
     skip \<leftarrow> checked_sub (pa_raw start) (pa_raw (mr_start mr));
     len \<leftarrow> usize_sub (mr_length mr) (unat skip);
     let nr_pages = len div PAGE;
     if nr_pages \<le> 1 then Some (None, m)
     else do {
       frame_array_len \<leftarrow> usize_mul (fe_frame_size env) nr_pages;
       n \<leftarrow> usize_sub frame_array_len 1;
       let array_pages = n div PAGE + 1;
       if array_pages \<ge> nr_pages then Some (None, m)
       else do {
         frame_array_ptr \<leftarrow> phys_to_virt (fe_off env) start;
         first \<leftarrow> pa_plus env start (array_pages * PAGE);
         let fi = \<lparr>fi_start = first, fi_len = (nr_pages - array_pages) * PAGE, fi_array_len = frame_array_len\<rparr>;
         end_pa \<leftarrow> pa_plus env start (nr_pages * PAGE);
         (levels, m) \<leftarrow> build_levels env ops fi first end_pa (map (al_new ops) PHYS_LEVEL_LAYOUTS) m;
         Some (Some \<lparr>ar_indexer = fi, ar_nr_pages = nr_pages, ar_levels = levels\<rparr>, m) } } }"

section \<open>The allocator\<close>

record 'l PhysicalFrameAllocator =
  pfa_regions :: "'l AllocationRegion list"
  pfa_admitted_regions :: "(PhysAddr \<times> nat) list"
  pfa_region_idx :: nat

type_synonym 'l pfa = "'l PhysicalFrameAllocator \<times> frames"

fun new_regions :: "frame_env \<Rightarrow> 'l frame_list_ops \<Rightarrow> MemoryRegion list \<Rightarrow> frames \<Rightarrow> ('l AllocationRegion list \<times> frames) option" where
  "new_regions env ops [] m = Some ([], m)"
| "new_regions env ops (mr # mrs) m =
     (if mr_kind mr = UsableRam then do {
        (r, m) \<leftarrow> ar_new env ops mr m;
        (rs, m) \<leftarrow> new_regions env ops mrs m;
        Some ((case r of None \<Rightarrow> rs | Some r \<Rightarrow> r # rs), m) }
      else new_regions env ops mrs m)"

definition pfa_new :: "frame_env \<Rightarrow> 'l frame_list_ops \<Rightarrow> MemoryRegion list \<Rightarrow> frames \<Rightarrow> 'l pfa option" where
  "pfa_new env ops mrs m = do {
     (rs, m) \<leftarrow> new_regions env ops mrs m;
     Some (\<lparr>pfa_regions = rs, pfa_admitted_regions = [], pfa_region_idx = 0\<rparr>, m) }"

definition pfa_total :: "'l PhysicalFrameAllocator \<Rightarrow> nat option" where
  "pfa_total a = foldM (\<lambda>r acc. usize_add (ar_nr_pages r) acc) (pfa_regions a) 0"

text \<open>The first region that has a frame.\<close>

fun alloc_in :: "frame_env \<Rightarrow> 'l frame_list_ops \<Rightarrow> bool \<Rightarrow> bool \<Rightarrow> Layout \<Rightarrow> 'l AllocationRegion list \<Rightarrow> frames \<Rightarrow>
    (FrameRef option \<times> 'l AllocationRegion list \<times> frames) option" where
  "alloc_in env ops try_zero only_zero layout [] m = Some (None, [], m)"
| "alloc_in env ops try_zero only_zero layout (r # rs) m = do {
     (frame, r, m) \<leftarrow> ar_allocate env ops try_zero only_zero layout (r, m);
     if frame \<noteq> None then Some (frame, r # rs, m)
     else do {
       (frame, rs, m) \<leftarrow> alloc_in env ops try_zero only_zero layout rs m;
       Some (frame, r # rs, m) } }"

definition pfa_do_alloc :: "frame_env \<Rightarrow> 'l frame_list_ops \<Rightarrow> u8 \<Rightarrow> Layout \<Rightarrow> 'l pfa \<Rightarrow> (FrameRef option \<times> 'l pfa) option" where
  "pfa_do_alloc env ops flags layout = (\<lambda>(a, m). do {
     let needs_zero = (flags AND PF_ZEROED = PF_ZEROED);
     (frame, rs, m) \<leftarrow> alloc_in env ops False needs_zero layout (pfa_regions a) m;
     if frame \<noteq> None then Some (frame, a\<lparr>pfa_regions := rs\<rparr>, m)
     else do {
       (frame, rs, m) \<leftarrow> alloc_in env ops True False layout rs m;
       Some (frame, a\<lparr>pfa_regions := rs\<rparr>, m) } })"

definition pfa_alloc :: "frame_env \<Rightarrow> 'l frame_list_ops \<Rightarrow> u8 \<Rightarrow> Layout \<Rightarrow> 'l pfa \<Rightarrow> (FrameRef option \<times> 'l pfa) option" where
  "pfa_alloc env ops flags layout s = do {
     (frame, a, m) \<leftarrow> pfa_do_alloc env ops flags layout s;
     case frame of
       None \<Rightarrow> Some (None, a, m)
     | Some n \<Rightarrow>
         if flags AND PF_ZEROED = PF_ZEROED \<and> \<not> fr_is_zeroed (fm_frames m n) then do {
           m \<leftarrow> fr_zero env n m;
           Some (Some n, a, m) }
         else Some (Some n, a, m) }"

fun free_in :: "frame_env \<Rightarrow> 'l frame_list_ops \<Rightarrow> FrameRef \<Rightarrow> 'l AllocationRegion list \<Rightarrow> frames \<Rightarrow>
    ('l AllocationRegion list \<times> frames) option" where
  "free_in env ops n [] m = Some ([], m)"
| "free_in env ops n (r # rs) m = do {
     c \<leftarrow> ar_contains env r (fr_pa (fm_frames m n));
     if c then do { (r, m) \<leftarrow> ar_free env ops n (r, m); Some (r # rs, m) }
     else do { (rs, m) \<leftarrow> free_in env ops n rs m; Some (r # rs, m) } }"

definition pfa_free :: "frame_env \<Rightarrow> 'l frame_list_ops \<Rightarrow> FrameRef \<Rightarrow> 'l pfa \<Rightarrow> 'l pfa option" where
  "pfa_free env ops n = (\<lambda>(a, m). do {
     (rs, m) \<leftarrow> free_in env ops n (pfa_regions a) m;
     Some (a\<lparr>pfa_regions := rs\<rparr>, m) })"

fun split_in :: "frame_env \<Rightarrow> FrameRef \<Rightarrow> 'l AllocationRegion list \<Rightarrow> frames \<Rightarrow>
    ((FrameRef \<times> nat) \<times> 'l AllocationRegion list \<times> frames) option" where
  "split_in env n [] m = panic"
| "split_in env n (r # rs) m = do {
     c \<leftarrow> ar_contains env r (fr_pa (fm_frames m n));
     if c then do { (x, r, m) \<leftarrow> split_and_keep env n (r, m); Some (x, r # rs, m) }
     else do { (x, rs, m) \<leftarrow> split_in env n rs m; Some (x, r # rs, m) } }"

definition split_frame :: "frame_env \<Rightarrow> FrameRef \<Rightarrow> 'l pfa \<Rightarrow> ((FrameRef \<times> nat) \<times> 'l pfa) option" where
  "split_frame env n = (\<lambda>(a, m). do {
     (x, rs, m) \<leftarrow> split_in env n (pfa_regions a) m;
     Some (x, a\<lparr>pfa_regions := rs\<rparr>, m) })"

definition raw_alloc_frame :: "frame_env \<Rightarrow> 'l frame_list_ops \<Rightarrow> u8 \<Rightarrow> Layout \<Rightarrow> 'l pfa \<Rightarrow> (FrameRef option \<times> 'l pfa) option" where
  "raw_alloc_frame env ops flags layout s = do {
     (frame, a, m) \<leftarrow> pfa_alloc env ops flags layout s;
     case frame of
       None \<Rightarrow> Some (None, a, m)
     | Some n \<Rightarrow> do {
         assert_that (flags AND PF_ZEROED = PF_ZEROED \<longrightarrow> fr_is_zeroed (fm_frames m n));
         f \<leftarrow> fr_set_not_zero (fm_frames m n);
         assert_that (fr_contains f PF_ADMITTED);
         assert_that (fr_contains f PF_ALLOCATED);
         Some (Some n, a, set_frame n f m) } }"

definition raw_free_frame :: "frame_env \<Rightarrow> 'l frame_list_ops \<Rightarrow> FrameRef \<Rightarrow> 'l pfa \<Rightarrow> 'l pfa option" where
  "raw_free_frame env ops n = (\<lambda>(a, m).
     if \<not> fr_contains (fm_frames m n) PF_ADMITTED then Some (a, m)
     else do {
       assert_that (fr_contains (fm_frames m n) PF_ALLOCATED);
       pfa_free env ops n (a, m) })"

fun get_frame_in :: "frame_env \<Rightarrow> FrameIndexer list \<Rightarrow> PhysAddr \<Rightarrow> FrameRef option option" where
  "get_frame_in env [] pa = Some None"
| "get_frame_in env (fi # fis) pa = do {
     f \<leftarrow> fi_get_frame env fi pa;
     if f \<noteq> None then Some f else get_frame_in env fis pa }"

end
