(* ===== verification/Frame_Region.thy ===== *)
theory Frame_Region
  imports Frame "HOL-Library.Disjoint_Sets"
begin

text \<open>
  The invariant of the frame allocator: the frames on the free lists, the frames in transit and the
  frames that clients hold tile the pages that are managed, each at its level and aligned to its
  size; the flags of a frame say where it is, and a frame marked as zeroed contains only zeros.
\<close>

section \<open>Flags\<close>

lemma flag_pows: "PF_ZEROED = 2 ^ 0" "PF_ALLOCATED = 2 ^ 1" "PF_ADMITTED = 2 ^ 2" "PF_KERNEL = 2 ^ 3" "PF_LOCKED = 2 ^ 7"
  by (simp_all add: PF_ZEROED_def PF_ALLOCATED_def PF_ADMITTED_def PF_KERNEL_def PF_LOCKED_def)

lemma pf_bits [simp]:
  "bit PF_ZEROED n \<longleftrightarrow> n = 0" "bit PF_ALLOCATED n \<longleftrightarrow> n = 1" "bit PF_ADMITTED n \<longleftrightarrow> n = 2" "bit PF_KERNEL n \<longleftrightarrow> n = 3"
  "bit PF_LOCKED n \<longleftrightarrow> n = 7"
  unfolding flag_pows bit_pow2 by simp_all

lemma and_pow2_eq: "k < LENGTH('a) \<Longrightarrow> (w :: 'a::len word) AND 2 ^ k = 2 ^ k \<longleftrightarrow> bit w k"
  by (simp only: bit_eq_iff [of "w AND 2 ^ k"] bit_and_iff bit_pow2) auto

lemma flag_test:
  fixes w :: u8
  shows "w AND PF_ZEROED = PF_ZEROED \<longleftrightarrow> bit w 0" "w AND PF_ALLOCATED = PF_ALLOCATED \<longleftrightarrow> bit w 1"
    "w AND PF_ADMITTED = PF_ADMITTED \<longleftrightarrow> bit w 2" "w AND PF_LOCKED = 0 \<longleftrightarrow> \<not> bit w 7" "w AND PF_KERNEL = 0 \<longleftrightarrow> \<not> bit w 3"
  unfolding flag_pows by (rule and_pow2_eq, simp)+ (simp_all only: and_pow2_eq_0)

lemma fr_contains_iff [simp]:
  "fr_contains f PF_ZEROED \<longleftrightarrow> bit (fr_flags f) 0" "fr_contains f PF_ALLOCATED \<longleftrightarrow> bit (fr_flags f) 1"
  "fr_contains f PF_ADMITTED \<longleftrightarrow> bit (fr_flags f) 2"
  by (simp_all add: fr_contains_def fr_get_flags_def flag_test bit_and_iff)

lemma fr_is_zeroed_iff [simp]: "fr_is_zeroed f \<longleftrightarrow> bit (fr_flags f) 0"
  by (simp add: fr_is_zeroed_def)

lemma fr_is_kernel_iff [simp]: "fr_is_kernel f \<longleftrightarrow> bit (fr_flags f) 3"
  by (simp add: fr_is_kernel_def flag_test)

lemmas bit_ops = bit_and_iff bit_or_iff bit_not_iff

section \<open>Addresses of frames\<close>

definition page_addr :: "nat \<Rightarrow> PhysAddr" where
  "page_addr n = PhysAddr (of_nat (n * PAGE))"

lemma page_addr_raw: "n * PAGE < 2 ^ 64 \<Longrightarrow> unat (pa_raw (page_addr n)) = n * PAGE"
  by (simp add: page_addr_def unat_of_nat del: of_nat_mult)

lemma pa_plus_nat:
  assumes "a + k < 2 ^ fe_bits env" and "fe_bits env < 64"
  shows "pa_plus env (PhysAddr (of_nat a)) k = Some (PhysAddr (of_nat (a + k)))"
proof -
  have lt: "(2 :: nat) ^ fe_bits env < 2 ^ 64" using assms(2) by (intro power_strict_increasing) simp_all
  then have "unat (of_nat a :: u64) = a" "unat (of_nat k :: u64) = k" "unat (of_nat (a + k) :: u64) = a + k"
    using assms(1) by (simp_all only: unat_of_nat) simp_all
  moreover from this have "checked_add (of_nat a :: u64) (of_nat k) = Some (of_nat (a + k))" by (simp only: checked_add_Some_iff)
  moreover have "unat (push_bit (fe_bits env) 1 :: u64) = 2 ^ fe_bits env"
    using unat_pow2 [of "fe_bits env", where 'a = 64] assms(2) by (simp add: push_bit_eq_mult)
  ultimately show ?thesis
    using assms(1) by (simp add: pa_plus_def PhysAddr_offset_def ok_or_noncanonical_def PhysAddr_new_def word_less_nat_alt del: of_nat_add)
qed

text \<open>The pages from \<open>s\<close> to \<open>e\<close> of an index of frames.\<close>

definition fi_pages :: "frame_env \<Rightarrow> FrameIndexer \<Rightarrow> nat \<Rightarrow> nat \<Rightarrow> bool" where
  "fi_pages env fi s e \<longleftrightarrow> fe_bits env < 64 \<and> e * PAGE < 2 ^ fe_bits env \<and> s \<le> e \<and> fi_start fi = page_addr s \<and>
     fi_len fi = (e - s) * PAGE \<and> e - s \<le> fi_array_len fi"

lemma PAGE_pos [simp]: "0 < PAGE" "PAGE \<noteq> 0"
  by (simp_all add: PAGE_def)

lemma fi_pages_bound: "fi_pages env fi s e \<Longrightarrow> n \<le> e \<Longrightarrow> n * PAGE < 2 ^ 64"
proof -
  assume a: "fi_pages env fi s e" "n \<le> e"
  then have "n * PAGE \<le> e * PAGE" by (simp only: mult_le_mono1)
  also have "e * PAGE < 2 ^ fe_bits env" using a(1) by (simp add: fi_pages_def)
  also have "(2 :: nat) ^ fe_bits env < 2 ^ 64"
    using a(1) by (intro power_strict_increasing) (simp_all add: fi_pages_def)
  finally show ?thesis .
qed

lemma fi_contains_page:
  assumes f: "fi_pages env fi s e" and n: "n * PAGE < 2 ^ 64"
  shows "fi_contains env fi (page_addr n) = Some (s \<le> n \<and> n < e)"
proof -
  have e: "pa_plus env (fi_start fi) (fi_len fi) = Some (page_addr e)"
    using f pa_plus_nat [of "s * PAGE" "(e - s) * PAGE" env]
    by (simp add: fi_pages_def page_addr_def flip: add_mult_distrib del: of_nat_mult)
  have "unat (pa_raw (page_addr s)) = s * PAGE" "unat (pa_raw (page_addr e)) = e * PAGE" "unat (pa_raw (page_addr n)) = n * PAGE"
    using n fi_pages_bound [OF f, of s] fi_pages_bound [OF f, of e] f by (simp_all add: page_addr_raw fi_pages_def)
  then show ?thesis
    using e f by (auto simp: fi_contains_def word_le_nat_alt word_less_nat_alt fi_pages_def)
qed

lemma fi_get_frame_page:
  assumes f: "fi_pages env fi s e" and n: "s \<le> n" "n < e"
  shows "fi_get_frame env fi (page_addr n) = Some (Some n)"
proof -
  have b: "s * PAGE < 2 ^ 64" "n * PAGE < 2 ^ 64" using fi_pages_bound [OF f] n by simp_all
  have "checked_sub (pa_raw (page_addr n)) (pa_raw (page_addr s)) = Some (of_nat ((n - s) * PAGE))"
    using b n mult_le_mono1 [OF n(1), of PAGE]
    by (simp add: checked_sub_Some_iff page_addr_raw unat_of_nat diff_mult_distrib del: of_nat_mult of_nat_diff)
  moreover have "unat (of_nat ((n - s) * PAGE) :: u64) = (n - s) * PAGE"
    using b by (simp add: unat_of_nat diff_mult_distrib del: of_nat_mult of_nat_diff)
  ultimately show ?thesis
    using f n b fi_contains_page [OF f b(2)]
    by (auto simp: fi_get_frame_def PhysAddr_sub_def fi_pages_def page_addr_raw Let_def)
qed

section \<open>The invariant\<close>

definition lvl :: "frames \<Rightarrow> FrameRef \<Rightarrow> nat" where
  "lvl m n = fr_get_level (fm_frames m n)"

definition fbit :: "frames \<Rightarrow> FrameRef \<Rightarrow> nat \<Rightarrow> bool" where
  "fbit m n k = bit (fr_flags (fm_frames m n)) k"

definition blk :: "frames \<Rightarrow> FrameRef \<Rightarrow> nat set" where
  "blk m n = {n ..< n + 512 ^ lvl m n}"

text \<open>The metadata of a frame, with its link and its allocated flag.\<close>

definition fok :: "frames \<Rightarrow> FrameRef \<Rightarrow> bool \<Rightarrow> bool \<Rightarrow> bool" where
  "fok m n linked alloc \<longleftrightarrow> fr_pa (fm_frames m n) = page_addr n \<and> lvl m n < NR_LEVELS \<and> 512 ^ lvl m n dvd n \<and>
     fbit m n 2 \<and> \<not> fbit m n 7 \<and> fr_linked (fm_frames m n) = linked \<and> fbit m n 1 = alloc"

definition tiles :: "frames \<Rightarrow> FrameRef set \<Rightarrow> nat set \<Rightarrow> bool" where
  "tiles m S cov \<longleftrightarrow> (\<Union>n\<in>S. blk m n) = cov \<and> disjoint_family_on (blk m) S"

definition zero_ok :: "frames \<Rightarrow> FrameRef set \<Rightarrow> bool" where
  "zero_ok m S \<longleftrightarrow> (\<forall>n\<in>S. fbit m n 0 \<longrightarrow> (\<forall>a. a div PAGE \<in> blk m n \<longrightarrow> fm_mem m a = 0))"

type_synonym free_lists = "nat \<Rightarrow> bool \<Rightarrow> FrameRef list"

definition all_free :: "free_lists \<Rightarrow> FrameRef set" where
  "all_free fl = (\<Union>i\<in>{..<NR_LEVELS}. \<Union>z. set (fl i z))"

definition finv :: "free_lists \<Rightarrow> frames \<Rightarrow> nat set \<Rightarrow> FrameRef set \<Rightarrow> FrameRef set \<Rightarrow> bool" where
  "finv fl m cov T H \<longleftrightarrow>
     (\<forall>i<NR_LEVELS. \<forall>z. distinct (fl i z) \<and> (\<forall>n\<in>set (fl i z). fok m n True False \<and> lvl m n = i \<and> fbit m n 0 = z)) \<and>
     (\<forall>n\<in>T. fok m n False False) \<and> (\<forall>n\<in>H. fok m n False True) \<and>
     tiles m (all_free fl \<union> T \<union> H) cov \<and> zero_ok m (all_free fl \<union> T \<union> H)"

lemma blk_self [simp]: "n \<in> blk m n"
  by (simp add: blk_def)

lemma tiles_cong:
  assumes "\<And>n. n \<in> S \<Longrightarrow> lvl m' n = lvl m n"
  shows "tiles m' S cov = tiles m S cov"
proof -
  have "n \<in> S \<Longrightarrow> blk m' n = blk m n" for n using assms by (simp add: blk_def)
  then show ?thesis by (simp add: tiles_def disjoint_family_on_def)
qed

lemma zero_ok_cong:
  assumes "\<And>n. n \<in> S \<Longrightarrow> lvl m' n = lvl m n" and "\<And>n. n \<in> S \<Longrightarrow> fbit m' n 0 \<Longrightarrow> fbit m n 0" and "fm_mem m' = fm_mem m"
    and "zero_ok m S"
  shows "zero_ok m' S"
  using assms by (auto simp: zero_ok_def blk_def)

lemma tiles_unique:
  assumes "tiles m S cov" and "a \<in> S" and "b \<in> S" and "p \<in> blk m a" and "p \<in> blk m b"
  shows "a = b"
  using assms by (auto simp: tiles_def disjoint_family_on_def)

lemma tiles_sub: "tiles m S cov \<Longrightarrow> n \<in> S \<Longrightarrow> blk m n \<subseteq> cov"
  by (auto simp: tiles_def)

lemma finvD:
  assumes "finv fl m cov T H"
  shows "\<And>i z. i < NR_LEVELS \<Longrightarrow> distinct (fl i z)"
    and "\<And>i z n. i < NR_LEVELS \<Longrightarrow> n \<in> set (fl i z) \<Longrightarrow> fok m n True False \<and> lvl m n = i \<and> fbit m n 0 = z"
    and "\<And>n. n \<in> T \<Longrightarrow> fok m n False False" and "\<And>n. n \<in> H \<Longrightarrow> fok m n False True"
    and "tiles m (all_free fl \<union> T \<union> H) cov" and "zero_ok m (all_free fl \<union> T \<union> H)"
  using assms unfolding finv_def by blast+

lemma all_freeI: "i < NR_LEVELS \<Longrightarrow> n \<in> set (fl i z) \<Longrightarrow> n \<in> all_free fl"
  by (auto simp: all_free_def)

lemma all_freeE:
  assumes "n \<in> all_free fl"
  obtains i z where "i < NR_LEVELS" "n \<in> set (fl i z)"
  using assms by (auto simp: all_free_def)

lemma finv_separate:
  assumes "finv fl m cov T H"
  shows "all_free fl \<inter> T = {}" "all_free fl \<inter> H = {}" "T \<inter> H = {}"
  using finvD [OF assms] by (auto elim!: all_freeE simp: fok_def) (metis, metis, metis)

section \<open>Moving frames\<close>

lemma set_frame_simps [simp]:
  "fm_frames (set_frame n f m) k = (if k = n then f else fm_frames m k)" "fm_mem (set_frame n f m) = fm_mem m"
  "lvl (set_frame n f m) k = (if k = n then fr_get_level f else lvl m k)"
  "fbit (set_frame n f m) k j = (if k = n then bit (fr_flags f) j else fbit m k j)"
  by (simp_all add: set_frame_def lvl_def fbit_def)

lemma fok_other [simp]: "k \<noteq> n \<Longrightarrow> fok (set_frame n f m) k l a = fok m k l a"
  by (simp add: fok_def)

text \<open>A change of one frame that keeps its level and does not set its zeroed flag.\<close>

lemma tiles_zero_move:
  assumes "tiles m S cov" and "zero_ok m S" and "fr_get_level f = lvl m n" and "bit (fr_flags f) 0 \<Longrightarrow> fbit m n 0"
  shows "tiles (set_frame n f m) S cov" "zero_ok (set_frame n f m) S"
proof -
  have same: "lvl (set_frame n f m) k = lvl m k" for k using assms(3) by simp
  show "tiles (set_frame n f m) S cov" using tiles_cong [of S, OF same] assms(1) by simp
  have "fbit (set_frame n f m) k 0 \<Longrightarrow> fbit m k 0" for k using assms(4) by (cases "k = n") simp_all
  then show "zero_ok (set_frame n f m) S" using assms(2) unfolding zero_ok_def blk_def same set_frame_simps(2) by blast
qed

lemma all_free_mem:
  assumes "i < NR_LEVELS"
  shows "x \<in> all_free fl \<longleftrightarrow> x \<in> set (fl i z) \<or> (\<exists>j w. j < NR_LEVELS \<and> (j, w) \<noteq> (i, z) \<and> x \<in> set (fl j w))"
proof -
  have "x \<in> all_free fl \<longleftrightarrow> (\<exists>j w. j < NR_LEVELS \<and> x \<in> set (fl j w))" by (auto simp: all_free_def)
  then show ?thesis using assms by (metis prod.inject)
qed

lemma all_free_upd:
  assumes "i < NR_LEVELS"
  shows "x \<in> all_free (fl(i := (fl i)(z := ys))) \<longleftrightarrow>
    x \<in> set ys \<or> (\<exists>j w. j < NR_LEVELS \<and> (j, w) \<noteq> (i, z) \<and> x \<in> set (fl j w))"
proof -
  have "(fl(i := (fl i)(z := ys))) j w = fl j w" if "(j, w) \<noteq> (i, z)" for j w using that by auto
  then show ?thesis unfolding all_free_mem [OF assms, of x _ z] by (metis (lifting) fun_upd_same)
qed

lemma free_list_unique:
  assumes "finv fl m cov T H" and "i < NR_LEVELS" and "j < NR_LEVELS" and "n \<in> set (fl i z)" and "n \<in> set (fl j w)"
  shows "i = j \<and> z = w"
  using finvD(2) [OF assms(1,2,4)] finvD(2) [OF assms(1,3,5)] by auto

definition unlinked :: "FrameRef \<Rightarrow> frames \<Rightarrow> frames" where
  "unlinked n m = set_frame n ((fm_frames m n)\<lparr>fr_linked := False\<rparr>) m"

definition linked :: "FrameRef \<Rightarrow> frames \<Rightarrow> frames" where
  "linked n m = set_frame n ((fm_frames m n)\<lparr>fr_linked := True\<rparr>) m"

lemma link_simps [simp]:
  "lvl (unlinked n m) k = lvl m k" "fbit (unlinked n m) k j = fbit m k j" "fm_mem (unlinked n m) = fm_mem m"
  "lvl (linked n m) k = lvl m k" "fbit (linked n m) k j = fbit m k j" "fm_mem (linked n m) = fm_mem m"
  "fok (unlinked n m) k l a = (if k = n then (\<exists>l'. fok m k l' a) \<and> \<not> l else fok m k l a)"
  "fok (linked n m) k l a = (if k = n then (\<exists>l'. fok m k l' a) \<and> l else fok m k l a)"
  by (simp_all add: unlinked_def linked_def lvl_def fbit_def fok_def fr_get_level_def) auto

lemma link_tiles [simp]:
  "tiles (unlinked n m) S cov = tiles m S cov" "tiles (linked n m) S cov = tiles m S cov"
  "zero_ok (unlinked n m) S = zero_ok m S" "zero_ok (linked n m) S = zero_ok m S"
  by (rule tiles_cong, simp)+ (simp_all add: zero_ok_def blk_def)

lemma fok_linked: "fok m n l a \<Longrightarrow> fr_linked (fm_frames m n) = l"
  by (simp add: fok_def)

lemma finv_pop:
  assumes inv: "finv fl m cov T H" and i: "i < NR_LEVELS" and fl: "fl i z = xs @ [n]"
  shows "finv (fl(i := (fl i)(z := xs))) (unlinked n m) cov (insert n T) H"
proof -
  note D = finvD [OF inv]
  have n: "n \<in> set (fl i z)" "n \<notin> set xs" using fl D(1) [OF i, of z] by simp_all
  have other: "n \<notin> set ((fl(i := (fl i)(z := xs))) j w)" if "j < NR_LEVELS" for j w
  proof (cases "(j, w) = (i, z)")
    case False
    then have "(fl(i := (fl i)(z := xs))) j w = fl j w" by auto
    moreover have "n \<notin> set (fl j w)" using free_list_unique [OF inv i that n(1), of w] False by blast
    ultimately show ?thesis by (simp only: not_False_eq_True)
  qed (use n(2) in simp)
  have same: "all_free (fl(i := (fl i)(z := xs))) \<union> insert n T \<union> H = all_free fl \<union> T \<union> H"
    unfolding set_eq_iff Un_iff insert_iff all_free_upd [OF i] all_free_mem [OF i, of _ fl z] fl by auto
  have TH: "n \<notin> T" "n \<notin> H" using finv_separate [OF inv] all_freeI [of i n fl z, OF i n(1)] by auto
  show ?thesis
    unfolding finv_def same
  proof (intro conjI allI ballI impI)
    fix j w assume j: "j < NR_LEVELS"
    show "distinct ((fl(i := (fl i)(z := xs))) j w)" using D(1) [OF j, of w] fl by (auto split: if_splits)
    fix k assume k: "k \<in> set ((fl(i := (fl i)(z := xs))) j w)"
    then have "k \<in> set (fl j w)" "k \<noteq> n" using fl other [OF j, of w] by (auto split: if_splits)
    then show "fok (unlinked n m) k True False" "lvl (unlinked n m) k = j" "fbit (unlinked n m) k 0 = w"
      using D(2) [OF j] by simp_all
  next
    fix k assume "k \<in> insert n T"
    then show "fok (unlinked n m) k False False" using D(2) [OF i n(1)] D(3) TH by auto
  next
    fix k assume "k \<in> H"
    then show "fok (unlinked n m) k False True" using D(4) TH by auto
  qed (use D(5,6) in simp_all)
qed

lemma finv_push:
  assumes inv: "finv fl m cov T H" and n: "n \<in> T"
  shows "finv (fl(lvl m n := (fl (lvl m n))(fbit m n 0 := fl (lvl m n) (fbit m n 0) @ [n]))) (linked n m) cov (T - {n}) H"
proof -
  let ?i = "lvl m n" and ?z = "fbit m n 0"
  let ?fl = "fl(?i := (fl ?i)(?z := fl ?i ?z @ [n]))"
  note D = finvD [OF inv]
  have i: "?i < NR_LEVELS" using D(3) [OF n] by (simp add: fok_def)
  have n': "n \<notin> all_free fl" "n \<notin> H" using finv_separate [OF inv] n by auto
  have same: "all_free ?fl \<union> (T - {n}) \<union> H = all_free fl \<union> T \<union> H"
    unfolding set_eq_iff Un_iff Diff_iff all_free_upd [OF i] all_free_mem [OF i, of _ fl ?z] using n by auto
  show ?thesis
    unfolding finv_def same
  proof (intro conjI allI ballI impI)
    fix j w assume j: "j < NR_LEVELS"
    have nj: "n \<notin> set (fl j w)" using n'(1) all_freeI [of j n fl w, OF j] by blast
    then show "distinct (?fl j w)" using D(1) [OF j, of w] by (auto split: if_splits)
    fix k assume "k \<in> set (?fl j w)"
    then have "k \<in> set (fl j w) \<and> k \<noteq> n \<or> k = n \<and> j = ?i \<and> w = ?z" using nj by (auto split: if_splits)
    then show "fok (linked n m) k True False" "lvl (linked n m) k = j" "fbit (linked n m) k 0 = w"
      using D(2) [OF j] D(3) [OF n] by auto
  next
    fix k assume "k \<in> T - {n}"
    then show "fok (linked n m) k False False" using D(3) by auto
  next
    fix k assume "k \<in> H"
    then show "fok (linked n m) k False True" using D(4) n'(2) by auto
  qed (use D(5,6) in simp_all)
qed

section \<open>Splitting frames\<close>

definition children :: "nat \<Rightarrow> FrameRef \<Rightarrow> FrameRef set" where
  "children l n = (\<lambda>k. n + k * 512 ^ l) ` {..<512}"

lemma block_index:
  fixes c :: nat
  assumes "0 < c"
  shows "p \<in> {n + k * c ..< n + k * c + c} \<longleftrightarrow> n \<le> p \<and> k = (p - n) div c"
proof
  assume p: "p \<in> {n + k * c ..< n + k * c + c}"
  then have "p - n = c * k + (p - n - k * c)" "p - n - k * c < c" by (auto simp: algebra_simps)
  then have "(p - n) div c = k" using div_mult_self4 [of c k "p - n - k * c"] assms by (metis Nat.add_0_right add.commute div_less div_mult_self2 less_numeral_extra(3))
  then show "n \<le> p \<and> k = (p - n) div c" using p by auto
next
  assume a: "n \<le> p \<and> k = (p - n) div c"
  then have "k * c \<le> p - n" "p - n < k * c + c"
    using assms dividend_less_div_times [of c "p - n"] by (simp_all add: div_times_less_eq_dividend add.commute)
  moreover from a have "n \<le> p" by simp
  ultimately show "p \<in> {n + k * c ..< n + k * c + c}" unfolding atLeastLessThan_iff by (intro conjI; linarith)
qed

lemma children_blocks: "(\<Union>x\<in>children l n. {x ..< x + 512 ^ l}) = {n ..< n + 512 ^ Suc l}"
proof -
  have c: "(0 :: nat) < 512 ^ l" by simp
  have "(p - n) div 512 ^ l < 512 \<longleftrightarrow> p < n + 512 ^ Suc l" if "n \<le> p" for p :: nat
    using that by (auto simp: div_less_iff_less_mult mult.commute)
  then show ?thesis
    unfolding children_def UN_simps set_eq_iff UN_iff bex_simps block_index [OF c] by auto
qed

lemma children_disjoint: "disjoint_family_on (\<lambda>x. {x ..< x + 512 ^ l}) (children l n)"
proof -
  have c: "(0 :: nat) < 512 ^ l" by simp
  have "a = b" if "a \<in> children l n" "b \<in> children l n" "p \<in> {a ..< a + 512 ^ l}" "p \<in> {b ..< b + 512 ^ l}" for a b p
    using that unfolding children_def image_iff by (metis block_index [OF c])
  then show ?thesis unfolding disjoint_family_on_def by blast
qed

text \<open>New metadata for some frames.\<close>

definition over :: "(FrameRef \<Rightarrow> Frame) \<Rightarrow> FrameRef set \<Rightarrow> frames \<Rightarrow> frames" where
  "over g C m = m\<lparr>fm_frames := (\<lambda>k. if k \<in> C then g k else fm_frames m k)\<rparr>"

lemma over_simps [simp]:
  "fm_frames (over g C m) k = (if k \<in> C then g k else fm_frames m k)" "fm_mem (over g C m) = fm_mem m"
  "lvl (over g C m) k = (if k \<in> C then fr_get_level (g k) else lvl m k)"
  "fbit (over g C m) k j = (if k \<in> C then bit (fr_flags (g k)) j else fbit m k j)"
  "k \<notin> C \<Longrightarrow> fok (over g C m) k l a = fok m k l a"
  "k \<notin> C \<Longrightarrow> blk (over g C m) k = blk m k"
  "k \<in> C \<Longrightarrow> blk (over g C m) k = {k ..< k + 512 ^ fr_get_level (g k)}"
  by (simp_all add: over_def lvl_def fbit_def fok_def blk_def)

lemma explode_tiles:
  assumes t: "tiles m S cov" and z: "zero_ok m S" and n: "n \<in> S" and l: "lvl m n = Suc l"
    and g: "\<And>k. k \<in> children l n \<Longrightarrow> fr_get_level (g k) = l" "\<And>k. k \<in> children l n \<Longrightarrow> bit (fr_flags (g k)) 0 \<Longrightarrow> fbit m n 0"
  shows "(S - {n}) \<inter> children l n = {}"
    and "tiles (over g (children l n) m) (S - {n} \<union> children l n) cov"
    and "zero_ok (over g (children l n) m) (S - {n} \<union> children l n)"
proof -
  let ?C = "children l n" and ?m = "over g (children l n) m"
  have b: "blk m n = (\<Union>x\<in>?C. {x ..< x + 512 ^ l})" by (simp only: blk_def l children_blocks)
  have cb: "{x ..< x + 512 ^ l} \<subseteq> blk m n" if "x \<in> ?C" for x using that b by blast
  have cs: "x \<in> {x ..< x + 512 ^ l}" for x :: nat by simp
  show sep: "(S - {n}) \<inter> ?C = {}"
    using tiles_unique [OF t _ n blk_self subsetD [OF cb cs]] by blast
  have nb: "blk ?m x = blk m x" if "x \<in> S - {n}" for x using that sep by (intro over_simps) auto
  have nc: "blk ?m x = {x ..< x + 512 ^ l}" if "x \<in> ?C" for x using that g(1) by simp
  have "(\<Union>x\<in>S - {n} \<union> ?C. blk ?m x) = (\<Union>x\<in>S - {n}. blk m x) \<union> blk m n"
    unfolding UN_Un b using nb nc by simp
  moreover have "disjoint_family_on (blk ?m) (S - {n} \<union> ?C)"
    unfolding disjoint_family_on_def
  proof (intro ballI impI)
    fix x y assume xy: "x \<in> S - {n} \<union> ?C" "y \<in> S - {n} \<union> ?C" "x \<noteq> y"
    have d: "blk m x \<inter> blk m y = {}" if "x \<in> S" "y \<in> S" "x \<noteq> y" for x y
      using t that by (simp add: tiles_def disjoint_family_on_def)
    show "blk ?m x \<inter> blk ?m y = {}"
    proof (cases "x \<in> ?C"; cases "y \<in> ?C")
      assume "x \<in> ?C" "y \<in> ?C"
      then show ?thesis using children_disjoint [of l n] nc xy(3) by (simp add: disjoint_family_on_def)
    next
      assume c: "x \<in> ?C" "y \<notin> ?C"
      then have "blk m n \<inter> blk m y = {}" using xy by (intro d n) auto
      then show ?thesis using cb [OF c(1)] nc [OF c(1)] nb [of y] xy c by auto
    next
      assume c: "x \<notin> ?C" "y \<in> ?C"
      then have "blk m n \<inter> blk m x = {}" using xy by (intro d n) auto
      then show ?thesis using cb [OF c(2)] nc [OF c(2)] nb [of x] xy c by auto
    next
      assume "x \<notin> ?C" "y \<notin> ?C"
      then show ?thesis using d [of x y] nb xy by auto
    qed
  qed
  ultimately show "tiles ?m (S - {n} \<union> ?C) cov" using t n by (auto simp: tiles_def)
  show "zero_ok ?m (S - {n} \<union> ?C)"
    unfolding zero_ok_def
  proof (intro ballI impI allI)
    fix x a assume x: "x \<in> S - {n} \<union> ?C" and f: "fbit ?m x 0" and a: "a div PAGE \<in> blk ?m x"
    show "fm_mem ?m a = 0"
    proof (cases "x \<in> ?C")
      case True
      then show ?thesis using z n f g(2) a cb [OF True] nc [OF True] by (auto simp: zero_ok_def)
    next
      case False
      then show ?thesis using z x f a nb [of x] by (auto simp: zero_ok_def)
    qed
  qed
qed

lemma finv_explode_T:
  assumes inv: "finv fl m cov T H" and n: "n \<in> T" "lvl m n = Suc l"
    and g: "\<And>k. k \<in> children l n \<Longrightarrow> fok (over g (children l n) m) k False False \<and> fr_get_level (g k) = l \<and> bit (fr_flags (g k)) 0 = fbit m n 0"
  shows "finv fl (over g (children l n) m) cov (T - {n} \<union> children l n) H"
proof -
  let ?S = "all_free fl \<union> T \<union> H" and ?C = "children l n"
  note D = finvD [OF inv]
  have nn: "n \<notin> all_free fl" "n \<notin> H" using finv_separate [OF inv] n by auto
  have nS: "n \<in> ?S" using n by simp
  note e = explode_tiles [OF D(5,6) nS n(2), of g]
  have sep: "x \<notin> ?C" if "x \<in> ?S" "x \<noteq> n" for x using e(1) g that by blast
  have S: "all_free fl \<union> (T - {n} \<union> ?C) \<union> H = ?S - {n} \<union> ?C" using nn by auto
  show ?thesis
    unfolding finv_def S
  proof (intro conjI allI ballI impI)
    fix i z assume i: "i < NR_LEVELS"
    show "distinct (fl i z)" by (rule D(1) [OF i])
    fix k assume k: "k \<in> set (fl i z)"
    then have "k \<in> all_free fl" by (rule all_freeI [OF i])
    then have "k \<notin> ?C" using sep nn by blast
    then show "fok (over g ?C m) k True False" "lvl (over g ?C m) k = i" "fbit (over g ?C m) k 0 = z"
      using D(2) [OF i k] by simp_all
  next
    fix k assume "k \<in> T - {n} \<union> ?C"
    then show "fok (over g ?C m) k False False" using D(3) g by (cases "k \<in> ?C") auto
  next
    fix k assume k: "k \<in> H"
    then have "k \<notin> ?C" using sep nn by blast
    then show "fok (over g ?C m) k False True" using D(4) [OF k] by simp
  qed (use e(2,3) g in auto)
qed

lemma finv_explode_H:
  assumes inv: "finv fl m cov T H" and n: "n \<in> H" "lvl m n = Suc l"
    and g: "\<And>k. k \<in> children l n \<Longrightarrow> fok (over g (children l n) m) k False True \<and> fr_get_level (g k) = l \<and> bit (fr_flags (g k)) 0 = fbit m n 0"
  shows "finv fl (over g (children l n) m) cov T (H - {n} \<union> children l n)"
proof -
  let ?S = "all_free fl \<union> T \<union> H" and ?C = "children l n"
  note D = finvD [OF inv]
  have nn: "n \<notin> all_free fl" "n \<notin> T" using finv_separate [OF inv] n by auto
  have nS: "n \<in> ?S" using n by simp
  note e = explode_tiles [OF D(5,6) nS n(2), of g]
  have sep: "x \<notin> ?C" if "x \<in> ?S" "x \<noteq> n" for x using e(1) g that by blast
  have S: "all_free fl \<union> T \<union> (H - {n} \<union> ?C) = ?S - {n} \<union> ?C" using nn by auto
  show ?thesis
    unfolding finv_def S
  proof (intro conjI allI ballI impI)
    fix i z assume i: "i < NR_LEVELS"
    show "distinct (fl i z)" by (rule D(1) [OF i])
    fix k assume k: "k \<in> set (fl i z)"
    then have "k \<in> all_free fl" by (rule all_freeI [OF i])
    then have "k \<notin> ?C" using sep nn by blast
    then show "fok (over g ?C m) k True False" "lvl (over g ?C m) k = i" "fbit (over g ?C m) k 0 = z"
      using D(2) [OF i k] by simp_all
  next
    fix k assume k: "k \<in> T"
    then have "k \<notin> ?C" using sep nn by blast
    then show "fok (over g ?C m) k False False" using D(3) [OF k] by simp
  next
    fix k assume "k \<in> H - {n} \<union> ?C"
    then show "fok (over g ?C m) k False True" using D(4) g by (cases "k \<in> ?C") auto
  qed (use e(2,3) g in auto)
qed

section \<open>New frames\<close>

lemma finv_extend:
  assumes inv: "finv fl m cov T H" and fresh: "cov \<inter> {n ..< n + 512 ^ lvl m' n} = {}"
    and same: "\<And>k. k \<notin> {n ..< n + 512 ^ lvl m' n} \<Longrightarrow> fm_frames m' k = fm_frames m k" "fm_mem m' = fm_mem m"
    and n: "fok m' n False False" "\<not> fbit m' n 0"
  shows "finv fl m' (cov \<union> {n ..< n + 512 ^ lvl m' n}) (insert n T) H"
proof -
  let ?S = "all_free fl \<union> T \<union> H"
  note D = finvD [OF inv]
  have old: "fm_frames m' k = fm_frames m k" if "k \<in> ?S" for k
    using that tiles_sub [OF D(5) that] fresh same(1) [of k] blk_self [of k m] by blast
  then have o: "fok m' k l a = fok m k l a" "lvl m' k = lvl m k" "fbit m' k j = fbit m k j" "blk m' k = blk m k" if "k \<in> ?S" for k l a j
    using that by (simp_all add: fok_def lvl_def fbit_def blk_def)
  have nn: "n \<notin> ?S" using tiles_sub [OF D(5), of n] fresh blk_self [of n m] by force
  have S: "all_free fl \<union> insert n T \<union> H = insert n ?S" by auto
  have "tiles m' (insert n ?S) (cov \<union> blk m' n)"
    unfolding tiles_def
  proof
    show "(\<Union>x\<in>insert n ?S. blk m' x) = cov \<union> blk m' n" using D(5) o(4) by (auto simp: tiles_def)
    have "blk m' x \<inter> blk m' n = {}" if "x \<in> ?S" for x
      using tiles_sub [OF D(5) that] o(4) [OF that] fresh by (auto simp: blk_def [of m' n])
    moreover have "disjoint_family_on (blk m') ?S" using D(5) o(4) by (simp add: tiles_def disjoint_family_on_def)
    ultimately show "disjoint_family_on (blk m') (insert n ?S)" using nn by (simp add: disjoint_family_on_insert Int_commute) blast
  qed
  moreover have "zero_ok m' (insert n ?S)" using D(6) o n(2) same(2) by (simp add: zero_ok_def)
  moreover have "\<forall>i<NR_LEVELS. \<forall>z. distinct (fl i z) \<and> (\<forall>k\<in>set (fl i z). fok m' k True False \<and> lvl m' k = i \<and> fbit m' k 0 = z)"
    using D(1,2) o all_freeI [of _ _ fl] by (metis UnI1)
  moreover have "\<forall>k\<in>insert n T. fok m' k False False" "\<forall>k\<in>H. fok m' k False True" using D(3,4) o n(1) by auto
  ultimately show ?thesis unfolding finv_def S by (simp add: blk_def)
qed

section \<open>Changing flags\<close>

lemma finv_retag:
  assumes inv: "finv fl m cov T H" and n: "n \<in> T \<union> H" and f: "fok (set_frame n f m) n False a" "fr_get_level f = lvl m n"
    "bit (fr_flags f) 0 \<Longrightarrow> fbit m n 0"
  shows "finv fl (set_frame n f m) cov (if a then T - {n} else insert n T) (if a then insert n H else H - {n})"
proof -
  note D = finvD [OF inv]
  have nf: "n \<notin> all_free fl" using finv_separate [OF inv] n by auto
  have S: "all_free fl \<union> (if a then T - {n} else insert n T) \<union> (if a then insert n H else H - {n}) = all_free fl \<union> T \<union> H"
    using n by auto
  show ?thesis
    unfolding finv_def S
  proof (intro conjI allI ballI impI)
    fix i z assume i: "i < NR_LEVELS"
    show "distinct (fl i z)" by (rule D(1) [OF i])
    fix k assume k: "k \<in> set (fl i z)"
    then have "k \<noteq> n" using nf all_freeI [of i k fl z, OF i k] by auto
    then show "fok (set_frame n f m) k True False" "lvl (set_frame n f m) k = i" "fbit (set_frame n f m) k 0 = z"
      using D(2) [OF i k] by simp_all
  next
    fix k assume "k \<in> (if a then T - {n} else insert n T)"
    then show "fok (set_frame n f m) k False False" using D(3) f(1) by (cases "k = n") (auto split: if_splits)
  next
    fix k assume "k \<in> (if a then insert n H else H - {n})"
    then show "fok (set_frame n f m) k False True" using D(4) f(1) by (cases "k = n") (auto split: if_splits)
  qed (rule tiles_zero_move [OF D(5,6) f(2,3)]; assumption)+
qed

text \<open>Filling a frame with zeros.\<close>

lemma finv_fill:
  assumes inv: "finv fl m cov T H" and n: "n \<in> T \<union> H"
  shows "finv fl (m\<lparr>fm_mem := mem_fill (n * PAGE) (512 ^ lvl m n * PAGE) (fm_mem m)\<rparr>) cov T H"
    and "a div PAGE \<in> blk m n \<Longrightarrow> mem_fill (n * PAGE) (512 ^ lvl m n * PAGE) mem a = 0"
proof -
  let ?m = "m\<lparr>fm_mem := mem_fill (n * PAGE) (512 ^ lvl m n * PAGE) (fm_mem m)\<rparr>"
  have e: "lvl ?m k = lvl m k" "fbit ?m k j = fbit m k j" "fok ?m k l b = fok m k l b" "blk ?m k = blk m k" for k j l b
    by (simp_all add: lvl_def fbit_def fok_def blk_def)
  have t: "tiles ?m S c = tiles m S c" for S c by (rule tiles_cong) (rule e)
  have "zero_ok m S \<Longrightarrow> zero_ok ?m S" for S unfolding zero_ok_def e by (simp add: mem_fill_def)
  then show "finv fl ?m cov T H" using inv unfolding finv_def e t by blast
  show "a div PAGE \<in> blk m n \<Longrightarrow> mem_fill (n * PAGE) (512 ^ lvl m n * PAGE) mem a = 0"
    unfolding mem_fill_def blk_def atLeastLessThan_iff
    using div_less_iff_less_mult [of PAGE a "n + 512 ^ lvl m n"] less_eq_div_iff_mult_less_eq [of PAGE n a]
    by (simp add: algebra_simps)
qed

lemma finv_mark_zero:
  assumes inv: "finv fl m cov T H" and n: "n \<in> T \<union> H" and f: "fok (set_frame n f m) n False (fbit m n 1)" "fr_get_level f = lvl m n"
    and z: "\<And>a. a div PAGE \<in> blk m n \<Longrightarrow> fm_mem m a = 0"
  shows "finv fl (set_frame n f m) cov T H"
proof -
  note D = finvD [OF inv]
  let ?g = "f\<lparr>fr_flags := fr_flags f AND NOT PF_ZEROED\<rparr>"
  have nf: "n \<notin> all_free fl" using finv_separate [OF inv] n by auto
  have "finv fl (set_frame n ?g m) cov (if fbit m n 1 then T - {n} else insert n T) (if fbit m n 1 then insert n H else H - {n})"
    using f by (intro finv_retag [OF inv n]) (simp_all add: fok_def fr_get_level_def bit_ops)
  moreover have "(if fbit m n 1 then T - {n} else insert n T) = T" "(if fbit m n 1 then insert n H else H - {n}) = H"
    using n D(3,4) by (auto simp: fok_def)
  ultimately have i: "finv fl (set_frame n ?g m) cov T H" by simp
  have e: "lvl (set_frame n f m) k = lvl (set_frame n ?g m) k" for k by (simp add: fr_get_level_def)
  have t: "tiles (set_frame n f m) S c = tiles (set_frame n ?g m) S c" for S c by (rule tiles_cong) (rule e)
  have "zero_ok (set_frame n f m) (all_free fl \<union> T \<union> H)"
    unfolding zero_ok_def
  proof (intro ballI impI allI)
    fix k a assume k: "k \<in> all_free fl \<union> T \<union> H" "fbit (set_frame n f m) k 0" "a div PAGE \<in> blk (set_frame n f m) k"
    show "fm_mem (set_frame n f m) a = 0"
    proof (cases "k = n")
      case True
      then show ?thesis using z k(3) f(2) by (simp add: blk_def)
    next
      case False
      then show ?thesis using finvD(6) [OF inv] k by (simp add: zero_ok_def blk_def)
    qed
  qed
  moreover have "fok (set_frame n f m) k l b = fok (set_frame n ?g m) k l b" for k l b
    by (cases "k = n") (simp_all add: fok_def fr_get_level_def bit_ops)
  moreover have "fbit (set_frame n f m) k 0 = fbit (set_frame n ?g m) k 0" if "k \<in> all_free fl" for k
    using that nf by (cases "k = n") simp_all
  ultimately show ?thesis
    using i unfolding finv_def t e by (metis all_freeI)
qed

section \<open>Levels and regions\<close>

definition rep :: "('l \<Rightarrow> FrameRef list) \<Rightarrow> 'l AllocationRegionLevel list \<Rightarrow> free_lists \<Rightarrow> bool" where
  "rep its levels fl \<longleftrightarrow> length levels = NR_LEVELS \<and>
     (\<forall>i<NR_LEVELS. al_alloc_size (levels ! i) = PAGE * 512 ^ i \<and> al_align (levels ! i) = PAGE * 512 ^ i \<and>
        its (al_zeroed (levels ! i)) = fl i True \<and> its (al_non_zeroed (levels ! i)) = fl i False \<and>
        al_free (levels ! i) = length (fl i True) + length (fl i False))"

lemma free_count:
  assumes inv: "finv fl m cov T H" and cov: "cov \<subseteq> {s..<e}" and i: "i < NR_LEVELS"
  shows "length (fl i True) + length (fl i False) \<le> e - s"
proof -
  note D = finvD [OF inv]
  have "set (fl i True) \<inter> set (fl i False) = {}" using free_list_unique [OF inv i i] by blast
  then have "length (fl i True) + length (fl i False) = card (set (fl i True) \<union> set (fl i False))"
    using D(1) [OF i] by (simp add: card_Un_disjoint distinct_card)
  also have "\<dots> \<le> card {s..<e}"
  proof (rule card_mono)
    have "n \<in> cov" if "n \<in> set (fl i z)" for n z
      using tiles_sub [OF D(5), of n] all_freeI [of i n fl z, OF i that] blk_self [of n m] by blast
    then show "set (fl i True) \<union> set (fl i False) \<subseteq> {s..<e}" using cov by blast
  qed simp
  finally show ?thesis by simp
qed

lemma rep_upd:
  assumes "rep its levels fl" and "i < NR_LEVELS"
    and "al_alloc_size al = PAGE * 512 ^ i" "al_align al = PAGE * 512 ^ i" "its (al_zeroed al) = g True" "its (al_non_zeroed al) = g False"
      "al_free al = length (g True) + length (g False)"
  shows "rep its (levels[i := al]) (fl(i := g))"
  using assms by (simp add: rep_def nth_list_update)

lemma list_pop_cases:
  assumes "frame_list_laws ops its"
  obtains "its l = []" "list_pop ops (l, m) = (None, l, m)"
  | xs n l' where "its l = xs @ [n]" "its l' = xs" "list_pop ops (l, m) = (Some n, l', unlinked n m)"
proof -
  have law: "case fl_pop_back ops l of None \<Rightarrow> its l = [] | Some (f, l') \<Rightarrow> its l = its l' @ [f]"
    using assms unfolding frame_list_laws_def by blast
  show ?thesis
  proof (cases "fl_pop_back ops l")
    case None
    then show ?thesis using law that(1) by (simp add: list_pop_def)
  next
    case (Some p)
    then show ?thesis using law that(2) by (cases p) (simp add: list_pop_def unlinked_def)
  qed
qed

text \<open>What taking a frame from a level does.\<close>

definition took :: "('l \<Rightarrow> FrameRef list) \<Rightarrow> free_lists \<Rightarrow> nat \<Rightarrow> bool \<Rightarrow> bool \<Rightarrow> 'l AllocationRegionLevel list \<Rightarrow> frames \<Rightarrow>
    FrameRef option \<Rightarrow> 'l AllocationRegionLevel list \<Rightarrow> frames \<Rightarrow> bool" where
  "took its fl i try_zero only_zero levels m x levels' m' \<longleftrightarrow> (case x of
     None \<Rightarrow> levels' = levels \<and> m' = m \<and> fl i only_zero = [] \<and> (try_zero \<longrightarrow> fl i True = [])
   | Some n \<Rightarrow> (\<exists>z xs. (only_zero \<longrightarrow> z) \<and> (z \<longrightarrow> only_zero \<or> try_zero) \<and> fl i z = xs @ [n] \<and> m' = unlinked n m \<and>
       rep its levels' (fl(i := (fl i)(z := xs)))))"

lemma al_pop_zeroed_ok:
  assumes laws: "frame_list_laws ops its" and rep: "rep its levels fl" and i: "i < NR_LEVELS"
  shows "\<exists>x al m'. al_pop_zeroed ops (levels ! i, m) = Some (x, al, m') \<and> took its fl i True True levels m x (levels[i := al]) m'"
proof -
  note R = rep [unfolded rep_def, THEN conjunct2, rule_format, OF i]
  from laws show ?thesis
  proof (rule list_pop_cases [of ops its "al_zeroed (levels ! i)" m])
    assume a: "its (al_zeroed (levels ! i)) = []" "list_pop ops (al_zeroed (levels ! i), m) = (None, al_zeroed (levels ! i), m)"
    then show ?thesis using R by (simp add: al_pop_zeroed_def took_def)
  next
    fix xs n l' assume a: "its (al_zeroed (levels ! i)) = xs @ [n]" "its l' = xs"
      "list_pop ops (al_zeroed (levels ! i), m) = (Some n, l', unlinked n m)"
    let ?al = "(levels ! i)\<lparr>al_zeroed := l', al_free := al_free (levels ! i) - 1\<rparr>"
    have l: "fl i True = xs @ [n]" using R a(1) by simp
    then have "rep its (levels[i := ?al]) (fl(i := (fl i)(True := xs)))" using R a(2) by (intro rep_upd [OF rep i]) simp_all
    then show ?thesis using R a(3) l by (auto simp: al_pop_zeroed_def took_def usize_sub_def)
  qed
qed

lemma al_allocate_ok:
  assumes laws: "frame_list_laws ops its" and rep: "rep its levels fl" and i: "i < NR_LEVELS"
  shows "\<exists>x al m'. al_allocate ops try_zero only_zero (levels ! i, m) = Some (x, al, m') \<and>
    took its fl i try_zero only_zero levels m x (levels[i := al]) m'"
proof -
  note R = rep [unfolded rep_def, THEN conjunct2, rule_format, OF i]
  obtain x al m' where z: "al_pop_zeroed ops (levels ! i, m) = Some (x, al, m')" "took its fl i True True levels m x (levels[i := al]) m'"
    using al_pop_zeroed_ok [OF assms] by blast
  show ?thesis
  proof (cases only_zero)
    case True
    have "took its fl i try_zero True levels m x (levels[i := al]) m'" using z(2) by (auto simp: took_def split: option.splits)
    then show ?thesis using True z(1) by (simp add: al_allocate_def)
  next
    case False
    from laws show ?thesis
    proof (rule list_pop_cases [of ops its "al_non_zeroed (levels ! i)" m])
      assume a: "its (al_non_zeroed (levels ! i)) = []" "list_pop ops (al_non_zeroed (levels ! i), m) = (None, al_non_zeroed (levels ! i), m)"
      have "try_zero \<Longrightarrow> took its fl i True False levels m x (levels[i := al]) m'"
        using z(2) a R by (auto simp: took_def split: option.splits)
      then show ?thesis using False a z(1) R by (cases try_zero) (auto simp: al_allocate_def took_def)
    next
      fix xs n l' assume a: "its (al_non_zeroed (levels ! i)) = xs @ [n]" "its l' = xs"
        "list_pop ops (al_non_zeroed (levels ! i), m) = (Some n, l', unlinked n m)"
      let ?al = "(levels ! i)\<lparr>al_non_zeroed := l', al_free := al_free (levels ! i) - 1\<rparr>"
      have l: "fl i False = xs @ [n]" using R a(1) by simp
      then have "rep its (levels[i := ?al]) (fl(i := (fl i)(False := xs)))" using R a(2) by (intro rep_upd [OF rep i]) simp_all
      then show ?thesis using False R a(3) l by (auto simp: al_allocate_def took_def usize_sub_def)
    qed
  qed
qed

end
