(* ===== verification/Frame_Ops.thy ===== *)
theory Frame_Ops
  imports Frame_Region
begin

text \<open>
  The operations of a region keep the invariant: freeing, allocating with the splitting of larger
  frames, splitting for a client, and building a region from a range of memory.
\<close>

section \<open>Free lists\<close>

lemma al_push_rep:
  assumes laws: "frame_list_laws ops its" and rep: "rep its levels fl" and i: "i < NR_LEVELS"
    and n: "\<not> fr_linked (fm_frames m n)" and count: "length (fl i True) + length (fl i False) + 1 < 2 ^ 64"
  shows "\<exists>al. al_push ops z n (levels ! i, m) = Some (al, linked n m) \<and> rep its (levels[i := al]) (fl(i := (fl i)(z := fl i z @ [n])))"
proof -
  note R = rep [unfolded rep_def, THEN conjunct2, rule_format, OF i]
  have law: "its (fl_push_back ops n l) = its l @ [n]" for l using laws unfolding frame_list_laws_def by blast
  let ?al = "(if z then (levels ! i)\<lparr>al_zeroed := fl_push_back ops n (al_zeroed (levels ! i))\<rparr>
    else (levels ! i)\<lparr>al_non_zeroed := fl_push_back ops n (al_non_zeroed (levels ! i))\<rparr>)\<lparr>al_free := al_free (levels ! i) + 1\<rparr>"
  have "rep its (levels[i := ?al]) (fl(i := (fl i)(z := fl i z @ [n])))"
    using R law by (intro rep_upd [OF rep i]) simp_all
  moreover have "al_push ops z n (levels ! i, m) = Some (?al, linked n m)"
    using R n count by (cases z) (simp_all add: al_push_def list_push_def linked_def usize_add_def)
  ultimately show ?thesis by blast
qed

text \<open>A frame fresh from \<^verbatim>\<open>admit_one\<close>.\<close>

definition newf :: "nat \<Rightarrow> u8 \<Rightarrow> FrameRef \<Rightarrow> Frame" where
  "newf l flags k = \<lparr>fr_pa = page_addr k, fr_flags = ((flags AND NOT PF_LOCKED) OR PF_ADMITTED) AND NOT PF_ALLOCATED,
     fr_level = of_nat l, fr_linked = False\<rparr>"

lemma newf_simps [simp]:
  "fr_pa (newf l flags k) = page_addr k" "fr_linked (newf l flags k) = False"
  "bit (fr_flags (newf l flags k)) j \<longleftrightarrow> j < 8 \<and> j \<noteq> 1 \<and> (bit flags j \<and> j \<noteq> 7 \<or> j = 2)"
  "l < NR_LEVELS \<Longrightarrow> fr_get_level (newf l flags k) = l"
proof -
  show "bit (fr_flags (newf l flags k)) j \<longleftrightarrow> j < 8 \<and> j \<noteq> 1 \<and> (bit flags j \<and> j \<noteq> 7 \<or> j = 2)"
    using bit_less_LENGTH [of flags j] by (auto simp: newf_def bit_ops)
  show "l < NR_LEVELS \<Longrightarrow> fr_get_level (newf l flags k) = l"
    by (simp add: newf_def fr_get_level_def unat_of_nat NR_LEVELS_def)
qed (simp_all add: newf_def)

lemma admit_one_newf:
  "admit_one ops n (page_addr n) l flags (al, m) = al_push ops (bit flags 0) n (al, set_frame n (newf l flags n) m)"
  by (cases "fm_frames m n") (simp add: admit_one_def newf_def fr_reset_def fr_set_free_def fr_set_admitted_def flag_test)

lemma admit_child_ok:
  assumes laws: "frame_list_laws ops its" and rep: "rep its (ar_levels r) fl" and fi: "fi_pages env (ar_indexer r) s e"
    and cov: "cov \<subseteq> {s..<e}" and l: "l < NR_LEVELS" and c: "c \<notin> C" "c \<in> T"
    and inv: "finv fl (over (newf l flags) (insert c C) m) cov T H"
  shows "\<exists>r' fl'. admit_child env ops (page_addr c) l flags (r, m) = Some (r', linked c (set_frame c (newf l flags c) m)) \<and>
    rep its (ar_levels r') fl' \<and> finv fl' (over (newf l flags) C (linked c (set_frame c (newf l flags c) m))) cov (T - {c}) H \<and>
    ar_indexer r' = ar_indexer r \<and> ar_nr_pages r' = ar_nr_pages r \<and> fl' = fl(l := (fl l)(bit flags 0 := fl l (bit flags 0) @ [c]))"
proof -
  let ?V = "over (newf l flags) (insert c C) m" and ?m = "set_frame c (newf l flags c) m"
  have "c \<in> all_free fl \<union> T \<union> H" using c(2) by simp
  then have "blk ?V c \<subseteq> cov" by (rule tiles_sub [OF finvD(5) [OF inv]])
  then have "c \<in> {s..<e}" using cov blk_self [of c ?V] by blast
  then have cc: "s \<le> c" "c < e" by simp_all
  have b: "c * PAGE < 2 ^ 64" "e * PAGE < 2 ^ 64" using fi_pages_bound [OF fi] cc by simp_all
  have "length (fl l True) + length (fl l False) \<le> e - s" by (rule free_count [OF inv cov l])
  moreover have "e < 2 ^ 52" using b(2) by (simp add: PAGE_def)
  ultimately have count: "length (fl l True) + length (fl l False) + 1 < 2 ^ 64" by simp
  let ?z = "bit flags 0"
  obtain al where al: "al_push ops ?z c (ar_levels r ! l, ?m) = Some (al, linked c ?m)"
    "rep its ((ar_levels r)[l := al]) (fl(l := (fl l)(?z := fl l ?z @ [c])))"
    using al_push_rep [OF laws rep l, of ?m c ?z] count by auto
  have len: "l < length (ar_levels r)" using rep l by (simp add: rep_def)
  have "over (newf l flags) C (linked c ?m) = linked c ?V"
    using c(1) by (auto simp: over_def linked_def set_frame_def fun_eq_iff)
  moreover have "lvl ?V c = l" "fbit ?V c 0 = ?z" using l by simp_all
  ultimately have "finv (fl(l := (fl l)(?z := fl l ?z @ [c]))) (over (newf l flags) C (linked c ?m)) cov (T - {c}) H"
    using finv_push [OF inv c(2)] by simp
  moreover have "admit_child env ops (page_addr c) l flags (r, m) = Some (r\<lparr>ar_levels := (ar_levels r)[l := al]\<rparr>, linked c ?m)"
    using fi_get_frame_page [OF fi cc] al(1) len
    by (simp add: admit_child_def with_level_def index_at_def admit_one_newf)
  ultimately show ?thesis using al(2) by auto
qed

section \<open>Splitting\<close>

lemma layout_at: "l < NR_LEVELS \<Longrightarrow> index_at PHYS_LEVEL_LAYOUTS l = Some (PAGE * 512 ^ l, PAGE * 512 ^ l)"
  by (auto simp: NR_LEVELS_def PHYS_LEVEL_LAYOUTS_def index_at_def less_Suc_eq numeral_3_eq_3)

lemma fr_size_lvl: "lvl m n < NR_LEVELS \<Longrightarrow> fr_size (fm_frames m n) = Some (PAGE * 512 ^ lvl m n)"
  by (simp add: fr_size_def layout_at lvl_def [symmetric])

lemma child_addr:
  assumes fi: "fi_pages env fi s e" and "n + k * 512 ^ l < e"
  shows "pa_plus env (page_addr n) (k * (PAGE * 512 ^ l)) = Some (page_addr (n + k * 512 ^ l))"
proof -
  have "(n + k * 512 ^ l) * PAGE \<le> e * PAGE" using assms(2) by (intro mult_le_mono1) simp
  also have "\<dots> < 2 ^ fe_bits env" using fi by (simp add: fi_pages_def)
  finally have "n * PAGE + k * (PAGE * 512 ^ l) < 2 ^ fe_bits env" by (simp add: algebra_simps)
  then show ?thesis
    using pa_plus_nat [of "n * PAGE" "k * (PAGE * 512 ^ l)" env] fi
    by (simp add: fi_pages_def page_addr_def algebra_simps)
qed

lemma children_below:
  assumes "finv fl m cov T H" and "n \<in> T \<union> H" and "lvl m n = Suc l" and "cov \<subseteq> {s..<e}" and "k < 512"
  shows "s \<le> n + k * 512 ^ l" "n + k * 512 ^ l < e"
proof -
  have "n \<in> all_free fl \<union> T \<union> H" using assms(2) by auto
  then have "blk m n \<subseteq> {s..<e}" using tiles_sub [OF finvD(5) [OF assms(1)]] assms(4) by blast
  moreover have "k * 512 ^ l < 512 ^ Suc l" using assms(5) by simp
  then have "n + k * 512 ^ l \<in> blk m n" by (simp add: blk_def assms(3))
  ultimately show "s \<le> n + k * 512 ^ l" "n + k * 512 ^ l < e" by auto
qed

text \<open>One turn of the loop over the children of \<open>n\<close>.\<close>

definition split_turn :: "frame_env \<Rightarrow> 'l frame_list_ops \<Rightarrow> FrameRef \<Rightarrow> nat \<Rightarrow> nat \<Rightarrow> 'l region \<Rightarrow> 'l region option" where
  "split_turn env ops n l k = (\<lambda>(r, m). do {
     pa \<leftarrow> pa_plus env (fr_pa (fm_frames m n)) (k * (PAGE * 512 ^ l));
     admit_child env ops pa l (fr_get_flags (fm_frames m n) AND PF_ZEROED) (r, m) })"

lemma split_loop:
  assumes laws: "frame_list_laws ops its" and fi: "fi_pages env (ar_indexer r) s e" and cov: "cov \<subseteq> {s..<e}" and l: "l < NR_LEVELS"
    and n: "fr_pa (fm_frames m n) = page_addr n" "fr_get_flags (fm_frames m n) AND PF_ZEROED = flags"
    and ks: "distinct ks" "0 \<notin> set ks" "\<And>k. k \<in> set ks \<Longrightarrow> n + k * 512 ^ l < e"
    and rep: "rep its (ar_levels r) fl" and T0: "T0 \<inter> insert n ((\<lambda>k. n + k * 512 ^ l) ` set ks) = {}"
    and inv: "finv fl (over (newf l flags) (insert n ((\<lambda>k. n + k * 512 ^ l) ` set ks)) m) cov
      (T0 \<union> insert n ((\<lambda>k. n + k * 512 ^ l) ` set ks)) H"
  shows "\<exists>r' m' fl'. foldM (split_turn env ops n l) ks (r, m) = Some (r', m') \<and> rep its (ar_levels r') fl' \<and>
    finv fl' (over (newf l flags) {n} m') cov (insert n T0) H \<and> fm_frames m' n = fm_frames m n \<and>
    ar_indexer r' = ar_indexer r \<and> ar_nr_pages r' = ar_nr_pages r \<and> fm_mem m' = fm_mem m \<and>
    (\<forall>k. k \<notin> (\<lambda>k. n + k * 512 ^ l) ` set ks \<longrightarrow> fm_frames m' k = fm_frames m k) \<and> (\<forall>j. j \<noteq> l \<longrightarrow> fl' j = fl j)"
  using fi n ks rep T0 inv
proof (induction ks arbitrary: r m fl)
  case Nil
  then show ?case by (simp add: insert_commute) blast
next
  case (Cons k ks)
  let ?c = "n + k * 512 ^ l" and ?C = "insert n ((\<lambda>k. n + k * 512 ^ l) ` set ks)"
  have c: "?c \<notin> ?C" using Cons.prems(4,5) by auto
  have set: "insert n ((\<lambda>k. n + k * 512 ^ l) ` set (k # ks)) = insert ?c ?C" by auto
  obtain r1 fl1 where r1: "admit_child env ops (page_addr ?c) l flags (r, m) = Some (r1, linked ?c (set_frame ?c (newf l flags ?c) m))"
    and 1: "rep its (ar_levels r1) fl1" "finv fl1 (over (newf l flags) ?C (linked ?c (set_frame ?c (newf l flags ?c) m))) cov
        (T0 \<union> insert ?c ?C - {?c}) H" "ar_indexer r1 = ar_indexer r" "ar_nr_pages r1 = ar_nr_pages r" "\<forall>j. j \<noteq> l \<longrightarrow> fl1 j = fl j"
    using admit_child_ok [OF laws Cons.prems(7,1) cov l c _ Cons.prems(9) [unfolded set]] by fastforce
  let ?m1 = "linked ?c (set_frame ?c (newf l flags ?c) m)"
  have T: "T0 \<union> insert ?c ?C - {?c} = T0 \<union> ?C" using Cons.prems(8) c unfolding set by auto
  have n1: "fm_frames ?m1 n = fm_frames m n" using c by (auto simp: linked_def)
  have "split_turn env ops n l k (r, m) = Some (r1, ?m1)"
    using r1 child_addr [OF Cons.prems(1) Cons.prems(6) [of k]] Cons.prems(2,3) by (simp add: split_turn_def)
  moreover obtain r' m' fl' where "foldM (split_turn env ops n l) ks (r1, ?m1) = Some (r', m')" "rep its (ar_levels r') fl'"
    "finv fl' (over (newf l flags) {n} m') cov (insert n T0) H" "fm_frames m' n = fm_frames ?m1 n"
    "ar_indexer r' = ar_indexer r1" "ar_nr_pages r' = ar_nr_pages r1" "fm_mem m' = fm_mem ?m1"
    "\<forall>k. k \<notin> (\<lambda>k. n + k * 512 ^ l) ` set ks \<longrightarrow> fm_frames m' k = fm_frames ?m1 k" "\<forall>j. j \<noteq> l \<longrightarrow> fl' j = fl1 j"
    using Cons.IH [of r1 ?m1 fl1] Cons.prems 1 T n1 by (force simp del: link_simps)
  ultimately show ?case using 1 n1 by (auto simp: linked_def)
qed

lemma children_list: "insert n ((\<lambda>k. n + k * 512 ^ l) ` set [1..<512]) = children l n"
proof -
  have "{..<512} = insert 0 (set [1..<512 :: nat])" by auto
  then show ?thesis unfolding children_def by simp
qed

lemma children_in_blk:
  assumes "lvl m n = Suc l"
  shows "children l n \<subseteq> blk m n"
proof -
  have "children l n \<subseteq> (\<Union>x\<in>children l n. {x ..< x + 512 ^ l})" by auto
  then show ?thesis unfolding children_blocks blk_def assms .
qed

lemma fok_newf:
  assumes "k \<in> C" and "l < NR_LEVELS" and "512 ^ l dvd k"
  shows "fok (over (newf l flags) C m) k False False"
  using assms by (simp add: fok_def)

lemma children_dvd:
  assumes "512 ^ Suc l dvd n" and "k \<in> children l n"
  shows "512 ^ l dvd k"
proof -
  have "512 ^ l dvd n" using le_imp_power_dvd [of l "Suc l" 512] assms(1) by (meson dvd_trans lessI less_imp_le_nat)
  then show ?thesis using assms(2) by (auto simp: children_def)
qed

definition rinv :: "frame_env \<Rightarrow> ('l \<Rightarrow> FrameRef list) \<Rightarrow> nat \<Rightarrow> nat \<Rightarrow> free_lists \<Rightarrow> 'l region \<Rightarrow> FrameRef set \<Rightarrow> FrameRef set \<Rightarrow> bool" where
  "rinv env its s e fl = (\<lambda>(r, m) T H. rep its (ar_levels r) fl \<and> finv fl m {s..<e} T H \<and> fi_pages env (ar_indexer r) s e)"

text \<open>What an operation on a region leaves alone.\<close>

definition keeps :: "nat set \<Rightarrow> 'l region \<Rightarrow> 'l region \<Rightarrow> bool" where
  "keeps A = (\<lambda>(r, m) (r', m'). ar_indexer r' = ar_indexer r \<and> ar_nr_pages r' = ar_nr_pages r \<and> fm_mem m' = fm_mem m \<and>
     (\<forall>k. k \<notin> A \<longrightarrow> fm_frames m' k = fm_frames m k))"

lemma keeps_refl [simp]: "keeps A s s"
  by (simp add: keeps_def split: prod.splits)

lemma keeps_trans: "keeps A s t \<Longrightarrow> keeps B t u \<Longrightarrow> A \<union> B \<subseteq> C \<Longrightarrow> keeps C s u"
  by (auto simp: keeps_def split: prod.splits) (metis subsetD)

lemma ar_contains_frame:
  assumes "rinv env its s e fl (r, m) T H" and "n \<in> T \<union> H"
  shows "ar_contains env r (fr_pa (fm_frames m n)) = Some True" and "s \<le> n" and "n < e"
proof -
  have inv: "finv fl m {s..<e} T H" and fi: "fi_pages env (ar_indexer r) s e" using assms(1) by (simp_all add: rinv_def)
  have "n \<in> all_free fl \<union> T \<union> H" using assms(2) by auto
  then have "n \<in> {s..<e}" using tiles_sub [OF finvD(5) [OF inv]] blk_self [of n m] by blast
  then show n: "s \<le> n" "n < e" by simp_all
  have "fr_pa (fm_frames m n) = page_addr n" using finvD(3,4) [OF inv] assms(2) by (auto simp: fok_def)
  then show "ar_contains env r (fr_pa (fm_frames m n)) = Some True"
    using fi_contains_page [OF fi, of n] fi_pages_bound [OF fi, of n] n by (simp add: ar_contains_def)
qed

lemma ar_split_ok:
  assumes laws: "frame_list_laws ops its" and inv: "rinv env its s e fl (r, m) T H" and n: "n \<in> T" "lvl m n = Suc l"
  shows "\<exists>st' fl'. ar_split env ops n (r, m) = Some st' \<and> rinv env its s e fl' st' (T - {n}) H \<and> keeps (blk m n) (r, m) st' \<and>
    fl' l (fbit m n 0) \<noteq> [] \<and> (\<forall>j. j \<noteq> l \<longrightarrow> fl' j = fl j)"
proof -
  have rep: "rep its (ar_levels r) fl" and f: "finv fl m {s..<e} T H" and fi: "fi_pages env (ar_indexer r) s e"
    using inv by (simp_all add: rinv_def)
  note ok = finvD(3) [OF f n(1)]
  have l: "Suc l < NR_LEVELS" "l < NR_LEVELS" and pa: "fr_pa (fm_frames m n) = page_addr n" and dv: "512 ^ Suc l dvd n"
    using ok n(2) by (simp_all add: fok_def)
  let ?flags = "fr_get_flags (fm_frames m n) AND PF_ZEROED" and ?ch = "\<lambda>k. n + k * 512 ^ l"
  have bits: "bit ?flags j \<longleftrightarrow> j = 0 \<and> fbit m n 0" for j by (auto simp: fr_get_flags_def bit_ops fbit_def)
  have "finv fl (over (newf l ?flags) (children l n) m) {s..<e} (T - {n} \<union> children l n) H"
    using l(2) bits children_dvd [OF dv] by (intro finv_explode_T [OF f n]) (simp add: fok_newf)
  then have "finv fl (over (newf l ?flags) (insert n (?ch ` set [1..<512])) m) {s..<e} (T - {n} \<union> insert n (?ch ` set [1..<512])) H"
    unfolding children_list .
  moreover have "(T - {n}) \<inter> insert n (?ch ` set [1..<512]) = {}"
  proof -
    have "n \<in> all_free fl \<union> T \<union> H" using n by simp
    from explode_tiles(1) [OF finvD(5,6) [OF f] this n(2), of "newf l ?flags"] show ?thesis
      unfolding children_list using l(2) bits by auto
  qed
  moreover have "?ch k < e" if "k \<in> set [1..<512]" for k
    using children_below(2) [OF f _ n(2) order_refl, of k] n(1) that by simp
  ultimately obtain r1 m1 fl1 where loop: "foldM (split_turn env ops n l) [1..<512] (r, m) = Some (r1, m1)"
    and 1: "rep its (ar_levels r1) fl1" "finv fl1 (over (newf l ?flags) {n} m1) {s..<e} (insert n (T - {n})) H"
      "fm_frames m1 n = fm_frames m n" "ar_indexer r1 = ar_indexer r" "ar_nr_pages r1 = ar_nr_pages r" "fm_mem m1 = fm_mem m"
      "\<forall>k. k \<notin> ?ch ` set [1..<512] \<longrightarrow> fm_frames m1 k = fm_frames m k" "\<forall>j. j \<noteq> l \<longrightarrow> fl1 j = fl j"
    using split_loop [OF laws fi order_refl l(2) pa refl _ _ _ rep, of "[1..<512]" "T - {n}" H] by auto
  obtain r2 where r2: "admit_child env ops (page_addr n) l ?flags (r1, m1) = Some (r2, linked n (set_frame n (newf l ?flags n) m1))"
    and 2: "rep its (ar_levels r2) (fl1(l := (fl1 l)(bit ?flags 0 := fl1 l (bit ?flags 0) @ [n])))"
      "finv (fl1(l := (fl1 l)(bit ?flags 0 := fl1 l (bit ?flags 0) @ [n]))) (linked n (set_frame n (newf l ?flags n) m1)) {s..<e} (T - {n}) H"
      "ar_indexer r2 = ar_indexer r1" "ar_nr_pages r2 = ar_nr_pages r1"
    using admit_child_ok [OF laws 1(1) _ order_refl l(2), of env s e n "{}" "insert n (T - {n})" ?flags m1 H] fi 1(2,4)
    by (auto simp: over_def)
  have "ar_split env ops n (r, m) = Some (r2, linked n (set_frame n (newf l ?flags n) m1))"
    using ar_contains_frame(1) [OF inv, of n] n l loop r2 pa 1(3)
    by (simp add: ar_split_def lvl_def [symmetric] layout_at fr_size_lvl split_turn_def [abs_def])
  moreover have "keeps (blk m n) (r, m) (r2, linked n (set_frame n (newf l ?flags n) m1))"
  proof -
    have "?ch ` set [1..<512] \<subseteq> blk m n" using children_in_blk [OF n(2)] children_list [of n l] by blast
    then have "fm_frames m1 k = fm_frames m k" if "k \<notin> blk m n" for k using 1(7) that by blast
    then show ?thesis using 1(4-6) 2(3,4) blk_self [of n m] by (auto simp: keeps_def linked_def)
  qed
  ultimately show ?thesis using 1(4,8) 2 fi bits by (auto simp: rinv_def)
qed

section \<open>Freeing and allocating\<close>

lemma frame_updates_ok:
  assumes "fok m n False a"
  shows "fok (set_frame n (fr_set_free (fm_frames m n)) m) n False False" "fok (set_frame n (fr_set_allocated (fm_frames m n)) m) n False True"
  using assms by (simp_all add: fok_def fr_set_free_def fr_set_allocated_def fr_get_level_def bit_ops fbit_def lvl_def)

lemma ar_free_ok:
  assumes laws: "frame_list_laws ops its" and inv: "rinv env its s e fl (r, m) T H" and n: "n \<in> H"
  shows "\<exists>st' fl'. ar_free env ops n (r, m) = Some st' \<and> rinv env its s e fl' st' T (H - {n}) \<and> keeps {n} (r, m) st'"
proof -
  have rep: "rep its (ar_levels r) fl" and f: "finv fl m {s..<e} T H" and fi: "fi_pages env (ar_indexer r) s e"
    using inv by (simp_all add: rinv_def)
  let ?m = "set_frame n (fr_set_free (fm_frames m n)) m"
  have nT: "n \<notin> T" using finv_separate(3) [OF f] n by blast
  note ok = finvD(4) [OF f n]
  have f1: "finv fl ?m {s..<e} (insert n T) (H - {n})"
    using finv_retag [OF f _ frame_updates_ok(1) [OF ok]] n by (simp add: fr_set_free_def fr_get_level_def lvl_def fbit_def bit_ops)
  have l: "lvl ?m n = lvl m n" "fbit ?m n 0 = fbit m n 0" "lvl m n < NR_LEVELS" "\<not> fr_linked (fm_frames ?m n)"
    using ok by (simp_all add: fok_def lvl_def fbit_def fr_set_free_def fr_get_level_def bit_ops)
  have "length (fl (lvl m n) True) + length (fl (lvl m n) False) \<le> e - s" by (rule free_count [OF f order_refl l(3)])
  moreover have "e < 2 ^ 52" using fi_pages_bound [OF fi, of e] by (simp add: PAGE_def)
  ultimately have "length (fl (lvl m n) True) + length (fl (lvl m n) False) + 1 < 2 ^ 64" by simp
  then obtain al where al: "al_push ops (fbit m n 0) n (ar_levels r ! lvl m n, ?m) = Some (al, linked n ?m)"
    "rep its ((ar_levels r)[lvl m n := al]) (fl(lvl m n := (fl (lvl m n))(fbit m n 0 := fl (lvl m n) (fbit m n 0) @ [n])))"
    using al_push_rep [OF laws rep l(3,4)] by blast
  let ?fl = "fl(lvl m n := (fl (lvl m n))(fbit m n 0 := fl (lvl m n) (fbit m n 0) @ [n]))"
  have "finv ?fl (linked n ?m) {s..<e} T (H - {n})"
    using finv_push [OF f1, of n] l nT by simp
  moreover have "ar_free env ops n (r, m) = Some (r\<lparr>ar_levels := (ar_levels r)[lvl m n := al]\<rparr>, linked n ?m)"
    using ar_contains_frame(1) [OF inv, of n] n l al(1) rep
    by (simp add: ar_free_def al_free_frame_def with_level_def index_at_def rep_def lvl_def [symmetric] fbit_def [symmetric]
      fr_get_level_def fr_set_free_def)
  ultimately show ?thesis using al(2) fi by (auto simp: rinv_def keeps_def linked_def)
qed

text \<open>A frame that was taken, or none if the lists of the level that may be used are empty.\<close>

definition taken :: "frame_env \<Rightarrow> ('l \<Rightarrow> FrameRef list) \<Rightarrow> nat \<Rightarrow> nat \<Rightarrow> bool \<Rightarrow> bool \<Rightarrow> nat \<Rightarrow> 'l region \<Rightarrow> FrameRef set \<Rightarrow> FrameRef set \<Rightarrow>
    FrameRef \<Rightarrow> 'l region \<Rightarrow> bool" where
  "taken env its s e tz oz i st T H n st' \<longleftrightarrow> (\<exists>fl. rinv env its s e fl st' (insert n T) H) \<and> n \<notin> T \<union> H \<and>
     lvl (snd st') n = i \<and> (oz \<longrightarrow> fbit (snd st') n 0) \<and> (fbit (snd st') n 0 \<longrightarrow> oz \<or> tz) \<and>
     keeps ({s..<e} - (T \<union> H)) st st'"

lemma level_take_ok:
  assumes laws: "frame_list_laws ops its" and inv: "rinv env its s e fl (r, m) T H" and i: "i < NR_LEVELS"
  shows "\<exists>x st'. with_level i (al_allocate ops tz oz) (r, m) = Some (x, st') \<and> (case x of
      None \<Rightarrow> st' = (r, m) \<and> fl i oz = [] \<and> (tz \<longrightarrow> fl i True = [])
    | Some n \<Rightarrow> taken env its s e tz oz i (r, m) T H n st')"
proof -
  have rep: "rep its (ar_levels r) fl" and f: "finv fl m {s..<e} T H" and fi: "fi_pages env (ar_indexer r) s e"
    using inv by (simp_all add: rinv_def)
  have len: "i < length (ar_levels r)" using rep i by (simp add: rep_def)
  obtain x al m' where a: "al_allocate ops tz oz (ar_levels r ! i, m) = Some (x, al, m')"
    "took its fl i tz oz (ar_levels r) m x ((ar_levels r)[i := al]) m'"
    using al_allocate_ok [OF laws rep i] by blast
  let ?st = "(r\<lparr>ar_levels := (ar_levels r)[i := al]\<rparr>, m')"
  have w: "with_level i (al_allocate ops tz oz) (r, m) = Some (x, ?st)"
    using a(1) len by (simp add: with_level_def index_at_def)
  show ?thesis
  proof (cases x)
    case None
    then show ?thesis using w a(2) by (simp add: took_def)
  next
    case (Some n)
    then obtain z xs where z: "oz \<longrightarrow> z" "z \<longrightarrow> oz \<or> tz" "fl i z = xs @ [n]" "m' = unlinked n m"
      "rep its ((ar_levels r)[i := al]) (fl(i := (fl i)(z := xs)))" using a(2) by (auto simp: took_def)
    have n: "n \<in> set (fl i z)" using z(3) by simp
    have free: "n \<in> all_free fl" by (rule all_freeI [of i n fl z, OF i n])
    then have "n \<notin> T \<union> H" using finv_separate [OF f] by blast
    moreover have "n \<in> {s..<e}" using tiles_sub [OF finvD(5) [OF f], of n] free blk_self [of n m] by blast
    moreover have "rinv env its s e (fl(i := (fl i)(z := xs))) ?st (insert n T) H"
      using finv_pop [OF f i z(3)] z(4,5) fi by (simp add: rinv_def)
    moreover have "lvl m' n = i" "fbit m' n 0 = z" using finvD(2) [OF f i n] z(4) by simp_all
    ultimately have "taken env its s e tz oz i (r, m) T H n ?st"
      using z(1,2,4) by (auto simp: taken_def keeps_def unlinked_def)
    then show ?thesis using w Some by auto
  qed
qed

lemma do_allocate_ok:
  assumes laws: "frame_list_laws ops its"
  shows "rinv env its s e fl (r, m) T H \<Longrightarrow>
    \<exists>x st'. do_allocate env ops tz oz level (r, m) = Some (x, st') \<and> (case x of
      None \<Rightarrow> st' = (r, m) \<and> (\<forall>j. level \<le> j \<and> j < NR_LEVELS \<longrightarrow> fl j oz = [] \<and> (tz \<longrightarrow> fl j True = []))
    | Some n \<Rightarrow> taken env its s e tz oz level (r, m) T H n st')"
proof (induction "NR_LEVELS - level" arbitrary: level)
  case 0
  then show ?case by (auto simp: do_allocate.simps [of env ops tz oz level])
next
  case (Suc d)
  then have lev: "level < NR_LEVELS" by simp
  note inv = Suc.prems
  obtain x st where w: "with_level level (al_allocate ops tz oz) (r, m) = Some (x, st)"
    and x: "case x of None \<Rightarrow> st = (r, m) \<and> fl level oz = [] \<and> (tz \<longrightarrow> fl level True = [])
      | Some n \<Rightarrow> taken env its s e tz oz level (r, m) T H n st"
    using level_take_ok [OF laws inv lev] by blast
  show ?case
  proof (cases x)
    case (Some n)
    then show ?thesis using w x lev by (simp add: do_allocate.simps [of env ops tz oz level])
  next
    case None
    then have st: "st = (r, m)" and e: "fl level oz = []" "tz \<longrightarrow> fl level True = []" using x by simp_all
    obtain y st1 where d: "do_allocate env ops tz oz (level + 1) (r, m) = Some (y, st1)"
      and y: "case y of None \<Rightarrow> st1 = (r, m) \<and> (\<forall>j. level + 1 \<le> j \<and> j < NR_LEVELS \<longrightarrow> fl j oz = [] \<and> (tz \<longrightarrow> fl j True = []))
        | Some n \<Rightarrow> taken env its s e tz oz (level + 1) (r, m) T H n st1"
    proof -
      have "d = NR_LEVELS - (level + 1)" using Suc.hyps(2) by simp
      from Suc.hyps(1) [OF this inv] show ?thesis using that by blast
    qed
    show ?thesis
    proof (cases y)
      case None
      have "fl j oz = [] \<and> (tz \<longrightarrow> fl j True = [])" if "level \<le> j" "j < NR_LEVELS" for j
        using that y None e by (cases "j = level") auto
      then show ?thesis using None \<open>x = None\<close> y w d lev st by (simp add: do_allocate.simps [of env ops tz oz level])
    next
      case (Some n)
      obtain r1 m1 where st1: "st1 = (r1, m1)" by (cases st1)
      from y Some obtain fl1 where 1: "rinv env its s e fl1 (r1, m1) (insert n T) H" "n \<notin> T \<union> H" "lvl m1 n = Suc level"
        "oz \<longrightarrow> fbit m1 n 0" "fbit m1 n 0 \<longrightarrow> oz \<or> tz" "keeps ({s..<e} - (T \<union> H)) (r, m) (r1, m1)"
        by (auto simp: taken_def st1)
      obtain r2 m2 fl2 where 2: "ar_split env ops n (r1, m1) = Some (r2, m2)" "rinv env its s e fl2 (r2, m2) (insert n T - {n}) H"
        "keeps (blk m1 n) (r1, m1) (r2, m2)" "fl2 level (fbit m1 n 0) \<noteq> []"
        using ar_split_ok [OF laws 1(1) _ 1(3)] by fastforce
      have T: "insert n T - {n} = T" using 1(2) by auto
      obtain z st3 where 3: "with_level level (al_allocate ops tz oz) (r2, m2) = Some (z, st3)"
        "case z of None \<Rightarrow> st3 = (r2, m2) \<and> fl2 level oz = [] \<and> (tz \<longrightarrow> fl2 level True = [])
         | Some n \<Rightarrow> taken env its s e tz oz level (r2, m2) T H n st3"
        using level_take_ok [OF laws 2(2) lev] unfolding T by blast
      have "z \<noteq> None"
      proof
        assume "z = None"
        then show False using 3(2) 2(4) 1(4,5) by (cases "fbit m1 n 0"; cases oz) auto
      qed
      then obtain k where k: "z = Some k" by auto
      have f1: "finv fl1 m1 {s..<e} (insert n T) H" using 1(1) by (simp add: rinv_def)
      have "blk m1 n \<subseteq> {s..<e} - (T \<union> H)"
      proof -
        have "n \<in> all_free fl1 \<union> insert n T \<union> H" by simp
        then have "blk m1 n \<subseteq> {s..<e}" by (rule tiles_sub [OF finvD(5) [OF f1]])
        moreover have "q \<notin> blk m1 n" if "q \<in> T \<union> H" for q
          using tiles_unique [OF finvD(5) [OF f1], of q n q] that 1(2) by auto
        ultimately show ?thesis by blast
      qed
      then have "keeps ({s..<e} - (T \<union> H)) (r, m) (r2, m2)" using keeps_trans [OF 1(6) 2(3)] by blast
      then have "taken env its s e tz oz level (r, m) T H k st3"
        using 3(2) k keeps_trans [of _ "(r, m)" "(r2, m2)" _ st3] by (auto simp: taken_def)
      then show ?thesis using k Some st1 \<open>x = None\<close> w d lev st 2(1) 3(1) by (simp add: do_allocate.simps [of env ops tz oz level])
    qed
  qed
qed

text \<open>The least level that is large enough for a layout.\<close>

lemma find_level_rep:
  assumes "rep its (ar_levels r) fl" and "find_level layout r = Some i"
  shows "i < NR_LEVELS" "fst layout \<le> PAGE * 512 ^ i" "snd layout \<le> PAGE * 512 ^ i"
proof -
  from assms(2) have i: "i < length (ar_levels r)" "al_alloc_size (ar_levels r ! i) \<ge> fst layout" "al_align (ar_levels r ! i) \<ge> snd layout"
    by (auto simp: find_level_def position_def find_Some_iff)
  then show "i < NR_LEVELS" "fst layout \<le> PAGE * 512 ^ i" "snd layout \<le> PAGE * 512 ^ i"
    using assms(1) by (auto simp: rep_def)
qed

lemma ar_allocate_ok:
  assumes laws: "frame_list_laws ops its" and inv: "rinv env its s e fl (r, m) {} H"
  shows "\<exists>x r' m'. ar_allocate env ops tz oz layout (r, m) = Some (x, r', m') \<and> (case x of
      None \<Rightarrow> (r', m') = (r, m) \<and> (\<forall>i. find_level layout r = Some i \<longrightarrow>
        (\<forall>j. i \<le> j \<and> j < NR_LEVELS \<longrightarrow> fl j oz = [] \<and> (tz \<longrightarrow> fl j True = [])))
    | Some n \<Rightarrow> (\<exists>fl'. rinv env its s e fl' (r', m') {} (insert n H)) \<and> n \<notin> H \<and> find_level layout r = Some (lvl m' n) \<and>
        (oz \<longrightarrow> fbit m' n 0) \<and> keeps ({s..<e} - H) (r, m) (r', m'))"
proof (cases "find_level layout r")
  case None
  then show ?thesis by (simp add: ar_allocate_def)
next
  case (Some i)
  obtain x st where d: "do_allocate env ops tz oz i (r, m) = Some (x, st)" and x: "case x of
      None \<Rightarrow> st = (r, m) \<and> (\<forall>j. i \<le> j \<and> j < NR_LEVELS \<longrightarrow> fl j oz = [] \<and> (tz \<longrightarrow> fl j True = []))
    | Some n \<Rightarrow> taken env its s e tz oz i (r, m) {} H n st" using do_allocate_ok [OF laws inv] by blast
  obtain r1 m1 where st: "st = (r1, m1)" by (cases st)
  show ?thesis
  proof (cases x)
    case None
    then show ?thesis using Some d x st by (simp add: ar_allocate_def)
  next
    case n: (Some n)
    then obtain fl1 where 1: "rinv env its s e fl1 (r1, m1) {n} H" "n \<notin> H" "lvl m1 n = i" "oz \<longrightarrow> fbit m1 n 0"
      "keeps ({s..<e} - H) (r, m) (r1, m1)" using x st by (auto simp: taken_def)
    let ?m = "set_frame n (fr_set_allocated (fm_frames m1 n)) m1"
    have f1: "finv fl1 m1 {s..<e} {n} H" using 1(1) by (simp add: rinv_def)
    note ok = finvD(3) [OF f1, of n, simplified]
    have "finv fl1 ?m {s..<e} {} (insert n H)"
      using finv_retag [OF f1 _ frame_updates_ok(2) [OF ok]]
      by (simp add: fr_set_allocated_def fr_get_level_def lvl_def fbit_def bit_ops)
    then have "rinv env its s e fl1 (r1, ?m) {} (insert n H)" using 1(1) by (simp add: rinv_def)
    moreover have "ar_allocate env ops tz oz layout (r, m) = Some (Some n, r1, ?m)"
      using Some d n st ok by (simp add: ar_allocate_def fok_def fbit_def)
    moreover have "lvl ?m n = i" "fbit ?m n 0 = fbit m1 n 0"
      using 1(3) by (simp_all add: fr_set_allocated_def fr_get_level_def lvl_def fbit_def bit_ops)
    moreover have "n \<in> {s..<e} - H" using ar_contains_frame(2,3) [OF 1(1), of n] 1(2) by simp
    then have "keeps ({s..<e} - H) (r, m) (r1, ?m)" using 1(5) by (auto simp: keeps_def)
    ultimately show ?thesis using Some 1(2,4) by auto
  qed
qed

section \<open>Splitting for a client\<close>

definition keptf :: "nat \<Rightarrow> u8 \<Rightarrow> FrameRef \<Rightarrow> Frame" where
  "keptf l flags k = \<lparr>fr_pa = page_addr k, fr_flags = ((flags AND NOT PF_LOCKED) OR PF_ADMITTED) OR PF_ALLOCATED,
     fr_level = of_nat l, fr_linked = False\<rparr>"

lemma keptf_simps [simp]:
  "fr_pa (keptf l flags k) = page_addr k" "fr_linked (keptf l flags k) = False"
  "bit (fr_flags (keptf l flags k)) j \<longleftrightarrow> bit flags j \<and> j \<noteq> 7 \<or> j = 1 \<or> j = 2"
  "l < NR_LEVELS \<Longrightarrow> fr_get_level (keptf l flags k) = l"
proof -
  show "bit (fr_flags (keptf l flags k)) j \<longleftrightarrow> bit flags j \<and> j \<noteq> 7 \<or> j = 1 \<or> j = 2"
    using bit_less_LENGTH [of flags j] by (auto simp: keptf_def bit_ops)
  show "l < NR_LEVELS \<Longrightarrow> fr_get_level (keptf l flags k) = l"
    by (simp add: keptf_def fr_get_level_def unat_of_nat NR_LEVELS_def)
qed (simp_all add: keptf_def)

lemma keep_child_ok:
  assumes "fi_pages env (ar_indexer r) s e" and "s \<le> c" "c < e"
  shows "keep_child env r (page_addr c) l flags m = Some (set_frame c (keptf l flags c) m)"
  using fi_get_frame_page [OF assms]
  by (cases "fm_frames m c") (simp add: keep_child_def keptf_def fr_reset_def fr_set_admitted_def fr_set_allocated_def)

definition keep_turn :: "frame_env \<Rightarrow> 'l AllocationRegion \<Rightarrow> FrameRef \<Rightarrow> nat \<Rightarrow> nat \<Rightarrow> frames \<Rightarrow> frames option" where
  "keep_turn env r n l k m = do {
     pa \<leftarrow> pa_plus env (fr_pa (fm_frames m n)) (k * (PAGE * 512 ^ l));
     keep_child env r pa l (fr_get_flags (fm_frames m n) AND PF_ZEROED) m }"

lemma keep_loop:
  assumes "fi_pages env (ar_indexer r) s e"
    and "fr_pa (fm_frames m n) = page_addr n" "fr_get_flags (fm_frames m n) AND PF_ZEROED = flags"
    and "0 \<notin> set ks" "\<And>k. k \<in> set ks \<Longrightarrow> s \<le> n + k * 512 ^ l \<and> n + k * 512 ^ l < e"
  shows "foldM (keep_turn env r n l) ks m = Some (over (keptf l flags) ((\<lambda>k. n + k * 512 ^ l) ` set ks) m)"
  using assms
proof (induction ks arbitrary: m)
  case Nil
  then show ?case by (simp add: over_def)
next
  case (Cons k ks)
  let ?c = "n + k * 512 ^ l" and ?m = "set_frame (n + k * 512 ^ l) (keptf l flags (n + k * 512 ^ l)) m"
  have "?c \<noteq> n" using Cons.prems(4) by auto
  then have n: "fm_frames ?m n = fm_frames m n" by simp
  have "keep_turn env r n l k m = Some ?m"
    using child_addr [OF Cons.prems(1), of n k l] keep_child_ok [OF Cons.prems(1), of ?c l flags m] Cons.prems(2,3,5)
    by (simp add: keep_turn_def)
  moreover have "foldM (keep_turn env r n l) ks ?m = Some (over (keptf l flags) ((\<lambda>k. n + k * 512 ^ l) ` set ks) ?m)"
    using Cons.prems n by (intro Cons.IH) auto
  moreover have "over (keptf l flags) ((\<lambda>k. n + k * 512 ^ l) ` set ks) ?m = over (keptf l flags) ((\<lambda>k. n + k * 512 ^ l) ` set (k # ks)) m"
    by (auto simp: over_def set_frame_def fun_eq_iff)
  ultimately show ?case by simp
qed

lemma split_and_keep_ok:
  assumes inv: "rinv env its s e fl (r, m) T H" and n: "n \<in> H"
  shows "\<exists>H' m'. split_and_keep env n (r, m) = Some ((n, PAGE * 512 ^ lvl m n), r, m') \<and> rinv env its s e fl (r, m') T H' \<and>
    keeps (blk m n) (r, m) (r, m') \<and>
    (if lvl m n = 0 then H' = H \<and> m' = m
     else H' = H - {n} \<union> children (lvl m n - 1) n \<and> (\<forall>k\<in>children (lvl m n - 1) n. lvl m' k = lvl m n - 1 \<and> fbit m' k 0 = fbit m n 0))"
proof (cases "lvl m n")
  case 0
  then show ?thesis
    using ar_contains_frame(1) [OF inv, of n] n inv by (simp add: split_and_keep_def lvl_def [symmetric])
next
  case (Suc l)
  have rep: "rep its (ar_levels r) fl" and f: "finv fl m {s..<e} T H" and fi: "fi_pages env (ar_indexer r) s e"
    using inv by (simp_all add: rinv_def)
  note ok = finvD(4) [OF f n]
  have l: "Suc l < NR_LEVELS" "l < NR_LEVELS" and pa: "fr_pa (fm_frames m n) = page_addr n" and dv: "512 ^ Suc l dvd n"
    using ok Suc by (simp_all add: fok_def)
  let ?flags = "fr_get_flags (fm_frames m n) AND PF_ZEROED" and ?ch = "\<lambda>k. n + k * 512 ^ l"
  let ?m1 = "over (keptf l ?flags) (?ch ` set [1..<512]) m" and ?m2 = "over (keptf l ?flags) (children l n) m"
  have bits: "bit ?flags j \<longleftrightarrow> j = 0 \<and> fbit m n 0" for j by (auto simp: fr_get_flags_def bit_ops fbit_def)
  have inv2: "finv fl ?m2 {s..<e} T (H - {n} \<union> children l n)"
    using l(2) bits children_dvd [OF dv] by (intro finv_explode_H [OF f n Suc]) (simp add: fok_def)
  have nm: "fm_frames ?m1 n = fm_frames m n" by auto
  have loop: "foldM (keep_turn env r n l) [1..<512] m = Some ?m1"
    using children_below [OF f _ Suc order_refl] n by (intro keep_loop [OF fi pa refl]) auto
  have "keep_child env r (page_addr n) l ?flags ?m1 = Some ?m2"
  proof -
    have "set_frame n (keptf l ?flags n) ?m1 = ?m2"
      unfolding children_list [symmetric] by (auto simp: over_def set_frame_def fun_eq_iff)
    then show ?thesis using keep_child_ok [OF fi] ar_contains_frame(2,3) [OF inv, of n] n by simp
  qed
  then have "split_and_keep env n (r, m) = Some ((n, PAGE * 512 ^ Suc l), r, ?m2)"
    using ar_contains_frame(1) [OF inv, of n] n l loop pa Suc nm
    by (simp add: split_and_keep_def lvl_def [symmetric] layout_at fr_size_lvl keep_turn_def [abs_def])
  moreover have "keeps (blk m n) (r, m) (r, ?m2)"
    using children_in_blk [OF Suc] by (auto simp: keeps_def)
  ultimately show ?thesis using inv2 rep fi Suc l(2) bits by (auto simp: rinv_def)
qed

end
