(* ===== verification/Frame_Build.thy ===== *)
theory Frame_Build
  imports Frame_Ops
begin

text \<open>Building a region: the loop that organises the pages of a range into levels ends and tiles the range.\<close>

section \<open>The loop\<close>

lemma child_addr_le:
  assumes fi: "fi_pages env fi s e" and "c + d \<le> e"
  shows "pa_plus env (page_addr c) (PAGE * d) = Some (page_addr (c + d))"
proof -
  have "(c + d) * PAGE \<le> e * PAGE" using assms(2) by (intro mult_le_mono1)
  also have "\<dots> < 2 ^ fe_bits env" using fi by (simp add: fi_pages_def)
  finally show ?thesis
    using pa_plus_nat [of "c * PAGE" "PAGE * d" env] fi by (simp add: fi_pages_def page_addr_def algebra_simps)
qed

lemma choose_level_ok:
  assumes rep: "rep its levels fl" and c: "c < e" and b: "c * PAGE < 2 ^ 64"
  obtains i where "choose_level (page_addr c) ((e - c) * PAGE) levels = Some i" "i < NR_LEVELS" "512 ^ i dvd c" "c + 512 ^ i \<le> e"
proof -
  let ?P = "\<lambda>al. unat (pa_raw (page_addr c)) mod al_align al = 0 \<and> (e - c) * PAGE \<ge> al_alloc_size al"
  have len: "length levels = NR_LEVELS" using rep by (simp add: rep_def)
  have P: "?P (levels ! i) \<longleftrightarrow> 512 ^ i dvd c \<and> c + 512 ^ i \<le> e" if "i < NR_LEVELS" for i
  proof -
    have "al_align (levels ! i) = 512 ^ i * PAGE" "al_alloc_size (levels ! i) = 512 ^ i * PAGE"
      using rep that by (simp_all add: rep_def)
    moreover have "512 ^ i * PAGE dvd c * PAGE \<longleftrightarrow> 512 ^ i dvd c" by simp
    ultimately show ?thesis using b c by (auto simp: page_addr_raw dvd_eq_mod_eq_0 [symmetric])
  qed
  have rv: "rev levels ! j = levels ! (NR_LEVELS - 1 - j)" if "j < NR_LEVELS" for j using that len by (simp add: rev_nth)
  have "?P (rev levels ! (NR_LEVELS - 1))" using rv [of "NR_LEVELS - 1"] P [of 0] c by (simp add: NR_LEVELS_def)
  then have "position ?P (rev levels) \<noteq> None"
    using len unfolding position_def find_None_iff by (auto simp: NR_LEVELS_def intro!: exI [of _ 2])
  then obtain j where j: "position ?P (rev levels) = Some j" by auto
  then have "j < NR_LEVELS" "?P (rev levels ! j)" using len by (auto simp: position_def find_Some_iff)
  then show ?thesis using that [of "NR_LEVELS - 1 - j"] j P [of "NR_LEVELS - 1 - j"] rv by (simp add: choose_level_def)
qed

lemma reset_subs:
  assumes fi: "fi_pages env fi s e" and c: "s \<le> c" "c + k \<le> e"
  shows "\<exists>m'. foldM (reset_sub env fi (page_addr c)) [0..<k] m = Some m' \<and> fm_mem m' = fm_mem m \<and>
    (\<forall>q. q \<notin> {c..<c + k} \<longrightarrow> fm_frames m' q = fm_frames m q)"
  using c(2)
proof (induction k)
  case 0
  then show ?case by simp
next
  case (Suc k)
  then obtain m' where m': "foldM (reset_sub env fi (page_addr c)) [0..<k] m = Some m'" "fm_mem m' = fm_mem m"
    "\<forall>q. q \<notin> {c..<c + k} \<longrightarrow> fm_frames m' q = fm_frames m q" by auto
  have "pa_plus env (page_addr c) (k * PAGE) = Some (page_addr (c + k))"
    using child_addr_le [OF fi, of c k] Suc.prems by (simp add: mult.commute)
  moreover have "fi_get_frame env fi (page_addr (c + k)) = Some (Some (c + k))"
    using fi_get_frame_page [OF fi, of "c + k"] c(1) Suc.prems by simp
  ultimately have "reset_sub env fi (page_addr c) k m' = Some (set_frame (c + k) (fr_reset (page_addr (c + k)) 0 0 (fm_frames m' (c + k))) m')"
    by (simp add: reset_sub_def)
  then show ?case using m' by (auto simp: less_Suc_eq)
qed

lemma build_levels_ok:
  assumes laws: "frame_list_laws ops its" and fi: "fi_pages env fi s e"
  shows "rep its levels fl \<Longrightarrow> finv fl m {s..<c} {} {} \<Longrightarrow> s \<le> c \<Longrightarrow> c \<le> e \<Longrightarrow>
    \<exists>levels' m' fl'. build_levels env ops fi (page_addr c) (page_addr e) levels m = Some (levels', m') \<and>
      rep its levels' fl' \<and> finv fl' m' {s..<e} {} {} \<and> fm_mem m' = fm_mem m \<and>
      (\<forall>q. q \<notin> {s..<e} \<longrightarrow> fm_frames m' q = fm_frames m q)"
proof (induction "e - c" arbitrary: c levels fl m rule: less_induct)
  case less
  have raw: "unat (pa_raw (page_addr c)) = c * PAGE" "unat (pa_raw (page_addr e)) = e * PAGE"
    using fi_pages_bound [OF fi] less.prems(4) by (simp_all add: page_addr_raw)
  show ?case
  proof (cases "c = e")
    case True
    then show ?thesis using less.prems by (subst build_levels.simps) auto
  next
    case False
    then have ce: "c < e" using less.prems(4) by simp
    have b: "c * PAGE < 2 ^ 64" "e * PAGE < 2 ^ 64" using fi_pages_bound [OF fi] ce by simp_all
    obtain i where i: "choose_level (page_addr c) ((e - c) * PAGE) levels = Some i" "i < NR_LEVELS" "512 ^ i dvd c" "c + 512 ^ i \<le> e"
      using choose_level_ok [OF less.prems(1) ce b(1)] by blast
    let ?c = "c + 512 ^ i"
    obtain m1 where m1: "foldM (reset_sub env fi (page_addr c)) [0..<512 ^ i] m = Some m1" "fm_mem m1 = fm_mem m"
      "\<forall>q. q \<notin> {c..<?c} \<longrightarrow> fm_frames m1 q = fm_frames m q"
      using reset_subs [OF fi less.prems(3) i(4)] by blast
    let ?m2 = "set_frame c (newf i 0 c) m1"
    have l2: "lvl ?m2 c = i" "\<not> fbit ?m2 c 0" "fok ?m2 c False False" using i(2,3) by (simp_all add: fok_def)
    have "finv fl ?m2 ({s..<c} \<union> {c ..< c + 512 ^ lvl ?m2 c}) (insert c {}) {}"
      using m1(2,3) l2 by (intro finv_extend [OF less.prems(2)]) auto
    moreover have "{s..<c} \<union> {c..<?c} = {s..<?c}" using less.prems(3) by (simp add: ivl_disj_un)
    ultimately have f2: "finv fl ?m2 {s..<?c} {c} {}" using l2(1) by simp
    have "length (fl i True) + length (fl i False) \<le> e - s" using free_count [OF f2 _ i(2), of s e] i(4) by simp
    moreover have "e < 2 ^ 52" using b(2) by (simp add: PAGE_def)
    ultimately have "length (fl i True) + length (fl i False) + 1 < 2 ^ 64" by simp
    then obtain al where al: "al_push ops False c (levels ! i, ?m2) = Some (al, linked c ?m2)"
      "rep its (levels[i := al]) (fl(i := (fl i)(False := fl i False @ [c])))"
      using al_push_rep [OF laws less.prems(1) i(2), of ?m2 c False] by auto
    have f3: "finv (fl(i := (fl i)(False := fl i False @ [c]))) (linked c ?m2) {s..<?c} {} {}"
      using finv_push [OF f2, of c] l2 by simp
    have size: "al_alloc_size al = PAGE * 512 ^ i" using al(2) i(2) less.prems(1) by (auto simp: rep_def)
    obtain levels' m' fl' where IH: "build_levels env ops fi (page_addr ?c) (page_addr e) (levels[i := al]) (linked c ?m2) = Some (levels', m')"
      "rep its levels' fl'" "finv fl' m' {s..<e} {} {}" "fm_mem m' = fm_mem (linked c ?m2)"
      "\<forall>q. q \<notin> {s..<e} \<longrightarrow> fm_frames m' q = fm_frames (linked c ?m2) q"
    proof -
      have "(0 :: nat) < 512 ^ i" by simp
      then have "e - ?c < e - c" using ce by linarith
      from less.hyps [of ?c, OF this al(2) f3] show ?thesis using that less.prems(3) i(4) by auto
    qed
    have "PhysAddr_sub (page_addr e) (page_addr c) = Some (of_nat ((e - c) * PAGE))"
      using raw b ce by (simp add: PhysAddr_sub_def checked_sub_Some_iff unat_of_nat diff_mult_distrib del: of_nat_mult of_nat_diff)
    moreover have "unat (of_nat ((e - c) * PAGE) :: u64) = (e - c) * PAGE"
      using b(2) by (simp add: unat_of_nat diff_mult_distrib del: of_nat_mult of_nat_diff)
    ultimately have "build_levels env ops fi (page_addr c) (page_addr e) levels m = Some (levels', m')"
      using i(1,2,4) raw ce fi_get_frame_page [OF fi less.prems(3) ce] m1(1) less.prems(1) al(1) size child_addr_le [OF fi i(4)] IH(1)
      by (subst build_levels.simps) (simp add: word_less_nat_alt layout_at index_at_def [of levels] rep_def admit_one_newf)
    moreover have "fm_frames m' q = fm_frames m q" if "q \<notin> {s..<e}" for q
    proof -
      have "q \<notin> {c..<?c}" using that less.prems(3) i(4) by auto
      then show ?thesis using IH(5) that m1(3) by (auto simp: linked_def)
    qed
    ultimately show ?thesis using IH(2-4) m1(2) by auto
  qed
qed

section \<open>New regions\<close>

text \<open>
  The environment: physical addresses are mapped, and the metadata of a frame is not larger than
  a page.
\<close>

definition env_ok :: "frame_env \<Rightarrow> bool" where
  "env_ok env \<longleftrightarrow> fe_bits env < 64 \<and> 0 < fe_frame_size env \<and> fe_frame_size env \<le> PAGE \<and>
     (\<forall>pa. unat (pa_raw pa) < 2 ^ fe_bits env \<longrightarrow> phys_to_virt (fe_off env) pa \<noteq> None)"

text \<open>A range of memory below the limit of physical addresses that reaches to the first page boundary in it.\<close>

definition mr_ok :: "frame_env \<Rightarrow> MemoryRegion \<Rightarrow> bool" where
  "mr_ok env mr \<longleftrightarrow> unat (pa_raw (mr_start mr)) + mr_length mr < 2 ^ fe_bits env \<and>
     round_up PAGE (unat (pa_raw (mr_start mr))) \<le> unat (pa_raw (mr_start mr)) + mr_length mr"

lemma align_up_page:
  assumes bits: "fe_bits env < 64" and lt: "round_up PAGE (unat (pa_raw p)) < 2 ^ fe_bits env"
  shows "PhysAddr_align_up (fe_bits env) p (of_nat PAGE) = Some (Inr (page_addr (round_up PAGE (unat (pa_raw p)) div PAGE)))"
proof -
  let ?a = "unat (pa_raw p)"
  have P: "PAGE = 2 ^ 12" "(of_nat PAGE :: u64) = 2 ^ 12" by (simp_all add: PAGE_def)
  have p2: "is_power_of_two (2 ^ 12 :: u64)" unfolding is_power_of_two_iff by (intro exI [of _ 12]) simp
  have "round_up PAGE ?a div PAGE * PAGE = round_up PAGE ?a"
    using round_up_props(1) [of PAGE ?a] by simp
  then have pa: "page_addr (round_up PAGE ?a div PAGE) = PhysAddr (of_nat (round_up PAGE ?a))" by (simp only: page_addr_def)
  have lt64: "round_up PAGE ?a < 2 ^ 64"
    using lt power_strict_increasing [of "fe_bits env" 64 "2 :: nat"] bits by linarith
  show ?thesis
  proof (cases "2 ^ 12 dvd ?a")
    case True
    then have "pa_raw p AND mask 12 = 0" by (simp only: and_mask_eq_0_iff)
    moreover have "round_up PAGE ?a = ?a" using True by (simp add: round_up_def P(1))
    then have "p = PhysAddr (of_nat (round_up PAGE ?a))" by (cases p) simp
    ultimately show ?thesis unfolding pa P(2) PhysAddr_align_up_def by (simp only: p2 pow2_minus_1 assert_that_bind if_True Let_def refl)
  next
    case False
    then have "pa_raw p AND mask 12 \<noteq> 0" by (simp only: and_mask_eq_0_iff not_False_eq_True)
    moreover have "checked_add (pa_raw p OR mask 12) 1 = Some (of_nat (round_up PAGE ?a))"
      using align_up_raw [of 12 "pa_raw p"] False lt64 by (simp add: P(1))
    moreover have "PhysAddr_new (fe_bits env) (of_nat (round_up PAGE ?a)) = Inr (PhysAddr (of_nat (round_up PAGE ?a)))"
    proof -
      have "unat (of_nat (round_up PAGE ?a) :: u64) = round_up PAGE ?a" using lt64 by (simp only: unat_of_nat) simp
      moreover have "unat (push_bit (fe_bits env) 1 :: u64) = 2 ^ fe_bits env"
        using unat_pow2 [of "fe_bits env", where 'a = 64] bits by (simp add: push_bit_eq_mult)
      ultimately show ?thesis using lt by (simp add: PhysAddr_new_def word_less_nat_alt)
    qed
    ultimately show ?thesis unfolding pa P(2) PhysAddr_align_up_def
      by (simp only: p2 pow2_minus_1 assert_that_bind if_True if_False Let_def option.case)
  qed
qed

lemma finv_empty: "finv (\<lambda>_ _. []) m {} {} {}"
  by (simp add: finv_def tiles_def zero_ok_def all_free_def disjoint_family_on_def)

lemma rep_new:
  assumes "frame_list_laws ops its"
  shows "rep its (map (al_new ops) PHYS_LEVEL_LAYOUTS) (\<lambda>_ _. [])"
proof -
  have "its (fl_new ops) = []" using assms by (simp add: frame_list_laws_def)
  then show ?thesis
    by (auto simp: rep_def PHYS_LEVEL_LAYOUTS_def NR_LEVELS_def al_new_def less_Suc_eq numeral_3_eq_3)
qed

text \<open>A region that was built from a range of memory.\<close>

definition ar_built :: "frame_env \<Rightarrow> ('l \<Rightarrow> FrameRef list) \<Rightarrow> MemoryRegion \<Rightarrow> frames \<Rightarrow> 'l AllocationRegion \<Rightarrow> frames \<Rightarrow> nat \<Rightarrow> nat \<Rightarrow> bool" where
  "ar_built env its mr m r m' s e \<longleftrightarrow> (\<exists>fl. rinv env its s e fl (r, m') {} {}) \<and> unat (pa_raw (mr_start mr)) \<le> s * PAGE \<and> s < e \<and>
     e * PAGE \<le> unat (pa_raw (mr_start mr)) + mr_length mr \<and> e - s < ar_nr_pages r \<and> fm_mem m' = fm_mem m \<and>
     (\<forall>q. q \<notin> {s..<e} \<longrightarrow> fm_frames m' q = fm_frames m q)"

lemma ar_new_ok:
  assumes laws: "frame_list_laws ops its" and env: "env_ok env" and mr: "mr_ok env mr"
  shows "\<exists>x m'. ar_new env ops mr m = Some (x, m') \<and>
    (case x of None \<Rightarrow> m' = m | Some r \<Rightarrow> \<exists>s e. ar_built env its mr m r m' s e)"
proof -
  let ?a = "unat (pa_raw (mr_start mr))" and ?L = "mr_length mr" and ?fs = "fe_frame_size env"
  let ?up = "round_up PAGE ?a"
  define s0 where "s0 = ?up div PAGE"
  have up: "?up = s0 * PAGE" "?a \<le> ?up" using round_up_props(1,2) [of PAGE ?a] by (simp_all add: s0_def)
  have bits: "fe_bits env < 64" and fs: "0 < ?fs" "?fs \<le> PAGE" using env by (simp_all add: env_ok_def)
  have lim: "?a + ?L < 2 ^ fe_bits env" and gap: "?up \<le> ?a + ?L" using mr by (simp_all add: mr_ok_def)
  have b64: "(2 :: nat) ^ fe_bits env < 2 ^ 64" using bits by (intro power_strict_increasing) simp_all
  have start: "PhysAddr_align_up (fe_bits env) (mr_start mr) (of_nat PAGE) = Some (Inr (page_addr s0))"
    unfolding s0_def using lim gap by (intro align_up_page bits) simp
  have raw: "unat (pa_raw (page_addr s0)) = s0 * PAGE" using up gap lim b64 by (intro page_addr_raw) linarith
  obtain sk where sk: "checked_sub (pa_raw (page_addr s0)) (pa_raw (mr_start mr)) = Some sk" "unat sk = ?up - ?a"
    using raw up by (auto simp: checked_sub_def word_le_nat_alt unat_sub)
  define len where "len = ?L - (?up - ?a)"
  have sub: "usize_sub ?L (unat sk) = Some len" using gap up sk(2) by (simp add: usize_sub_def len_def)
  have len: "?up + len = ?a + ?L" using gap up by (simp add: len_def)
  let ?n = "len div PAGE"
  have n: "?n * PAGE \<le> len" by (simp add: div_times_less_eq_dividend)
  show ?thesis
  proof (cases "?n \<le> 1")
    case True
    then show ?thesis using start sk sub by (simp add: ar_new_def Let_def)
  next
    case False
    have "?fs * ?n \<le> PAGE * ?n" using fs(2) by (rule mult_le_mono1)
    also have "PAGE * ?n \<le> len" using n by (simp only: mult.commute)
    finally have "?fs * ?n < 2 ^ 64" using len lim b64 by linarith
    then have mul: "usize_mul ?fs ?n = Some (?fs * ?n)" by (simp only: usize_mul_def if_True)
    have nf: "?n \<le> ?fs * ?n" using fs(1) by simp
    then have sub1: "usize_sub (?fs * ?n) 1 = Some (?fs * ?n - 1)" using False by (simp add: usize_sub_def)
    define ap where "ap = (?fs * ?n - 1) div PAGE + 1"
    show ?thesis
    proof (cases "ap \<ge> ?n")
      case True
      then show ?thesis using False start sk sub mul sub1 by (simp add: ar_new_def Let_def ap_def)
    next
      case ap: False
      let ?s = "s0 + ap" and ?e = "s0 + ?n"
      let ?fi = "\<lparr>fi_start = page_addr ?s, fi_len = (?n - ap) * PAGE, fi_array_len = ?fs * ?n\<rparr>"
      have "?e * PAGE = ?up + ?n * PAGE" using up by (simp add: algebra_simps)
      then have e: "?e * PAGE \<le> ?a + ?L" using n len by linarith
      have "?n - ap \<le> ?fs * ?n" using nf by linarith
      then have fi: "fi_pages env ?fi ?s ?e"
        using bits e lim ap by (simp add: fi_pages_def)
      have fi0: "fi_pages env \<lparr>fi_start = page_addr s0, fi_len = ?n * PAGE, fi_array_len = ?n\<rparr> s0 ?e"
        using bits e lim by (simp add: fi_pages_def)
      have pv: "phys_to_virt (fe_off env) (page_addr s0) \<noteq> None" using env raw up gap lim by (simp add: env_ok_def)
      have first: "pa_plus env (page_addr s0) (ap * PAGE) = Some (page_addr ?s)"
        using child_addr_le [OF fi0, of s0 ap] ap by (simp add: mult.commute)
      have last: "pa_plus env (page_addr s0) (?n * PAGE) = Some (page_addr ?e)"
        using child_addr_le [OF fi0, of s0 ?n] by (simp add: mult.commute)
      obtain levels m' fl where b: "build_levels env ops ?fi (page_addr ?s) (page_addr ?e) (map (al_new ops) PHYS_LEVEL_LAYOUTS) m = Some (levels, m')"
        "rep its levels fl" "finv fl m' {?s..<?e} {} {}" "fm_mem m' = fm_mem m"
        "\<forall>q. q \<notin> {?s..<?e} \<longrightarrow> fm_frames m' q = fm_frames m q"
        using build_levels_ok [OF laws fi rep_new [OF laws], of m ?s] finv_empty ap by auto
      let ?r = "\<lparr>ar_indexer = ?fi, ar_nr_pages = ?n, ar_levels = levels\<rparr>"
      have "ar_new env ops mr m = Some (Some ?r, m')"
        using False ap start sk sub mul sub1 pv first last b(1) by (auto simp: ar_new_def Let_def ap_def)
      moreover have "rinv env its ?s ?e fl (?r, m') {} {}" using b fi by (simp add: rinv_def)
      moreover have "?a \<le> ?s * PAGE" using up by (simp add: algebra_simps)
      moreover have "?e - ?s < ar_nr_pages ?r" "?s < ?e" using ap by (simp_all add: ap_def)
      ultimately have "ar_built env its mr m ?r m' ?s ?e" using e b(4,5) by (simp only: ar_built_def) blast
      then show ?thesis using \<open>ar_new env ops mr m = Some (Some ?r, m')\<close> by auto
    qed
  qed
qed

end
