(* ===== verification/Frame_Allocator.thy ===== *)
theory Frame_Allocator
  imports Frame_Build
begin

text \<open>
  The physical frame allocator over all regions, as clients use it: they allocate frames, free the
  frames they hold and split them.
\<close>

section \<open>All regions\<close>

lemma finv_cong:
  assumes "finv fl m cov T H" and "\<And>k. k \<in> cov \<Longrightarrow> fm_frames m' k = fm_frames m k" and "\<And>a. a div PAGE \<in> cov \<Longrightarrow> fm_mem m' a = fm_mem m a"
  shows "finv fl m' cov T H"
proof -
  note D = finvD [OF assms(1)]
  let ?S = "all_free fl \<union> T \<union> H"
  have S: "k \<in> cov" if "k \<in> ?S" for k using tiles_sub [OF D(5) that] blk_self [of k m] by blast
  then have o: "fok m' k l a = fok m k l a" "lvl m' k = lvl m k" "fbit m' k j = fbit m k j" "blk m' k = blk m k" if "k \<in> ?S" for k l a j
    using that assms(2) by (simp_all add: fok_def lvl_def fbit_def blk_def)
  have "tiles m' ?S cov" using D(5) tiles_cong [of ?S m' m cov] o(2) by simp
  moreover have "zero_ok m' ?S"
    unfolding zero_ok_def
  proof (intro ballI impI allI)
    fix k a assume k: "k \<in> ?S" "fbit m' k 0" "a div PAGE \<in> blk m' k"
    then have "a div PAGE \<in> blk m k" "fbit m k 0" using o by simp_all
    then have "fm_mem m a = 0" "a div PAGE \<in> cov" using D(6) k(1) tiles_sub [OF D(5) k(1)] by (auto simp: zero_ok_def)
    then show "fm_mem m' a = 0" using assms(3) by simp
  qed
  moreover have "\<forall>i<NR_LEVELS. \<forall>z. distinct (fl i z) \<and> (\<forall>k\<in>set (fl i z). fok m' k True False \<and> lvl m' k = i \<and> fbit m' k 0 = z)"
    using D(1,2) o all_freeI [of _ _ fl] by (metis UnI1)
  moreover have "\<forall>k\<in>T. fok m' k False False" "\<forall>k\<in>H. fok m' k False True" using D(3,4) o by auto
  ultimately show ?thesis unfolding finv_def by blast
qed

text \<open>Every region satisfies its invariant with the part of the held frames that lies in it.\<close>

definition regs_inv :: "frame_env \<Rightarrow> ('l \<Rightarrow> FrameRef list) \<Rightarrow> 'l AllocationRegion list \<Rightarrow> frames \<Rightarrow> FrameRef set \<Rightarrow> (nat \<times> nat) list \<Rightarrow> bool" where
  "regs_inv env its rs m H rngs \<longleftrightarrow>
     list_all2 (\<lambda>r (s, e). s \<le> e \<and> (\<exists>fl. rinv env its s e fl (r, m) {} (H \<inter> {s..<e}))) rs rngs"

definition apart :: "(nat \<times> nat) list \<Rightarrow> bool" where
  "apart rngs \<longleftrightarrow> sorted_wrt (\<lambda>(s, e) (s', e'). {s..<e} \<inter> {s'..<e'} = {}) rngs"

definition pages_of :: "(nat \<times> nat) list \<Rightarrow> nat set" where
  "pages_of rngs = (\<Union>(s, e)\<in>set rngs. {s..<e})"

lemma regs_inv_Cons [simp]:
  "regs_inv env its (r # rs) m H ((s, e) # rngs) \<longleftrightarrow>
     s \<le> e \<and> (\<exists>fl. rinv env its s e fl (r, m) {} (H \<inter> {s..<e})) \<and> regs_inv env its rs m H rngs"
  "regs_inv env its [] m H rngs \<longleftrightarrow> rngs = []"
  by (auto simp: regs_inv_def)

lemma regs_inv_ConsE:
  assumes "regs_inv env its (r # rs) m H rngs"
  obtains s e rngs' fl where "rngs = (s, e) # rngs'" "s \<le> e" "rinv env its s e fl (r, m) {} (H \<inter> {s..<e})" "regs_inv env its rs m H rngs'"
  using assms by (auto simp: regs_inv_def list_all2_Cons1)

lemma apart_Cons: "apart ((s, e) # rngs) \<longleftrightarrow> {s..<e} \<inter> pages_of rngs = {} \<and> apart rngs"
proof -
  have "{s..<e} \<inter> pages_of rngs = {} \<longleftrightarrow> (\<forall>x\<in>set rngs. {s..<e} \<inter> {fst x..<snd x} = {})"
    unfolding pages_of_def split_beta by blast
  then show ?thesis unfolding apart_def by (simp add: split_beta)
qed

lemma pages_of_simps [simp]: "pages_of [] = {}" "pages_of ((s, e) # rngs) = {s..<e} \<union> pages_of rngs"
  by (auto simp: pages_of_def)

lemma regs_inv_cong:
  assumes "regs_inv env its rs m H rngs" and "\<And>k. k \<in> pages_of rngs \<Longrightarrow> fm_frames m' k = fm_frames m k"
    and "\<And>a. a div PAGE \<in> pages_of rngs \<Longrightarrow> fm_mem m' a = fm_mem m a" and "H' \<inter> pages_of rngs = H \<inter> pages_of rngs"
  shows "regs_inv env its rs m' H' rngs"
  using assms
proof (induction rs arbitrary: rngs)
  case Nil
  then show ?case by simp
next
  case (Cons r rs)
  from Cons.prems(1) obtain s e rngs' fl where rn: "rngs = (s, e) # rngs'" "s \<le> e" "rinv env its s e fl (r, m) {} (H \<inter> {s..<e})"
    "regs_inv env its rs m H rngs'" by (rule regs_inv_ConsE)
  have "H' \<inter> {s..<e} = H \<inter> {s..<e}" using Cons.prems(4) rn(1) by auto
  moreover have "finv fl m {s..<e} {} (H \<inter> {s..<e})" using rn(3) by (simp add: rinv_def)
  then have "finv fl m' {s..<e} {} (H \<inter> {s..<e})"
    by (rule finv_cong) (simp_all add: Cons.prems(2,3) rn(1) del: atLeastLessThan_iff)
  ultimately have "rinv env its s e fl (r, m') {} (H' \<inter> {s..<e})" using rn(3) by (simp add: rinv_def)
  moreover have "regs_inv env its rs m' H' rngs'"
  proof (rule Cons.IH [OF rn(4)])
    show "H' \<inter> pages_of rngs' = H \<inter> pages_of rngs'" using Cons.prems(4) rn(1) by auto
  qed (simp_all add: Cons.prems(2,3) rn(1))
  ultimately show ?case unfolding rn(1) regs_inv_Cons using rn(2) by blast
qed

section \<open>Allocation\<close>

text \<open>No frame of level \<open>i\<close> or larger that may be used is free in the region.\<close>

fun exhausted :: "('l \<Rightarrow> FrameRef list) \<Rightarrow> bool \<Rightarrow> bool \<Rightarrow> nat \<Rightarrow> 'l AllocationRegion list \<Rightarrow> bool" where
  "exhausted its tz oz i [] \<longleftrightarrow> True"
| "exhausted its tz oz i (r # rs) \<longleftrightarrow> (\<forall>j\<in>{i..<NR_LEVELS}.
     (if oz then its (al_zeroed (ar_levels r ! j)) = [] else its (al_non_zeroed (ar_levels r ! j)) = []) \<and>
     (tz \<longrightarrow> its (al_zeroed (ar_levels r ! j)) = [])) \<and> exhausted its tz oz i rs"

text \<open>The level that serves a layout.\<close>

definition layout_level :: "Layout \<Rightarrow> nat option" where
  "layout_level layout = List.find (\<lambda>i. fst layout \<le> PAGE * 512 ^ i \<and> snd layout \<le> PAGE * 512 ^ i) [0..<NR_LEVELS]"

lemma find_level_eq:
  assumes "rep its (ar_levels r) fl"
  shows "find_level layout r = layout_level layout"
proof -
  have "length (ar_levels r) = NR_LEVELS" using assms by (simp add: rep_def)
  then show ?thesis
    unfolding find_level_def position_def layout_level_def using assms
    by (intro find_cong) (auto simp: rep_def)
qed

lemma alloc_in_ok:
  assumes laws: "frame_list_laws ops its" and lev: "layout_level layout = Some i"
  shows "regs_inv env its rs m H rngs \<Longrightarrow> apart rngs \<Longrightarrow>
    \<exists>x rs' m'. alloc_in env ops tz oz layout rs m = Some (x, rs', m') \<and> (case x of
      None \<Rightarrow> rs' = rs \<and> m' = m \<and> exhausted its tz oz i rs
    | Some n \<Rightarrow> regs_inv env its rs' m' (insert n H) rngs \<and> n \<notin> H \<and> n \<in> pages_of rngs \<and> lvl m' n = i \<and> (oz \<longrightarrow> fbit m' n 0) \<and>
        fm_mem m' = fm_mem m \<and> (\<forall>k. k \<notin> pages_of rngs - H \<longrightarrow> fm_frames m' k = fm_frames m k))"
proof (induction rs arbitrary: rngs)
  case Nil
  then show ?case by simp
next
  case (Cons r rs)
  from Cons.prems(1) obtain s e rngs' fl where rn: "rngs = (s, e) # rngs'" "s \<le> e" "rinv env its s e fl (r, m) {} (H \<inter> {s..<e})"
    "regs_inv env its rs m H rngs'" by (rule regs_inv_ConsE)
  have ap: "{s..<e} \<inter> pages_of rngs' = {}" "apart rngs'" using Cons.prems(2) rn(1) by (simp_all add: apart_Cons)
  have rep: "rep its (ar_levels r) fl" using rn(3) by (simp add: rinv_def)
  note fle = find_level_eq [OF rep, of layout, unfolded lev]
  obtain x r' m' where a: "ar_allocate env ops tz oz layout (r, m) = Some (x, r', m')" and x: "case x of
      None \<Rightarrow> (r', m') = (r, m) \<and> (\<forall>i. find_level layout r = Some i \<longrightarrow>
        (\<forall>j. i \<le> j \<and> j < NR_LEVELS \<longrightarrow> fl j oz = [] \<and> (tz \<longrightarrow> fl j True = [])))
    | Some n \<Rightarrow> (\<exists>fl'. rinv env its s e fl' (r', m') {} (insert n (H \<inter> {s..<e}))) \<and> n \<notin> H \<inter> {s..<e} \<and> find_level layout r = Some (lvl m' n) \<and>
        (oz \<longrightarrow> fbit m' n 0) \<and> keeps ({s..<e} - H \<inter> {s..<e}) (r, m) (r', m')"
    using ar_allocate_ok [OF laws rn(3)] by blast
  show ?case
  proof (cases x)
    case None
    then have rm: "r' = r" "m' = m" and none: "\<forall>j. i \<le> j \<and> j < NR_LEVELS \<longrightarrow> fl j oz = [] \<and> (tz \<longrightarrow> fl j True = [])"
      using x fle by simp_all
    have ex: "exhausted its tz oz i (r # rs) \<longleftrightarrow> exhausted its tz oz i rs"
      using none rep by (cases oz) (auto simp: rep_def)
    obtain y rs' m2 where IH: "alloc_in env ops tz oz layout rs m = Some (y, rs', m2)" "case y of
      None \<Rightarrow> rs' = rs \<and> m2 = m \<and> exhausted its tz oz i rs
    | Some n \<Rightarrow> regs_inv env its rs' m2 (insert n H) rngs' \<and> n \<notin> H \<and> n \<in> pages_of rngs' \<and> lvl m2 n = i \<and> (oz \<longrightarrow> fbit m2 n 0) \<and>
        fm_mem m2 = fm_mem m \<and> (\<forall>k. k \<notin> pages_of rngs' - H \<longrightarrow> fm_frames m2 k = fm_frames m k)"
      using Cons.IH [OF rn(4) ap(2)] by blast
    show ?thesis
    proof (cases y)
      case y: None
      then show ?thesis using IH None a rm ex by simp
    next
      case (Some n)
      then have n: "regs_inv env its rs' m2 (insert n H) rngs'" "n \<notin> H" "n \<in> pages_of rngs'" "lvl m2 n = i" "oz \<longrightarrow> fbit m2 n 0"
        "fm_mem m2 = fm_mem m" "\<forall>k. k \<notin> pages_of rngs' - H \<longrightarrow> fm_frames m2 k = fm_frames m k" using IH(2) by simp_all
      have "regs_inv env its [r] m H [(s, e)]" using rn by auto
      then have "regs_inv env its [r] m2 (insert n H) [(s, e)]"
        by (rule regs_inv_cong) (use n(3,6,7) ap(1) in auto)
      then have "regs_inv env its (r # rs') m2 (insert n H) rngs" using n(1) rn(1) by simp
      then show ?thesis using IH(1) None a rm Some n rn(1) by auto
    qed
  next
    case (Some n)
    then obtain fl' where n: "rinv env its s e fl' (r', m') {} (insert n (H \<inter> {s..<e}))" "n \<notin> H \<inter> {s..<e}" "lvl m' n = i"
      "oz \<longrightarrow> fbit m' n 0" "keeps ({s..<e} - H \<inter> {s..<e}) (r, m) (r', m')" using x fle by auto
    have nr: "n \<in> {s..<e}" using ar_contains_frame(2,3) [OF n(1), of n] by simp
    have k: "fm_mem m' = fm_mem m" "\<forall>k. k \<notin> {s..<e} - H \<longrightarrow> fm_frames m' k = fm_frames m k"
      using n(5) by (auto simp: keeps_def)
    have "regs_inv env its rs m' (insert n H) rngs'"
    proof (rule regs_inv_cong [OF rn(4)])
      fix q assume "q \<in> pages_of rngs'"
      then have "q \<notin> {s..<e}" using ap(1) by blast
      then show "fm_frames m' q = fm_frames m q" using k(2) by blast
    qed (use k(1) nr ap(1) in auto)
    moreover have "insert n H \<inter> {s..<e} = insert n (H \<inter> {s..<e})" using nr by auto
    ultimately have "regs_inv env its (r' # rs) m' (insert n H) rngs" using n(1) rn(1,2) by auto
    then show ?thesis using Some a n k nr rn(1) by auto
  qed
qed


lemma alloc_in_none:
  assumes "layout_level layout = None" and "regs_inv env its rs m H rngs"
  shows "alloc_in env ops tz oz layout rs m = Some (None, rs, m)"
  using assms(2)
proof (induction rs arbitrary: rngs)
  case (Cons r rs)
  from Cons.prems(1) obtain s e rngs' fl where rn: "rinv env its s e fl (r, m) {} (H \<inter> {s..<e})"
    "regs_inv env its rs m H rngs'" by (rule regs_inv_ConsE)
  then have "find_level layout r = None" using find_level_eq [of its r fl layout] assms(1) by (simp add: rinv_def)
  then show ?case using Cons.IH [OF rn(2)] by (simp add: ar_allocate_def)
qed simp

section \<open>Held frames\<close>

lemma regs_region:
  assumes "regs_inv env its rs m H rngs" and "n \<in> pages_of rngs"
  obtains r s e fl where "n \<in> {s..<e}" "{s..<e} \<subseteq> pages_of rngs" "rinv env its s e fl (r, m) {} (H \<inter> {s..<e})"
proof -
  from assms(2) obtain s e where se: "(s, e) \<in> set rngs" "n \<in> {s..<e}" by (auto simp: pages_of_def)
  then obtain i where i: "i < length rngs" "rngs ! i = (s, e)" by (auto simp: in_set_conv_nth)
  have "\<exists>fl. rinv env its s e fl (rs ! i, m) {} (H \<inter> {s..<e})"
    using list_all2_nthD2 [OF assms(1) [unfolded regs_inv_def] i(1)] i(2) by simp
  moreover have "{s..<e} \<subseteq> pages_of rngs" unfolding pages_of_def using se(1) by blast
  ultimately show ?thesis using that se(2) by blast
qed

lemma regs_held:
  assumes "regs_inv env its rs m H rngs" and "n \<in> H" and "n \<in> pages_of rngs"
  shows "fok m n False True" "n * PAGE < 2 ^ fe_bits env" "fe_bits env < 64" "blk m n \<subseteq> pages_of rngs"
proof -
  from assms(1,3) obtain r s e fl where r: "n \<in> {s..<e}" "{s..<e} \<subseteq> pages_of rngs" "rinv env its s e fl (r, m) {} (H \<inter> {s..<e})"
    by (rule regs_region)
  have f: "finv fl m {s..<e} {} (H \<inter> {s..<e})" "fi_pages env (ar_indexer r) s e" using r(3) by (simp_all add: rinv_def)
  have nH: "n \<in> H \<inter> {s..<e}" using assms(2) r(1) by simp
  have "n * PAGE \<le> e * PAGE" using r(1) by simp
  also have "e * PAGE < 2 ^ fe_bits env" using f(2) by (simp add: fi_pages_def)
  finally show "n * PAGE < 2 ^ fe_bits env" .
  show "fe_bits env < 64" using f(2) by (simp add: fi_pages_def)
  show "fok m n False True" by (rule finvD(4) [OF f(1) nH])
  show "blk m n \<subseteq> pages_of rngs" using tiles_sub [OF finvD(5) [OF f(1)], of n] nH r(2) by blast
qed

lemma regs_inv_local:
  assumes "regs_inv env its rs m H rngs" and "apart rngs" and "n \<in> pages_of rngs"
    and step: "\<And>fl s e. n \<in> {s..<e} \<Longrightarrow> finv fl m {s..<e} {} (H \<inter> {s..<e}) \<Longrightarrow>
      finv fl m' {s..<e} {} (H' \<inter> {s..<e}) \<and> (\<forall>k. k \<notin> {s..<e} \<longrightarrow> fm_frames m' k = fm_frames m k) \<and>
      (\<forall>a. a div PAGE \<notin> {s..<e} \<longrightarrow> fm_mem m' a = fm_mem m a) \<and> H' - {s..<e} = H - {s..<e}"
  shows "regs_inv env its rs m' H' rngs"
  using assms(1-3)
proof (induction rs arbitrary: rngs)
  case (Cons r rs)
  from Cons.prems(1) obtain s e rngs' fl where rn: "rngs = (s, e) # rngs'" "s \<le> e" "rinv env its s e fl (r, m) {} (H \<inter> {s..<e})"
    "regs_inv env its rs m H rngs'" by (rule regs_inv_ConsE)
  have ap: "{s..<e} \<inter> pages_of rngs' = {}" "apart rngs'" using Cons.prems(2) rn(1) by (simp_all add: apart_Cons)
  show ?case
  proof (cases "n \<in> {s..<e}")
    case True
    have st: "finv fl m' {s..<e} {} (H' \<inter> {s..<e})" "\<forall>k. k \<notin> {s..<e} \<longrightarrow> fm_frames m' k = fm_frames m k"
      "\<forall>a. a div PAGE \<notin> {s..<e} \<longrightarrow> fm_mem m' a = fm_mem m a" "H' - {s..<e} = H - {s..<e}"
      using step [OF True, of fl] rn(3) by (simp_all add: rinv_def)
    have "regs_inv env its rs m' H' rngs'"
    proof (rule regs_inv_cong [OF rn(4)])
      show "H' \<inter> pages_of rngs' = H \<inter> pages_of rngs'" using st(4) ap(1) by blast
      fix k assume "k \<in> pages_of rngs'"
      then have "k \<notin> {s..<e}" using ap(1) by blast
      then show "fm_frames m' k = fm_frames m k" using st(2) by blast
    next
      fix a assume "a div PAGE \<in> pages_of rngs'"
      then have "a div PAGE \<notin> {s..<e}" using ap(1) by blast
      then show "fm_mem m' a = fm_mem m a" using st(3) by blast
    qed
    moreover have "rinv env its s e fl (r, m') {} (H' \<inter> {s..<e})" using rn(3) st(1) by (simp add: rinv_def)
    ultimately show ?thesis unfolding rn(1) regs_inv_Cons using rn(2) by blast
  next
    case False
    then have n: "n \<in> pages_of rngs'" using Cons.prems(3) unfolding rn(1) pages_of_simps by blast
    from rn(4) n obtain r' s' e' fl' where o: "n \<in> {s'..<e'}" "{s'..<e'} \<subseteq> pages_of rngs'"
      "rinv env its s' e' fl' (r', m) {} (H \<inter> {s'..<e'})" by (rule regs_region)
    then have "finv fl' m {s'..<e'} {} (H \<inter> {s'..<e'})" by (simp add: rinv_def)
    note st = step [OF o(1) this]
    have "regs_inv env its [r] m H [(s, e)]" using rn by auto
    then have "regs_inv env its [r] m' H' [(s, e)]"
    proof (rule regs_inv_cong)
      have d: "p \<notin> {s'..<e'}" if "p \<in> pages_of [(s, e)]" for p using that ap(1) o(2) unfolding pages_of_simps by blast
      show "fm_frames m' k = fm_frames m k" if "k \<in> pages_of [(s, e)]" for k using st d [OF that] by blast
      show "fm_mem m' a = fm_mem m a" if "a div PAGE \<in> pages_of [(s, e)]" for a using st d [OF that] by blast
      have "H' - {s'..<e'} = H - {s'..<e'}" using st by blast
      then show "H' \<inter> pages_of [(s, e)] = H \<inter> pages_of [(s, e)]" using d by blast
    qed
    then show ?thesis using Cons.IH [OF rn(4) ap(2) n] rn(1) by simp
  qed
qed simp

end
