(* ===== verification/Frame_Client.thy ===== *)
theory Frame_Client
  imports Frame_Allocator
begin

text \<open>
  The clients of the frame allocator: what allocating, zeroing, freeing and splitting do to the
  frames they hold, and every sequence of such requests from boot on.
\<close>

section \<open>Flags of a held frame\<close>

lemma fr_flags_upd [simp]:
  "fr_size (f\<lparr>fr_flags := x\<rparr>) = fr_size f" "fr_addr (f\<lparr>fr_flags := x\<rparr>) = fr_addr f"
  by (simp_all add: fr_size_def fr_addr_def fr_get_level_def)

lemma fr_zero_ok:
  assumes reg: "regs_inv env its rs m H rngs" "apart rngs" and n: "n \<in> H" "n \<in> pages_of rngs" and env: "env_ok env"
  shows "\<exists>m'. fr_zero env n m = Some m' \<and> regs_inv env its rs m' H rngs \<and> fbit m' n 0 \<and> lvl m' n = lvl m n \<and>
    (\<forall>a. fm_mem m' a = (if a div PAGE \<in> blk m n then 0 else fm_mem m a)) \<and> (\<forall>k. k \<noteq> n \<longrightarrow> fm_frames m' k = fm_frames m k)"
proof -
  note held = regs_held [OF reg(1) n]
  let ?f = "fm_frames m n"
  let ?g = "?f\<lparr>fr_flags := (fr_flags ?f OR PF_LOCKED OR PF_ZEROED) AND NOT PF_LOCKED\<rparr>"
  let ?m1 = "m\<lparr>fm_mem := mem_fill (n * PAGE) (512 ^ lvl m n * PAGE) (fm_mem m)\<rparr>"
  have lt: "n * PAGE < 2 ^ 64" using held(2,3) power_strict_increasing [of "fe_bits env" 64 "2 :: nat"] by linarith
  have ok: "fr_pa ?f = page_addr n" "\<not> bit (fr_flags ?f) 7" "lvl m n < NR_LEVELS" using held(1) by (simp_all add: fok_def fbit_def)
  have a: "fr_addr ?f = n * PAGE" using ok(1) page_addr_raw [OF lt] by (simp add: fr_addr_def)
  obtain v where v: "phys_to_virt (fe_off env) (page_addr n) = Some v"
    using env held(2) unfolding env_ok_def page_addr_raw [OF lt, symmetric] by blast
  have z: "fr_zero env n m = Some (set_frame n ?g ?m1)"
    using ok(1,2) v a fr_size_lvl [OF ok(3)] by (simp add: fr_zero_def fr_lock_def flag_test fr_unlock_def or.assoc mult.commute)
  have lv: "lvl ?m1 k = lvl m k" "blk ?m1 k = blk m k" for k by (simp_all add: lvl_def blk_def)
  have gl: "fr_get_level ?g = lvl m n" by (simp add: lvl_def fr_get_level_def)
  have gok: "fok (set_frame n ?g ?m1) n False True" using held(1) by (simp add: fok_def lvl_def fr_get_level_def fbit_def bit_ops)
  have fill: "mem_fill (n * PAGE) (512 ^ lvl m n * PAGE) (fm_mem m) x = (if x div PAGE \<in> blk m n then 0 else fm_mem m x)" for x
  proof -
    have "n * PAGE \<le> x \<and> x < n * PAGE + 512 ^ lvl m n * PAGE \<longleftrightarrow> x div PAGE \<in> blk m n"
      by (simp add: blk_def less_eq_div_iff_mult_less_eq div_less_iff_less_mult distrib_right)
    then show ?thesis by (simp add: mem_fill_def)
  qed
  have "regs_inv env its rs (set_frame n ?g ?m1) H rngs"
  proof (rule regs_inv_local [OF reg n(2)])
    fix fl s e assume i: "n \<in> {s..<e}" "finv fl m {s..<e} {} (H \<inter> {s..<e})"
    have nH: "n \<in> {} \<union> H \<inter> {s..<e}" using i(1) n(1) by simp
    have sub: "blk m n \<subseteq> {s..<e}" using tiles_sub [OF finvD(5) [OF i(2)], of n] nH by blast
    have f1: "finv fl ?m1 {s..<e} {} (H \<inter> {s..<e})" by (rule finv_fill(1) [OF i(2) nH])
    have "fbit ?m1 n 1" using held(1) by (simp add: fok_def fbit_def)
    then have "finv fl (set_frame n ?g ?m1) {s..<e} {} (H \<inter> {s..<e})"
      using gok gl lv fill by (intro finv_mark_zero [OF f1 nH]) simp_all
    moreover have "k \<noteq> n" if "k \<notin> {s..<e}" for k using that i(1) by blast
    moreover have "x div PAGE \<notin> blk m n" if "x div PAGE \<notin> {s..<e}" for x using that sub by blast
    ultimately show "finv fl (set_frame n ?g ?m1) {s..<e} {} (H \<inter> {s..<e}) \<and>
        (\<forall>k. k \<notin> {s..<e} \<longrightarrow> fm_frames (set_frame n ?g ?m1) k = fm_frames m k) \<and>
        (\<forall>x. x div PAGE \<notin> {s..<e} \<longrightarrow> fm_mem (set_frame n ?g ?m1) x = fm_mem m x) \<and> H - {s..<e} = H - {s..<e}"
      using fill by simp
  qed
  moreover have "fbit (set_frame n ?g ?m1) n 0" by (simp add: bit_ops)
  ultimately show ?thesis using z fill gl by (intro exI [of _ "set_frame n ?g ?m1"]) simp
qed

lemma fr_set_not_zero_ok:
  assumes reg: "regs_inv env its rs m H rngs" "apart rngs" and n: "n \<in> H" "n \<in> pages_of rngs"
  shows "\<exists>f. fr_set_not_zero (fm_frames m n) = Some f \<and> regs_inv env its rs (set_frame n f m) H rngs \<and> fr_get_level f = lvl m n \<and>
    \<not> bit (fr_flags f) 0 \<and> fr_contains f PF_ADMITTED \<and> fr_contains f PF_ALLOCATED"
proof -
  note held = regs_held [OF reg(1) n]
  let ?f = "fm_frames m n"
  let ?g = "?f\<lparr>fr_flags := ((fr_flags ?f OR PF_LOCKED) AND NOT PF_ZEROED) AND NOT PF_LOCKED\<rparr>"
  have z: "fr_set_not_zero ?f = Some ?g"
    using held(1) by (simp add: fr_set_not_zero_def fr_lock_def flag_test fr_unlock_def fok_def fbit_def)
  have gl: "fr_get_level ?g = lvl m n" by (simp add: lvl_def fr_get_level_def)
  have gok: "fok (set_frame n ?g m) n False True" using held(1) by (simp add: fok_def lvl_def fr_get_level_def fbit_def bit_ops)
  have "regs_inv env its rs (set_frame n ?g m) H rngs"
  proof (rule regs_inv_local [OF reg n(2)])
    fix fl s e assume i: "n \<in> {s..<e}" "finv fl m {s..<e} {} (H \<inter> {s..<e})"
    have nH: "n \<in> {} \<union> H \<inter> {s..<e}" "insert n (H \<inter> {s..<e}) = H \<inter> {s..<e}" using i(1) n(1) by auto
    then have "finv fl (set_frame n ?g m) {s..<e} {} (H \<inter> {s..<e})"
      using finv_retag [OF i(2) nH(1) gok gl] by (simp add: bit_ops)
    moreover have "k \<noteq> n" if "k \<notin> {s..<e}" for k using that i(1) by blast
    ultimately show "finv fl (set_frame n ?g m) {s..<e} {} (H \<inter> {s..<e}) \<and>
        (\<forall>k. k \<notin> {s..<e} \<longrightarrow> fm_frames (set_frame n ?g m) k = fm_frames m k) \<and>
        (\<forall>x. x div PAGE \<notin> {s..<e} \<longrightarrow> fm_mem (set_frame n ?g m) x = fm_mem m x) \<and> H - {s..<e} = H - {s..<e}"
      by simp
  qed
  moreover have "fr_contains ?g PF_ADMITTED" "fr_contains ?g PF_ALLOCATED" using held(1) by (simp_all add: fok_def fbit_def bit_ops)
  ultimately show ?thesis using z gl by (intro exI [of _ ?g]) (simp add: bit_ops)
qed

section \<open>Requests\<close>

definition pinv :: "frame_env \<Rightarrow> ('l \<Rightarrow> FrameRef list) \<Rightarrow> (nat \<times> nat) list \<Rightarrow> 'l pfa \<Rightarrow> FrameRef set \<Rightarrow> bool" where
  "pinv env its rngs = (\<lambda>(a, m) H. regs_inv env its (pfa_regions a) m H rngs \<and> apart rngs \<and> H \<subseteq> pages_of rngs \<and> (\<forall>n\<in>H. \<not> fbit m n 0))"

lemma pfa_do_alloc_ok:
  assumes laws: "frame_list_laws ops its" and reg: "regs_inv env its (pfa_regions a) m H rngs" "apart rngs"
  shows "\<exists>x rs' m'. pfa_do_alloc env ops flags layout (a, m) = Some (x, a\<lparr>pfa_regions := rs'\<rparr>, m') \<and> (case x of
      None \<Rightarrow> rs' = pfa_regions a \<and> m' = m \<and> (\<forall>i. layout_level layout = Some i \<longrightarrow> exhausted its True False i (pfa_regions a))
    | Some n \<Rightarrow> regs_inv env its rs' m' (insert n H) rngs \<and> n \<notin> H \<and> n \<in> pages_of rngs \<and> layout_level layout = Some (lvl m' n) \<and>
        fm_mem m' = fm_mem m \<and> (\<forall>k. k \<notin> pages_of rngs - H \<longrightarrow> fm_frames m' k = fm_frames m k))"
proof (cases "layout_level layout")
  case None
  then show ?thesis using alloc_in_none [OF None reg(1)] by (simp add: pfa_do_alloc_def)
next
  case (Some i)
  let ?z = "flags AND PF_ZEROED = PF_ZEROED"
  note A = alloc_in_ok [OF laws Some reg, unfolded ex_simps]
  obtain x rs' m' where x: "alloc_in env ops False ?z layout (pfa_regions a) m = Some (x, rs', m')" "case x of
      None \<Rightarrow> rs' = pfa_regions a \<and> m' = m \<and> exhausted its False ?z i (pfa_regions a)
    | Some n \<Rightarrow> regs_inv env its rs' m' (insert n H) rngs \<and> n \<notin> H \<and> n \<in> pages_of rngs \<and> lvl m' n = i \<and> (?z \<longrightarrow> fbit m' n 0) \<and>
        fm_mem m' = fm_mem m \<and> (\<forall>k. k \<notin> pages_of rngs - H \<longrightarrow> fm_frames m' k = fm_frames m k)"
    using A [of False ?z] by blast
  obtain y rs2 m2 where y: "alloc_in env ops True False layout (pfa_regions a) m = Some (y, rs2, m2)" "case y of
      None \<Rightarrow> rs2 = pfa_regions a \<and> m2 = m \<and> exhausted its True False i (pfa_regions a)
    | Some n \<Rightarrow> regs_inv env its rs2 m2 (insert n H) rngs \<and> n \<notin> H \<and> n \<in> pages_of rngs \<and> lvl m2 n = i \<and> (False \<longrightarrow> fbit m2 n 0) \<and>
        fm_mem m2 = fm_mem m \<and> (\<forall>k. k \<notin> pages_of rngs - H \<longrightarrow> fm_frames m2 k = fm_frames m k)"
    using A [of True False] by blast
  show ?thesis
  proof (cases x)
    case None
    then have "pfa_do_alloc env ops flags layout (a, m) = Some (y, a\<lparr>pfa_regions := rs2\<rparr>, m2)" using x y(1) by (simp add: pfa_do_alloc_def)
    then show ?thesis using y(2) Some by (intro exI [of _ y] exI [of _ rs2] exI [of _ m2]) (cases y, simp_all)
  next
    case (Some n)
    then have "pfa_do_alloc env ops flags layout (a, m) = Some (x, a\<lparr>pfa_regions := rs'\<rparr>, m')" using x(1) by (simp add: pfa_do_alloc_def)
    then show ?thesis using x(2) Some \<open>layout_level layout = Some i\<close> by (intro exI [of _ x] exI [of _ rs'] exI [of _ m']) simp
  qed
qed

text \<open>What a successful allocation gives: a new frame of the level of the layout, filled with zeros when asked for.\<close>

definition allocated :: "frame_env \<Rightarrow> ('l \<Rightarrow> FrameRef list) \<Rightarrow> (nat \<times> nat) list \<Rightarrow> FrameRef set \<Rightarrow> bool \<Rightarrow> Layout \<Rightarrow> frames \<Rightarrow> FrameRef \<Rightarrow> 'l pfa \<Rightarrow> bool" where
  "allocated env its rngs H zero layout m n = (\<lambda>(a, m'). pinv env its rngs (a, m') (insert n H) \<and> n \<notin> H \<and> layout_level layout = Some (lvl m' n) \<and>
     (\<forall>x. x div PAGE \<notin> blk m' n \<longrightarrow> fm_mem m' x = fm_mem m x) \<and> (zero \<longrightarrow> (\<forall>x. x div PAGE \<in> blk m' n \<longrightarrow> fm_mem m' x = 0)) \<and>
     (\<forall>k\<in>H. fm_frames m' k = fm_frames m k))"

lemma pfa_alloc_ok:
  assumes laws: "frame_list_laws ops its" and env: "env_ok env" and reg: "regs_inv env its (pfa_regions a) m H rngs" "apart rngs"
  shows "\<exists>x rs' m'. pfa_alloc env ops flags layout (a, m) = Some (x, a\<lparr>pfa_regions := rs'\<rparr>, m') \<and> (case x of
      None \<Rightarrow> rs' = pfa_regions a \<and> m' = m \<and> (\<forall>i. layout_level layout = Some i \<longrightarrow> exhausted its True False i (pfa_regions a))
    | Some n \<Rightarrow> regs_inv env its rs' m' (insert n H) rngs \<and> n \<notin> H \<and> n \<in> pages_of rngs \<and> layout_level layout = Some (lvl m' n) \<and>
        (\<forall>x. x div PAGE \<notin> blk m' n \<longrightarrow> fm_mem m' x = fm_mem m x) \<and> (bit flags 0 \<longrightarrow> fbit m' n 0) \<and>
        (\<forall>k. k \<notin> pages_of rngs - H \<longrightarrow> fm_frames m' k = fm_frames m k))"
proof -
  obtain x rs' m' where x: "pfa_do_alloc env ops flags layout (a, m) = Some (x, a\<lparr>pfa_regions := rs'\<rparr>, m')" "case x of
      None \<Rightarrow> rs' = pfa_regions a \<and> m' = m \<and> (\<forall>i. layout_level layout = Some i \<longrightarrow> exhausted its True False i (pfa_regions a))
    | Some n \<Rightarrow> regs_inv env its rs' m' (insert n H) rngs \<and> n \<notin> H \<and> n \<in> pages_of rngs \<and> layout_level layout = Some (lvl m' n) \<and>
        fm_mem m' = fm_mem m \<and> (\<forall>k. k \<notin> pages_of rngs - H \<longrightarrow> fm_frames m' k = fm_frames m k)"
    using pfa_do_alloc_ok [OF laws reg] by blast
  show ?thesis
  proof (cases "\<exists>n. x = Some n \<and> bit flags 0 \<and> \<not> fbit m' n 0")
    case False
    then show ?thesis using x by (cases x) (auto simp: pfa_alloc_def flag_test fbit_def)
  next
    case True
    then obtain n where n: "x = Some n" "bit flags 0" "\<not> fbit m' n 0" by blast
    then have p: "regs_inv env its rs' m' (insert n H) rngs" "n \<notin> H" "n \<in> pages_of rngs" "layout_level layout = Some (lvl m' n)"
      "fm_mem m' = fm_mem m" "\<forall>k. k \<notin> pages_of rngs - H \<longrightarrow> fm_frames m' k = fm_frames m k" using x(2) by simp_all
    obtain m2 where z: "fr_zero env n m' = Some m2" "regs_inv env its rs' m2 (insert n H) rngs" "fbit m2 n 0" "lvl m2 n = lvl m' n"
      "\<forall>a. fm_mem m2 a = (if a div PAGE \<in> blk m' n then 0 else fm_mem m' a)" "\<forall>k. k \<noteq> n \<longrightarrow> fm_frames m2 k = fm_frames m' k"
      using fr_zero_ok [OF p(1) reg(2) _ p(3) env] by auto
    have "blk m2 n = blk m' n" using z(4) by (simp add: blk_def)
    moreover have "fm_frames m2 k = fm_frames m k" if "k \<notin> pages_of rngs - H" for k
    proof -
      have "k \<noteq> n" using that p(2,3) by blast
      then show ?thesis using z(6) p(6) that by simp
    qed
    moreover have "pfa_alloc env ops flags layout (a, m) = Some (Some n, a\<lparr>pfa_regions := rs'\<rparr>, m2)"
      using x(1) n z(1) by (simp add: pfa_alloc_def flag_test fbit_def)
    ultimately show ?thesis using p z by (intro exI [of _ "Some n"] exI [of _ rs'] exI [of _ m2]) simp
  qed
qed

lemma regs_zero:
  assumes "regs_inv env its rs m H rngs" and "n \<in> H" "n \<in> pages_of rngs" and "fbit m n 0" "x div PAGE \<in> blk m n"
  shows "fm_mem m x = 0"
proof -
  from assms(1,3) obtain r s e fl where r: "n \<in> {s..<e}" "{s..<e} \<subseteq> pages_of rngs" "rinv env its s e fl (r, m) {} (H \<inter> {s..<e})"
    by (rule regs_region)
  then have "finv fl m {s..<e} {} (H \<inter> {s..<e})" by (simp add: rinv_def)
  then have "zero_ok m (all_free fl \<union> {} \<union> H \<inter> {s..<e})" by (rule finvD(6))
  then show ?thesis using assms(2,4,5) r(1) unfolding zero_ok_def by blast
qed

lemma raw_alloc_frame_ok:
  assumes laws: "frame_list_laws ops its" and env: "env_ok env" and inv: "pinv env its rngs (a, m) H"
  shows "\<exists>x s'. raw_alloc_frame env ops flags layout (a, m) = Some (x, s') \<and> (case x of
      None \<Rightarrow> s' = (a, m) \<and> (\<forall>i. layout_level layout = Some i \<longrightarrow> exhausted its True False i (pfa_regions a))
    | Some n \<Rightarrow> allocated env its rngs H (bit flags 0) layout m n s')"
proof -
  have reg: "regs_inv env its (pfa_regions a) m H rngs" "apart rngs" and H: "H \<subseteq> pages_of rngs" "\<forall>n\<in>H. \<not> fbit m n 0"
    using inv by (simp_all add: pinv_def)
  obtain x rs' m' where x: "pfa_alloc env ops flags layout (a, m) = Some (x, a\<lparr>pfa_regions := rs'\<rparr>, m')" "case x of
      None \<Rightarrow> rs' = pfa_regions a \<and> m' = m \<and> (\<forall>i. layout_level layout = Some i \<longrightarrow> exhausted its True False i (pfa_regions a))
    | Some n \<Rightarrow> regs_inv env its rs' m' (insert n H) rngs \<and> n \<notin> H \<and> n \<in> pages_of rngs \<and> layout_level layout = Some (lvl m' n) \<and>
        (\<forall>x. x div PAGE \<notin> blk m' n \<longrightarrow> fm_mem m' x = fm_mem m x) \<and> (bit flags 0 \<longrightarrow> fbit m' n 0) \<and>
        (\<forall>k. k \<notin> pages_of rngs - H \<longrightarrow> fm_frames m' k = fm_frames m k)"
    using pfa_alloc_ok [OF laws env reg] by blast
  show ?thesis
  proof (cases x)
    case None
    then show ?thesis using x by (simp add: raw_alloc_frame_def)
  next
    case (Some n)
    then have p: "regs_inv env its rs' m' (insert n H) rngs" "n \<notin> H" "n \<in> pages_of rngs" "layout_level layout = Some (lvl m' n)"
      "\<forall>x. x div PAGE \<notin> blk m' n \<longrightarrow> fm_mem m' x = fm_mem m x" "bit flags 0 \<longrightarrow> fbit m' n 0"
      "\<forall>k. k \<notin> pages_of rngs - H \<longrightarrow> fm_frames m' k = fm_frames m k" using x(2) by simp_all
    obtain f where f: "fr_set_not_zero (fm_frames m' n) = Some f" "regs_inv env its rs' (set_frame n f m') (insert n H) rngs"
      "fr_get_level f = lvl m' n" "\<not> bit (fr_flags f) 0" "fr_contains f PF_ADMITTED" "fr_contains f PF_ALLOCATED"
      using fr_set_not_zero_ok [OF p(1) reg(2) _ p(3)] by auto
    have same: "fm_frames m' k = fm_frames m k" "k \<noteq> n" if "k \<in> H" for k using p(2,7) that by auto
    have b: "blk (set_frame n f m') n = blk m' n" by (simp add: blk_def f(3))
    have "raw_alloc_frame env ops flags layout (a, m) = Some (Some n, a\<lparr>pfa_regions := rs'\<rparr>, set_frame n f m')"
      using x(1) Some p(6) f by (simp add: raw_alloc_frame_def flag_test fbit_def)
    moreover have "pinv env its rngs (a\<lparr>pfa_regions := rs'\<rparr>, set_frame n f m') (insert n H)"
      using f(2,4) reg(2) H p(3) same by (simp add: pinv_def fbit_def)
    then have "allocated env its rngs H (bit flags 0) layout m n (a\<lparr>pfa_regions := rs'\<rparr>, set_frame n f m')"
      unfolding allocated_def prod.case b using p(2,4,5) f(3) same p(6) regs_zero [OF p(1) _ p(3)] by simp
    ultimately show ?thesis by auto
  qed
qed

lemma contains_held:
  assumes "regs_inv env its (r # rs) m H ((s, e) # rngs)" and "n \<in> H" and "n \<in> pages_of ((s, e) # rngs)"
  shows "ar_contains env r (fr_pa (fm_frames m n)) = Some (n \<in> {s..<e})"
proof -
  note held = regs_held [OF assms]
  have "n * PAGE < 2 ^ 64" using held(2,3) power_strict_increasing [of "fe_bits env" 64 "2 :: nat"] by linarith
  moreover have "fi_pages env (ar_indexer r) s e" using assms(1) by (auto simp: rinv_def)
  ultimately show ?thesis using fi_contains_page [of env "ar_indexer r" s e n] held(1) by (simp add: ar_contains_def fok_def)
qed

lemma free_in_ok:
  assumes laws: "frame_list_laws ops its" and n: "n \<in> H"
  shows "regs_inv env its rs m H rngs \<Longrightarrow> apart rngs \<Longrightarrow> n \<in> pages_of rngs \<Longrightarrow>
    \<exists>rs' m'. free_in env ops n rs m = Some (rs', m') \<and> regs_inv env its rs' m' (H - {n}) rngs \<and> fm_mem m' = fm_mem m \<and>
      (\<forall>k. k \<noteq> n \<longrightarrow> fm_frames m' k = fm_frames m k)"
proof (induction rs arbitrary: rngs)
  case (Cons r rs)
  from Cons.prems(1) obtain s e rngs' fl where rn: "rngs = (s, e) # rngs'" "s \<le> e" "rinv env its s e fl (r, m) {} (H \<inter> {s..<e})"
    "regs_inv env its rs m H rngs'" by (rule regs_inv_ConsE)
  have ap: "{s..<e} \<inter> pages_of rngs' = {}" "apart rngs'" using Cons.prems(2) rn(1) by (simp_all add: apart_Cons)
  note c = contains_held [OF Cons.prems(1) [unfolded rn(1)] n Cons.prems(3) [unfolded rn(1)]]
  show ?case
  proof (cases "n \<in> {s..<e}")
    case True
    obtain r' m' fl' where f: "ar_free env ops n (r, m) = Some (r', m')" "rinv env its s e fl' (r', m') {} (H \<inter> {s..<e} - {n})"
      "keeps {n} (r, m) (r', m')" using ar_free_ok [OF laws rn(3), of n] n True by auto
    have k: "fm_mem m' = fm_mem m" "\<forall>k. k \<noteq> n \<longrightarrow> fm_frames m' k = fm_frames m k" using f(3) by (auto simp: keeps_def)
    have "n \<notin> pages_of rngs'" using True ap(1) by blast
    then have "regs_inv env its rs m' (H - {n}) rngs'" by (intro regs_inv_cong [OF rn(4)]) (use k in auto)
    moreover have "(H - {n}) \<inter> {s..<e} = H \<inter> {s..<e} - {n}" by blast
    ultimately have "regs_inv env its (r' # rs) m' (H - {n}) rngs" unfolding rn(1) regs_inv_Cons using f(2) rn(2) by auto
    then show ?thesis using c True f(1) k by simp
  next
    case False
    then have c0: "ar_contains env r (fr_pa (fm_frames m n)) = Some False" using c by (simp only: simp_thms)
    from False have n': "n \<in> pages_of rngs'" using Cons.prems(3) unfolding rn(1) pages_of_simps by blast
    obtain rs' m' where f: "free_in env ops n rs m = Some (rs', m')" "regs_inv env its rs' m' (H - {n}) rngs'" "fm_mem m' = fm_mem m"
      "\<forall>k. k \<noteq> n \<longrightarrow> fm_frames m' k = fm_frames m k" using Cons.IH [OF rn(4) ap(2) n'] by blast
    have "regs_inv env its [r] m H [(s, e)]" using rn by auto
    then have "regs_inv env its [r] m' (H - {n}) [(s, e)]" by (rule regs_inv_cong) (use f(3,4) False in auto)
    then have "regs_inv env its (r # rs') m' (H - {n}) rngs" using f(2) rn(1) by simp
    then show ?thesis using c0 f by simp
  qed
qed simp

lemma split_in_ok:
  assumes n: "n \<in> H"
  shows "regs_inv env its rs m H rngs \<Longrightarrow> apart rngs \<Longrightarrow> n \<in> pages_of rngs \<Longrightarrow>
    \<exists>H' m'. split_in env n rs m = Some ((n, PAGE * 512 ^ lvl m n), rs, m') \<and> regs_inv env its rs m' H' rngs \<and> fm_mem m' = fm_mem m \<and>
      (\<forall>k. k \<notin> blk m n \<longrightarrow> fm_frames m' k = fm_frames m k) \<and>
      (if lvl m n = 0 then H' = H \<and> m' = m
       else H' = H - {n} \<union> children (lvl m n - 1) n \<and> (\<forall>k\<in>children (lvl m n - 1) n. lvl m' k = lvl m n - 1 \<and> fbit m' k 0 = fbit m n 0))"
proof (induction rs arbitrary: rngs)
  case (Cons r rs)
  from Cons.prems(1) obtain s e rngs' fl where rn: "rngs = (s, e) # rngs'" "s \<le> e" "rinv env its s e fl (r, m) {} (H \<inter> {s..<e})"
    "regs_inv env its rs m H rngs'" by (rule regs_inv_ConsE)
  have ap: "{s..<e} \<inter> pages_of rngs' = {}" "apart rngs'" using Cons.prems(2) rn(1) by (simp_all add: apart_Cons)
  note c = contains_held [OF Cons.prems(1) [unfolded rn(1)] n Cons.prems(3) [unfolded rn(1)]]
  have ch: "children (lvl m n - 1) n \<subseteq> blk m n" if "lvl m n \<noteq> 0" using that children_in_blk [of m n "lvl m n - 1"] by simp
  show ?case
  proof (cases "n \<in> {s..<e}")
    case True
    have nH: "n \<in> H \<inter> {s..<e}" using n True by simp
    obtain H2 m' where f: "split_and_keep env n (r, m) = Some ((n, PAGE * 512 ^ lvl m n), r, m')" "rinv env its s e fl (r, m') {} H2"
      "keeps (blk m n) (r, m) (r, m')" "if lvl m n = 0 then H2 = H \<inter> {s..<e} \<and> m' = m
       else H2 = H \<inter> {s..<e} - {n} \<union> children (lvl m n - 1) n \<and> (\<forall>k\<in>children (lvl m n - 1) n. lvl m' k = lvl m n - 1 \<and> fbit m' k 0 = fbit m n 0)"
      using split_and_keep_ok [OF rn(3) nH] by blast
    have k: "fm_mem m' = fm_mem m" "\<forall>k. k \<notin> blk m n \<longrightarrow> fm_frames m' k = fm_frames m k" using f(3) by (auto simp: keeps_def)
    have "finv fl m {s..<e} {} (H \<inter> {s..<e})" using rn(3) by (simp add: rinv_def)
    then have sub: "blk m n \<subseteq> {s..<e}" using tiles_sub [OF finvD(5), of fl m "{s..<e}" "{}" "H \<inter> {s..<e}" n] nH by blast
    let ?H' = "if lvl m n = 0 then H else H - {n} \<union> children (lvl m n - 1) n"
    have H2: "?H' \<inter> {s..<e} = H2" using f(4) ch sub by auto
    have H3: "?H' \<inter> pages_of rngs' = H \<inter> pages_of rngs'" using ch sub True ap(1) by auto
    have "regs_inv env its rs m' ?H' rngs'"
    proof (rule regs_inv_cong [OF rn(4) _ _ H3])
      fix q assume "q \<in> pages_of rngs'"
      then have "q \<notin> blk m n" using sub ap(1) by blast
      then show "fm_frames m' q = fm_frames m q" using k(2) by blast
    qed (simp add: k(1))
    then have "regs_inv env its (r # rs) m' ?H' rngs" unfolding rn(1) regs_inv_Cons H2 using f(2) rn(2) by blast
    then show ?thesis using c True f(1,4) k by (intro exI [of _ ?H'] exI [of _ m']) (simp split: if_splits)
  next
    case False
    then have c0: "ar_contains env r (fr_pa (fm_frames m n)) = Some False" using c by (simp only: simp_thms)
    from False have n': "n \<in> pages_of rngs'" using Cons.prems(3) unfolding rn(1) pages_of_simps by blast
    obtain H' m' where f: "split_in env n rs m = Some ((n, PAGE * 512 ^ lvl m n), rs, m')" "regs_inv env its rs m' H' rngs'" "fm_mem m' = fm_mem m"
      "\<forall>k. k \<notin> blk m n \<longrightarrow> fm_frames m' k = fm_frames m k" "if lvl m n = 0 then H' = H \<and> m' = m
       else H' = H - {n} \<union> children (lvl m n - 1) n \<and> (\<forall>k\<in>children (lvl m n - 1) n. lvl m' k = lvl m n - 1 \<and> fbit m' k 0 = fbit m n 0)"
      using Cons.IH [OF rn(4) ap(2) n'] by blast
    have sub: "blk m n \<subseteq> pages_of rngs'" by (rule regs_held(4) [OF rn(4) n n'])
    have d: "q \<notin> blk m n" if "q \<in> {s..<e}" for q using that sub ap(1) by blast
    have "H' \<inter> {s..<e} = H \<inter> {s..<e}"
    proof (cases "lvl m n = 0")
      case False
      then have "H' = H - {n} \<union> children (lvl m n - 1) n" using f(5) by simp
      then show ?thesis using ch [OF False] d \<open>n \<notin> {s..<e}\<close> by blast
    qed (use f(5) in simp)
    moreover have "regs_inv env its [r] m H [(s, e)]" using rn by auto
    then have "H' \<inter> pages_of [(s, e)] = H \<inter> pages_of [(s, e)] \<Longrightarrow> regs_inv env its [r] m' H' [(s, e)]"
      by (rule regs_inv_cong) (use f(3,4) d in auto)
    ultimately have "regs_inv env its [r] m' H' [(s, e)]" by simp
    then have "regs_inv env its (r # rs) m' H' rngs" using f(2) rn(1) by simp
    then show ?thesis using c0 f by (intro exI [of _ H'] exI [of _ m']) simp
  qed
qed simp

end
