(* ===== verification/Frame_Requests.thy ===== *)
theory Frame_Requests
  imports Frame_Client
begin

text \<open>
  The frame allocator from boot on: building it from the memory map, and every sequence of requests
  that clients make.
\<close>

section \<open>Boot\<close>

definition mr_span :: "MemoryRegion \<Rightarrow> nat set" where
  "mr_span mr = {unat (pa_raw (mr_start mr)) ..< unat (pa_raw (mr_start mr)) + mr_length mr}"

definition usable :: "MemoryRegion list \<Rightarrow> MemoryRegion list" where
  "usable mrs = filter (\<lambda>mr. mr_kind mr = UsableRam) mrs"

text \<open>A memory map whose usable ranges are well formed and do not overlap.\<close>

definition map_ok :: "frame_env \<Rightarrow> MemoryRegion list \<Rightarrow> bool" where
  "map_ok env mrs \<longleftrightarrow> list_all (mr_ok env) (usable mrs) \<and> sorted_wrt (\<lambda>x y. mr_span x \<inter> mr_span y = {}) (usable mrs)"

definition in_map :: "MemoryRegion list \<Rightarrow> nat set \<Rightarrow> bool" where
  "in_map mrs P \<longleftrightarrow> (\<forall>p\<in>P. \<exists>mr\<in>set (usable mrs). {p * PAGE ..< p * PAGE + PAGE} \<subseteq> mr_span mr)"

lemma in_map_page: "in_map mrs P \<Longrightarrow> p \<in> P \<Longrightarrow> \<exists>mr\<in>set (usable mrs). p * PAGE \<in> mr_span mr"
  unfolding in_map_def by (fastforce simp: PAGE_def)

lemma built_in_map:
  assumes "ar_built env its mr m r m' s e" and "p \<in> {s..<e}"
  shows "{p * PAGE ..< p * PAGE + PAGE} \<subseteq> mr_span mr"
proof -
  have "s * PAGE \<le> p * PAGE" "p * PAGE + PAGE \<le> e * PAGE"
    using assms(2) mult_le_mono1 [of s p PAGE] mult_le_mono1 [of "Suc p" e PAGE] by simp_all
  then have "unat (pa_raw (mr_start mr)) \<le> p * PAGE" "p * PAGE + PAGE \<le> unat (pa_raw (mr_start mr)) + mr_length mr"
    using assms(1) unfolding ar_built_def by linarith+
  then show ?thesis unfolding mr_span_def by (intro subsetI) simp
qed

lemma new_regions_ok:
  assumes laws: "frame_list_laws ops its" and env: "env_ok env"
  shows "map_ok env mrs \<Longrightarrow> \<exists>rs rngs m'. new_regions env ops mrs m = Some (rs, m') \<and> regs_inv env its rs m' {} rngs \<and> apart rngs \<and>
    in_map mrs (pages_of rngs) \<and> fm_mem m' = fm_mem m \<and> (\<forall>q. q \<notin> pages_of rngs \<longrightarrow> fm_frames m' q = fm_frames m q)"
proof (induction mrs arbitrary: m)
  case Nil
  show ?case by (intro exI [of _ "[]"] exI [of _ m]) (simp add: apart_def in_map_def)
next
  case (Cons mr mrs)
  show ?case
  proof (cases "mr_kind mr = UsableRam")
    case False
    then have u: "usable (mr # mrs) = usable mrs" by (simp add: usable_def)
    then show ?thesis using Cons.IH [of m] Cons.prems False by (simp add: map_ok_def in_map_def)
  next
    case True
    then have u: "usable (mr # mrs) = mr # usable mrs" by (simp add: usable_def)
    then have ok: "mr_ok env mr" "map_ok env mrs" "\<And>y. y \<in> set (usable mrs) \<Longrightarrow> mr_span mr \<inter> mr_span y = {}"
      using Cons.prems by (simp_all add: map_ok_def)
    obtain x m1 where x: "ar_new env ops mr m = Some (x, m1)" "case x of None \<Rightarrow> m1 = m | Some r \<Rightarrow> \<exists>s e. ar_built env its mr m r m1 s e"
      using ar_new_ok [OF laws env ok(1)] by blast
    obtain rs rngs m' where IH: "new_regions env ops mrs m1 = Some (rs, m')" "regs_inv env its rs m' {} rngs" "apart rngs"
      "in_map mrs (pages_of rngs)" "fm_mem m' = fm_mem m1" "\<forall>q. q \<notin> pages_of rngs \<longrightarrow> fm_frames m' q = fm_frames m1 q"
      using Cons.IH [OF ok(2)] by blast
    have im: "in_map (mr # mrs) (pages_of rngs)" using IH(4) by (auto simp: in_map_def u)
    show ?thesis
    proof (cases x)
      case None
      then show ?thesis using x IH True im by (intro exI [of _ rs] exI [of _ rngs] exI [of _ m']) simp
    next
      case (Some r)
      then obtain s e where b: "ar_built env its mr m r m1 s e" using x(2) by auto
      then obtain fl where fl: "rinv env its s e fl (r, m1) {} {}" and m1: "fm_mem m1 = fm_mem m" "s \<le> e"
        "\<forall>q. q \<notin> {s..<e} \<longrightarrow> fm_frames m1 q = fm_frames m q" unfolding ar_built_def by auto
      have d: "{s..<e} \<inter> pages_of rngs = {}"
      proof -
        have "False" if p: "p \<in> {s..<e}" "p \<in> pages_of rngs" for p
        proof -
          have "p * PAGE \<in> mr_span mr" using built_in_map [OF b p(1)] by (auto simp: PAGE_def)
          then show False using in_map_page [OF IH(4) p(2)] ok(3) by blast
        qed
        then show ?thesis by blast
      qed
      have "regs_inv env its [r] m1 {} [(s, e)]" using fl m1(2) by auto
      then have "regs_inv env its [r] m' {} [(s, e)]"
      proof (rule regs_inv_cong)
        show "fm_frames m' k = fm_frames m1 k" if "k \<in> pages_of [(s, e)]" for k
          using that d IH(6) unfolding pages_of_simps by blast
      qed (simp_all add: IH(5))
      then have "regs_inv env its (r # rs) m' {} ((s, e) # rngs)" using IH(2) by simp
      moreover have "in_map (mr # mrs) (pages_of ((s, e) # rngs))"
        using im built_in_map [OF b] unfolding in_map_def u pages_of_simps by (metis UnE list.set_intros(1))
      moreover have "fm_frames m' q = fm_frames m q" if "q \<notin> pages_of ((s, e) # rngs)" for q
        using that IH(6) m1(3) unfolding pages_of_simps by simp
      ultimately show ?thesis using x(1) Some IH(1,3,5) m1(1) True d
        by (intro exI [of _ "r # rs"] exI [of _ "(s, e) # rngs"] exI [of _ m']) (simp add: apart_Cons)
    qed
  qed
qed

section \<open>Requests\<close>

text \<open>
  A client allocates a frame, frees one it holds (zeroing it before or not), splits one into the
  frames of the next level, which it then holds, or stores a byte in one.
\<close>

datatype request = Alloc u8 Layout | Free bool nat | Split nat | Store nat u8

type_synonym 'l client = "'l pfa \<times> FrameRef list"

definition part_list :: "FrameRef \<Rightarrow> nat \<Rightarrow> nat \<Rightarrow> FrameRef list" where
  "part_list n whole part = map (\<lambda>k. n + k * (part div PAGE)) [0..<whole div part]"

definition covers :: "frames \<Rightarrow> nat \<Rightarrow> FrameRef \<Rightarrow> bool" where
  "covers m x n \<longleftrightarrow> n \<le> x div PAGE \<and> x div PAGE < n + 512 ^ fr_get_level (fm_frames m n)"

fun serve :: "frame_env \<Rightarrow> 'l frame_list_ops \<Rightarrow> request \<Rightarrow> 'l client \<Rightarrow> 'l client option" where
  "serve env ops (Alloc flags layout) (s, held) = do {
     (x, s) \<leftarrow> raw_alloc_frame env ops flags layout s;
     Some (s, case x of None \<Rightarrow> held | Some n \<Rightarrow> n # held) }"
| "serve env ops (Free zero i) ((a, m), held) =
     (if i < length held then do {
        m \<leftarrow> (if zero then fr_zero env (held ! i) m else Some m);
        s \<leftarrow> raw_free_frame env ops (held ! i) (a, m);
        Some (s, remove1 (held ! i) held) }
      else Some ((a, m), held))"
| "serve env ops (Split i) (s, held) =
     (if i < length held then do {
        ((n, whole), a, m) \<leftarrow> split_frame env (held ! i) s;
        part \<leftarrow> fr_size (fm_frames m n);
        Some ((a, m), part_list n whole part @ remove1 n held) }
      else Some (s, held))"
| "serve env ops (Store x v) ((a, m), held) =
     Some ((a, if list_ex (covers m x) held then m\<lparr>fm_mem := (fm_mem m)(x := v)\<rparr> else m), held)"

definition cinv :: "frame_env \<Rightarrow> ('l \<Rightarrow> FrameRef list) \<Rightarrow> (nat \<times> nat) list \<Rightarrow> 'l client \<Rightarrow> bool" where
  "cinv env its rngs = (\<lambda>(s, held). distinct held \<and> pinv env its rngs s (set held))"

lemma regs_unique:
  assumes "regs_inv env its rs m H rngs" "apart rngs" and "x \<in> H" "y \<in> H" and "x \<in> pages_of rngs" "y \<in> pages_of rngs"
    and "p \<in> blk m x" "p \<in> blk m y"
  shows "x = y"
  using assms(1,2,5,6)
proof (induction rs arbitrary: rngs)
  case (Cons r rs)
  from Cons.prems(1) obtain s e rngs' fl where rn: "rngs = (s, e) # rngs'" "s \<le> e" "rinv env its s e fl (r, m) {} (H \<inter> {s..<e})"
    "regs_inv env its rs m H rngs'" by (rule regs_inv_ConsE)
  have ap: "{s..<e} \<inter> pages_of rngs' = {}" "apart rngs'" using Cons.prems(2) rn(1) by (simp_all add: apart_Cons)
  have t: "tiles m (all_free fl \<union> {} \<union> H \<inter> {s..<e}) {s..<e}" using rn(3) by (intro finvD(5)) (simp add: rinv_def)
  have here: "blk m z \<subseteq> {s..<e}" if "z \<in> H" "z \<in> {s..<e}" for z using tiles_sub [OF t, of z] that by blast
  have there: "blk m z \<subseteq> pages_of rngs'" "z \<in> pages_of rngs'" if "z \<in> H" "z \<in> pages_of rngs" "z \<notin> {s..<e}" for z
    using that regs_held(4) [OF rn(4) that(1)] unfolding rn(1) pages_of_simps by blast+
  consider "x \<in> {s..<e}" "y \<in> {s..<e}" | "x \<notin> {s..<e}" "y \<notin> {s..<e}" | "x \<in> {s..<e}" "y \<notin> {s..<e}" | "x \<notin> {s..<e}" "y \<in> {s..<e}" by blast
  then show ?case
  proof cases
    case 1
    then show ?thesis using tiles_unique [OF t, of x y p] assms(3,4,7,8) by blast
  next
    case 2
    then show ?thesis using Cons.IH [OF rn(4) ap(2)] there assms(3,4) Cons.prems(3,4) by blast
  next
    case 3
    then show ?thesis using here [of x] there [of y] assms(3,4,7,8) Cons.prems(4) ap(1) by blast
  next
    case 4
    then show ?thesis using here [of y] there [of x] assms(3,4,7,8) Cons.prems(3) ap(1) by blast
  qed
qed simp

lemma finv_store:
  assumes inv: "finv fl m cov T H" and n: "n \<in> T \<union> H" "\<not> fbit m n 0" and mem: "\<And>x. x div PAGE \<notin> blk m n \<Longrightarrow> mem x = fm_mem m x"
  shows "finv fl (m\<lparr>fm_mem := mem\<rparr>) cov T H"
proof -
  let ?m = "m\<lparr>fm_mem := mem\<rparr>" and ?S = "all_free fl \<union> T \<union> H"
  note D = finvD [OF inv]
  have e: "lvl ?m k = lvl m k" "fbit ?m k j = fbit m k j" "fok ?m k l b = fok m k l b" "blk ?m k = blk m k" for k j l b
    by (simp_all add: lvl_def fbit_def fok_def blk_def)
  have t: "tiles ?m S c = tiles m S c" for S c by (rule tiles_cong) (rule e)
  have nS: "n \<in> ?S" using n(1) by blast
  have "zero_ok ?m ?S"
    unfolding zero_ok_def e
  proof (intro ballI impI allI)
    fix k x assume k: "k \<in> ?S" "fbit m k 0" "x div PAGE \<in> blk m k"
    then have "x div PAGE \<notin> blk m n" using tiles_unique [OF D(5) k(1) nS] n(2) by blast
    then show "fm_mem ?m x = 0" using mem D(6) k by (simp add: zero_ok_def)
  qed
  then show ?thesis using inv unfolding finv_def t e by blast
qed

lemma cinvD:
  assumes "cinv env its rngs ((a, m), held)"
  shows "distinct held" "regs_inv env its (pfa_regions a) m (set held) rngs" "apart rngs" "set held \<subseteq> pages_of rngs"
    "\<And>n. n \<in> set held \<Longrightarrow> \<not> fbit m n 0"
  using assms by (simp_all add: cinv_def pinv_def)

lemma serve_Alloc:
  assumes laws: "frame_list_laws ops its" and env: "env_ok env" and inv: "cinv env its rngs (s, held)"
  shows "\<exists>c'. serve env ops (Alloc flags layout) (s, held) = Some c' \<and> cinv env its rngs c'"
proof -
  obtain a m where s: "s = (a, m)" by (cases s)
  have p: "pinv env its rngs (a, m) (set held)" "distinct held" using inv s by (simp_all add: cinv_def)
  obtain x s' where x: "raw_alloc_frame env ops flags layout (a, m) = Some (x, s')" "case x of
      None \<Rightarrow> s' = (a, m) \<and> (\<forall>i. layout_level layout = Some i \<longrightarrow> exhausted its True False i (pfa_regions a))
    | Some n \<Rightarrow> allocated env its rngs (set held) (bit flags 0) layout m n s'"
    using raw_alloc_frame_ok [OF laws env p(1)] by blast
  have "cinv env its rngs (s', case x of None \<Rightarrow> held | Some n \<Rightarrow> n # held)"
    using x(2) p by (cases x; cases s') (simp_all add: cinv_def allocated_def)
  then show ?thesis using x(1) s by simp
qed

lemma serve_Free:
  assumes laws: "frame_list_laws ops its" and env: "env_ok env" and inv: "cinv env its rngs ((a, m), held)"
  shows "\<exists>c'. serve env ops (Free zero i) ((a, m), held) = Some c' \<and> cinv env its rngs c'"
proof (cases "i < length held")
  case True
  note C = cinvD [OF inv]
  let ?n = "held ! i"
  have n: "?n \<in> set held" "?n \<in> pages_of rngs" using True C(4) nth_mem by blast+
  obtain m1 where m1: "(if zero then fr_zero env ?n m else Some m) = Some m1" "regs_inv env its (pfa_regions a) m1 (set held) rngs"
    "\<forall>k. k \<noteq> ?n \<longrightarrow> fm_frames m1 k = fm_frames m k"
    using fr_zero_ok [OF C(2,3) n env] C(2) by (cases zero) auto
  have "fr_contains (fm_frames m1 ?n) PF_ADMITTED" "fr_contains (fm_frames m1 ?n) PF_ALLOCATED"
    using regs_held(1) [OF m1(2) n] by (simp_all add: fok_def fbit_def)
  moreover obtain rs' m' where f: "free_in env ops ?n (pfa_regions a) m1 = Some (rs', m')" "regs_inv env its rs' m' (set held - {?n}) rngs"
    "\<forall>k. k \<noteq> ?n \<longrightarrow> fm_frames m' k = fm_frames m1 k" using free_in_ok [OF laws n(1) m1(2) C(3) n(2)] by blast
  moreover have "cinv env its rngs ((a\<lparr>pfa_regions := rs'\<rparr>, m'), remove1 ?n held)"
    using f(2,3) m1(3) C by (auto simp: cinv_def pinv_def fbit_def)
  ultimately show ?thesis using True m1(1) by (simp add: raw_free_frame_def pfa_free_def)
qed (use inv in simp)

lemma part_list_children:
  "part_list n (PAGE * 512 ^ Suc l) (PAGE * 512 ^ l) = map (\<lambda>k. n + k * 512 ^ l) [0..<512]"
  "part_list n PAGE PAGE = [n]"
  by (simp_all add: part_list_def)

lemma children_set: "set (map (\<lambda>k. n + k * 512 ^ l) [0..<512]) = children l n"
  by (auto simp: children_def)

lemma serve_Split:
  assumes inv: "cinv env its rngs ((a, m), held)"
  shows "\<exists>c'. serve env ops (Split i) ((a, m), held) = Some c' \<and> cinv env its rngs c'"
proof (cases "i < length held")
  case True
  note C = cinvD [OF inv]
  let ?n = "held ! i"
  have n: "?n \<in> set held" "?n \<in> pages_of rngs" using True C(4) nth_mem by blast+
  have lv: "lvl m ?n < NR_LEVELS" using regs_held(1) [OF C(2) n] by (simp add: fok_def)
  obtain H' m' where f: "split_in env ?n (pfa_regions a) m = Some ((?n, PAGE * 512 ^ lvl m ?n), pfa_regions a, m')"
    "regs_inv env its (pfa_regions a) m' H' rngs" "\<forall>k. k \<notin> blk m ?n \<longrightarrow> fm_frames m' k = fm_frames m k"
    "if lvl m ?n = 0 then H' = set held \<and> m' = m
     else H' = set held - {?n} \<union> children (lvl m ?n - 1) ?n \<and> (\<forall>k\<in>children (lvl m ?n - 1) ?n. lvl m' k = lvl m ?n - 1 \<and> fbit m' k 0 = fbit m ?n 0)"
    using split_in_ok [OF n(1) C(2,3) n(2)] by blast
  have sp: "split_frame env ?n (a, m) = Some ((?n, PAGE * 512 ^ lvl m ?n), a, m')" using f(1) by (simp add: split_frame_def)
  show ?thesis
  proof (cases "lvl m ?n")
    case 0
    then have "fr_size (fm_frames m ?n) = Some PAGE" using fr_size_lvl [of m ?n] lv by simp
    then have "serve env ops (Split i) ((a, m), held) = Some ((a, m), ?n # remove1 ?n held)"
      using True sp f(4) 0 by (simp add: part_list_children)
    then show ?thesis using C n by (simp add: cinv_def pinv_def insert_absorb)
  next
    case (Suc l)
    then have H': "H' = set held - {?n} \<union> children l ?n" "\<forall>k\<in>children l ?n. lvl m' k = l \<and> fbit m' k 0 = fbit m ?n 0"
      using f(4) by simp_all
    have nc: "?n \<in> children l ?n" by (force simp: children_def)
    have sub: "children l ?n \<subseteq> blk m ?n" using children_in_blk [OF Suc] .
    have d: "k = ?n" if "k \<in> set held" "k \<in> blk m ?n" for k
      using regs_unique [OF C(2,3) that(1) n(1) _ n(2), of k] that C(4) by auto
    let ?held = "map (\<lambda>k. ?n + k * 512 ^ l) [0..<512] @ remove1 ?n held"
    have "fr_size (fm_frames m' ?n) = Some (PAGE * 512 ^ l)" using fr_size_lvl [of m' ?n] lv H'(2) nc Suc by simp
    then have "serve env ops (Split i) ((a, m), held) = Some ((a, m'), ?held)"
      using True sp Suc part_list_children(1) [of ?n l] by simp
    moreover have set: "set ?held = H'" unfolding set_append children_set H'(1) using C(1) by auto
    moreover have "distinct ?held"
    proof -
      have "distinct (map (\<lambda>k. ?n + k * 512 ^ l) [0..<512])" by (simp add: distinct_map inj_on_def)
      moreover have "children l ?n \<inter> set (remove1 ?n held) = {}" using d sub C(1) by auto
      ultimately show ?thesis unfolding distinct_append children_set using C(1) by simp
    qed
    moreover have "H' \<subseteq> pages_of rngs" using H'(1) C(4) sub regs_held(4) [OF C(2) n] by blast
    moreover have "\<not> fbit m' k 0" if "k \<in> H'" for k
    proof (cases "k \<in> children l ?n")
      case True
      then show ?thesis using H'(2) C(5) [OF n(1)] by simp
    next
      case False
      then have "k \<in> set held" "k \<noteq> ?n" using that H'(1) by auto
      then show ?thesis using d f(3) C(5) by (metis fbit_def)
    qed
    ultimately show ?thesis using f(2) C(3) by (simp add: cinv_def pinv_def)
  qed
qed (use inv in simp)

lemma serve_Store:
  assumes inv: "cinv env its rngs ((a, m), held)"
  shows "\<exists>c'. serve env ops (Store x v) ((a, m), held) = Some c' \<and> cinv env its rngs c'"
proof (cases "list_ex (covers m x) held")
  case True
  note C = cinvD [OF inv]
  let ?m = "m\<lparr>fm_mem := (fm_mem m)(x := v)\<rparr>"
  from True obtain n where n: "n \<in> set held" "x div PAGE \<in> blk m n" by (auto simp: list_ex_iff covers_def blk_def lvl_def)
  have "regs_inv env its (pfa_regions a) ?m (set held) rngs"
  proof (rule regs_inv_local [OF C(2,3)])
    show "n \<in> pages_of rngs" using n(1) C(4) by blast
    fix fl s e assume i: "n \<in> {s..<e}" "finv fl m {s..<e} {} (set held \<inter> {s..<e})"
    have nH: "n \<in> {} \<union> set held \<inter> {s..<e}" using i(1) n(1) by simp
    have sub: "blk m n \<subseteq> {s..<e}" using tiles_sub [OF finvD(5) [OF i(2)], of n] nH by blast
    have "finv fl ?m {s..<e} {} (set held \<inter> {s..<e})" using n(2) by (intro finv_store [OF i(2) nH C(5) [OF n(1)]]) auto
    moreover have "y \<noteq> x" if "y div PAGE \<notin> {s..<e}" for y using that n(2) sub by blast
    ultimately show "finv fl ?m {s..<e} {} (set held \<inter> {s..<e}) \<and> (\<forall>k. k \<notin> {s..<e} \<longrightarrow> fm_frames ?m k = fm_frames m k) \<and>
      (\<forall>y. y div PAGE \<notin> {s..<e} \<longrightarrow> fm_mem ?m y = fm_mem m y) \<and> set held - {s..<e} = set held - {s..<e}" by simp
  qed
  then show ?thesis using True C by (simp add: cinv_def pinv_def fbit_def)
qed (use inv in simp)

lemma serve_ok:
  assumes "frame_list_laws ops its" and "env_ok env" and "cinv env its rngs c"
  shows "\<exists>c'. serve env ops req c = Some c' \<and> cinv env its rngs c'"
proof -
  obtain a m held where c: "c = ((a, m), held)" by (cases c; cases "fst c") auto
  note inv = assms(3) [unfolded c]
  show ?thesis
    unfolding c using serve_Alloc [OF assms(1,2) inv] serve_Free [OF assms(1,2) inv] serve_Split [OF inv] serve_Store [OF inv] by (cases req) simp_all
qed

lemma serve_all:
  assumes laws: "frame_list_laws ops its" and env: "env_ok env"
  shows "cinv env its rngs c \<Longrightarrow> \<exists>c'. foldM (serve env ops) reqs c = Some c' \<and> cinv env its rngs c'"
proof (induction reqs arbitrary: c)
  case (Cons req reqs)
  obtain c1 where "serve env ops req c = Some c1" "cinv env its rngs c1" using serve_ok [OF laws env Cons.prems] by blast
  then show ?case using Cons.IH [of c1] by simp
qed simp

lemma boot_ok:
  assumes "frame_list_laws ops its" and "env_ok env" and "map_ok env mrs"
  obtains s rngs where "pfa_new env ops mrs m = Some s" "cinv env its rngs (s, [])" "in_map mrs (pages_of rngs)"
proof -
  obtain rs rngs m' where n: "new_regions env ops mrs m = Some (rs, m')" "regs_inv env its rs m' {} rngs" "apart rngs"
    "in_map mrs (pages_of rngs)" using new_regions_ok [OF assms] by blast
  then show ?thesis using that [of _ rngs] by (simp add: pfa_new_def cinv_def pinv_def)
qed

section \<open>Accounting\<close>

definition free_pages :: "'l AllocationRegion \<Rightarrow> nat" where
  "free_pages r = (\<Sum>i<NR_LEVELS. al_free (ar_levels r ! i) * 512 ^ i)"

definition region_pages :: "'l AllocationRegion \<Rightarrow> nat set" where
  "region_pages r = (let s = unat (pa_raw (fi_start (ar_indexer r))) div PAGE in {s ..< s + fi_len (ar_indexer r) div PAGE})"

definition managed :: "'l PhysicalFrameAllocator \<Rightarrow> nat set" where
  "managed a = (\<Union>r\<in>set (pfa_regions a). region_pages r)"

lemma fi_region_pages:
  assumes "fi_pages env (ar_indexer r) s e"
  shows "region_pages r = {s..<e}"
  using assms page_addr_raw [of s] fi_pages_bound [OF assms, of s] by (simp add: region_pages_def fi_pages_def)

lemma sum_free:
  assumes inv: "finv fl m cov T H"
  shows "(\<Sum>n\<in>all_free fl. 512 ^ lvl m n) = (\<Sum>i<NR_LEVELS. (length (fl i True) + length (fl i False)) * 512 ^ i)"
proof -
  note D = finvD [OF inv]
  have un: "all_free fl = (\<Union>i\<in>{..<NR_LEVELS}. set (fl i True) \<union> set (fl i False))" by (auto simp: all_free_def UNIV_bool)
  have lev: "(\<Sum>n\<in>set (fl i True) \<union> set (fl i False). 512 ^ lvl m n) = (length (fl i True) + length (fl i False)) * 512 ^ i"
    if i: "i < NR_LEVELS" for i
  proof -
    have "set (fl i True) \<inter> set (fl i False) = {}" using free_list_unique [OF inv i i] by blast
    then have "card (set (fl i True) \<union> set (fl i False)) = length (fl i True) + length (fl i False)"
      using D(1) [OF i] by (simp add: card_Un_disjoint distinct_card)
    moreover have "(\<Sum>n\<in>set (fl i True) \<union> set (fl i False). (512 :: nat) ^ lvl m n) = (\<Sum>n\<in>set (fl i True) \<union> set (fl i False). 512 ^ i)"
      using D(2) [OF i] by (intro sum.cong) auto
    ultimately show ?thesis by simp
  qed
  have "(\<Sum>n\<in>all_free fl. (512 :: nat) ^ lvl m n) = (\<Sum>i<NR_LEVELS. \<Sum>n\<in>set (fl i True) \<union> set (fl i False). 512 ^ lvl m n)"
    unfolding un
  proof (rule sum.UNION_disjoint)
    show "\<forall>i\<in>{..<NR_LEVELS}. \<forall>j\<in>{..<NR_LEVELS}. i \<noteq> j \<longrightarrow> (set (fl i True) \<union> set (fl i False)) \<inter> (set (fl j True) \<union> set (fl j False)) = {}"
      using free_list_unique [OF inv] unfolding lessThan_iff by blast
  qed simp_all
  then show ?thesis using lev by simp
qed

lemma rinv_account:
  assumes "rinv env its s e fl (r, m) {} H"
  shows "free_pages r + (\<Sum>n\<in>H. 512 ^ lvl m n) = e - s"
proof -
  have rep: "rep its (ar_levels r) fl" and inv: "finv fl m {s..<e} {} H" using assms by (simp_all add: rinv_def)
  note D = finvD [OF inv]
  have H: "H \<subseteq> {s..<e}"
  proof
    fix n assume "n \<in> H"
    then show "n \<in> {s..<e}" using tiles_sub [OF D(5), of n] blk_self [of n m] by blast
  qed
  then have fin: "finite (all_free fl)" "finite H" using finite_subset by (auto simp: all_free_def)
  have "e - s = card (\<Union>n\<in>all_free fl \<union> H. blk m n)" using D(5) by (simp add: tiles_def)
  also have "\<dots> = (\<Sum>n\<in>all_free fl \<union> H. card (blk m n))"
    using D(5) fin by (intro card_UN_disjoint) (auto simp: tiles_def disjoint_family_on_def blk_def)
  also have "\<dots> = (\<Sum>n\<in>all_free fl. 512 ^ lvl m n) + (\<Sum>n\<in>H. 512 ^ lvl m n)"
    using finv_separate(2) [OF inv] fin by (simp add: sum.union_disjoint blk_def)
  also have "(\<Sum>n\<in>all_free fl. 512 ^ lvl m n) = free_pages r"
    unfolding sum_free [OF inv] free_pages_def using rep by (intro sum.cong) (simp_all add: rep_def)
  finally show ?thesis by simp
qed

lemma regs_account:
  assumes "regs_inv env its rs m H rngs" and "apart rngs"
  shows "(\<Union>r\<in>set rs. region_pages r) = pages_of rngs"
    and "sum_list (map free_pages rs) + (\<Sum>n\<in>H \<inter> pages_of rngs. 512 ^ lvl m n) = card (pages_of rngs)"
proof -
  have "(\<Union>r\<in>set rs. region_pages r) = pages_of rngs \<and>
    sum_list (map free_pages rs) + (\<Sum>n\<in>H \<inter> pages_of rngs. 512 ^ lvl m n) = card (pages_of rngs)"
    using assms
  proof (induction rs arbitrary: rngs)
    case (Cons r rs)
    from Cons.prems(1) obtain s e rngs' fl where rn: "rngs = (s, e) # rngs'" "s \<le> e" "rinv env its s e fl (r, m) {} (H \<inter> {s..<e})"
      "regs_inv env its rs m H rngs'" by (rule regs_inv_ConsE)
    have ap: "{s..<e} \<inter> pages_of rngs' = {}" "apart rngs'" using Cons.prems(2) rn(1) by (simp_all add: apart_Cons)
    have fin: "finite (pages_of rngs')" by (auto simp: pages_of_def)
    have r: "region_pages r = {s..<e}" using rn(3) by (intro fi_region_pages [of env]) (simp add: rinv_def)
    have "(\<Sum>n\<in>H \<inter> {s..<e} \<union> H \<inter> pages_of rngs'. (512 :: nat) ^ lvl m n) =
        (\<Sum>n\<in>H \<inter> {s..<e}. 512 ^ lvl m n) + (\<Sum>n\<in>H \<inter> pages_of rngs'. 512 ^ lvl m n)"
      using ap(1) fin by (intro sum.union_disjoint) auto
    moreover have "card (pages_of rngs) = (e - s) + card (pages_of rngs')"
      using ap(1) fin rn(1) by (simp add: card_Un_disjoint)
    ultimately show ?case
      using Cons.IH [OF rn(4) ap(2)] rinv_account [OF rn(3)] r unfolding rn(1) pages_of_simps Int_Un_distrib by simp
  qed simp
  then show "(\<Union>r\<in>set rs. region_pages r) = pages_of rngs"
    "sum_list (map free_pages rs) + (\<Sum>n\<in>H \<inter> pages_of rngs. 512 ^ lvl m n) = card (pages_of rngs)" by simp_all
qed

section \<open>Properties\<close>

text \<open>A list of frames, a machine and a memory map.\<close>

definition plain_frame_list :: "FrameRef list frame_list_ops" where
  "plain_frame_list = \<lparr>fl_new = [], fl_push_back = (\<lambda>f l. l @ [f]), fl_pop_back = (\<lambda>l. if l = [] then None else Some (last l, butlast l))\<rparr>"

definition small_env :: frame_env where
  "small_env = \<lparr>fe_bits = 46, fe_off = 0xffff800000000000, fe_frame_size = 64\<rparr>"

definition small_map :: "MemoryRegion list" where
  "small_map = [\<lparr>mr_start = PhysAddr 0x1234, mr_length = 0x9000, mr_kind = UsableRam\<rparr>,
     \<lparr>mr_start = PhysAddr 0xb000, mr_length = 0x1000, mr_kind = Reserved\<rparr>,
     \<lparr>mr_start = PhysAddr 0x100000, mr_length = 0x400000, mr_kind = UsableRam\<rparr>]"

definition blank_frames :: frames where
  "blank_frames = \<lparr>fm_frames = (\<lambda>_. \<lparr>fr_pa = PhysAddr 0, fr_flags = 0, fr_level = 0, fr_linked = False\<rparr>), fm_mem = (\<lambda>_. 0)\<rparr>"

lemma plain_frame_list_laws: "frame_list_laws plain_frame_list (\<lambda>l. l)"
  by (simp add: frame_list_laws_def plain_frame_list_def)

lemma small_env_ok: "env_ok small_env"
proof -
  have "phys_to_virt 0xffff800000000000 pa \<noteq> None" if "unat (pa_raw pa) < 2 ^ 46" for pa
  proof -
    have "checked_add (pa_raw pa) 0xffff800000000000 \<noteq> None" using that by (simp add: checked_add_None_iff)
    then obtain w where w: "checked_add (pa_raw pa) 0xffff800000000000 = Some w" by blast
    then have "unat w = unat (pa_raw pa) + 0xffff800000000000" by (simp add: checked_add_Some_iff)
    then have "0xffff800000000000 \<le> w" by (simp add: word_le_nat_alt)
    then show ?thesis using w by (simp add: phys_to_virt_def VirtAddr_new_def)
  qed
  then show ?thesis by (simp add: env_ok_def small_env_def PAGE_def)
qed

lemma small_map_ok: "map_ok small_env small_map"
  by (simp add: map_ok_def small_map_def usable_def mr_ok_def small_env_def mr_span_def PAGE_def round_up_def)



text \<open>
  C2: From boot on, whatever frames clients allocate, free, zero before freeing, split or write to,
  the allocator never panics, the frames they hold never overlap each other, lie in the memory it
  manages, which is usable memory, and the free pages it counts and the held pages add up to all
  pages it manages.
\<close>

theorem frame_allocator_safe:
  assumes "frame_list_laws ops its" and "env_ok env" and "map_ok env mrs"
  shows "\<exists>s0 a m held. pfa_new env ops mrs m0 = Some s0 \<and> foldM (serve env ops) reqs (s0, []) = Some ((a, m), held) \<and>
    distinct held \<and> disjoint_family_on (blk m) (set held) \<and> (\<Union>n\<in>set held. blk m n) \<subseteq> managed a \<and> managed a = managed (fst s0) \<and>
    in_map mrs (managed a) \<and> sum_list (map free_pages (pfa_regions a)) + (\<Sum>n\<in>set held. 512 ^ lvl m n) = card (managed a)"
proof -
  from assms obtain s0 rngs where s0: "pfa_new env ops mrs m0 = Some s0" "cinv env its rngs (s0, [])" "in_map mrs (pages_of rngs)"
    by (rule boot_ok)
  obtain a m held where c: "foldM (serve env ops) reqs (s0, []) = Some ((a, m), held)" "cinv env its rngs ((a, m), held)"
    using serve_all [OF assms(1,2) s0(2), of reqs] by auto
  note C = cinvD [OF c(2)]
  have acc: "managed a = pages_of rngs" "sum_list (map free_pages (pfa_regions a)) + (\<Sum>n\<in>set held. 512 ^ lvl m n) = card (pages_of rngs)"
    using regs_account [OF C(2,3)] C(4) by (simp_all add: managed_def Int_absorb2)
  have "managed (fst s0) = pages_of rngs"
    using s0(2) regs_account(1) [of env its "pfa_regions (fst s0)" "snd s0" "{}" rngs] by (cases s0) (simp add: cinv_def pinv_def managed_def)
  moreover have "disjoint_family_on (blk m) (set held)"
    unfolding disjoint_family_on_def using regs_unique [OF C(2,3)] C(4) by blast
  moreover have "(\<Union>n\<in>set held. blk m n) \<subseteq> pages_of rngs" using regs_held(4) [OF C(2)] C(4) by blast
  ultimately show ?thesis using s0(1,3) c(1) C(1) acc by auto
qed

theorem frame_allocator_safe_witness:
  "\<exists>s0 a m held. map_ok small_env small_map \<and> pfa_new small_env plain_frame_list small_map blank_frames = Some s0 \<and>
    foldM (serve small_env plain_frame_list) [Alloc 1 (4096, 4096), Alloc 0 (0x200000, 0x200000), Store 0x200000 7, Split 0, Free True 3] (s0, []) =
      Some ((a, m), held) \<and> disjoint_family_on (blk m) (set held)"
  using frame_allocator_safe [OF plain_frame_list_laws small_env_ok small_map_ok, of blank_frames
    "[Alloc 1 (4096, 4096), Alloc 0 (0x200000, 0x200000), Store 0x200000 7, Split 0, Free True 3]"] small_map_ok by blast

text \<open>
  C6: After any sequence of requests an allocation returns. A frame it gives is of the smallest level
  that fits the layout, lies at the address of its pages, is aligned to its size, overlaps no frame
  that is held and leaves their metadata and all other memory alone; every byte of it is zero when a
  zeroed frame was asked for, even after clients have written to it. It gives none only when no level
  fits or no frame of that level or a larger one is free, and then nothing changes.
\<close>

theorem raw_alloc_frame_fresh:
  assumes "frame_list_laws ops its" and "env_ok env" and "map_ok env mrs"
  shows "\<exists>s0 a m held x a' m'. pfa_new env ops mrs m0 = Some s0 \<and> foldM (serve env ops) reqs (s0, []) = Some ((a, m), held) \<and>
    raw_alloc_frame env ops flags layout (a, m) = Some (x, a', m') \<and> (case x of
      None \<Rightarrow> a' = a \<and> m' = m \<and> (\<forall>i. layout_level layout = Some i \<longrightarrow> exhausted its True False i (pfa_regions a))
    | Some n \<Rightarrow> layout_level layout = Some (lvl m' n) \<and> fr_pa (fm_frames m' n) = page_addr n \<and> 512 ^ lvl m' n dvd n \<and>
        (\<forall>k\<in>set held. blk m' n \<inter> blk m k = {} \<and> fm_frames m' k = fm_frames m k) \<and>
        (\<forall>b. b div PAGE \<notin> blk m' n \<longrightarrow> fm_mem m' b = fm_mem m b) \<and>
        (flags AND PF_ZEROED = PF_ZEROED \<longrightarrow> (\<forall>b. b div PAGE \<in> blk m' n \<longrightarrow> fm_mem m' b = 0)))"
proof -
  from assms obtain s0 rngs where s0: "pfa_new env ops mrs m0 = Some s0" "cinv env its rngs (s0, [])" by (rule boot_ok)
  obtain a m held where c: "foldM (serve env ops) reqs (s0, []) = Some ((a, m), held)" "cinv env its rngs ((a, m), held)"
    using serve_all [OF assms(1,2) s0(2), of reqs] by auto
  have p: "pinv env its rngs (a, m) (set held)" using c(2) by (simp add: cinv_def)
  obtain x a' m' where x: "raw_alloc_frame env ops flags layout (a, m) = Some (x, a', m')" "case x of
      None \<Rightarrow> (a', m') = (a, m) \<and> (\<forall>i. layout_level layout = Some i \<longrightarrow> exhausted its True False i (pfa_regions a))
    | Some n \<Rightarrow> allocated env its rngs (set held) (bit flags 0) layout m n (a', m')"
    using raw_alloc_frame_ok [OF assms(1,2) p, of flags layout] by auto
  show ?thesis
  proof (cases x)
    case None
    then show ?thesis using s0(1) c(1) x by auto
  next
    case (Some n)
    then have al: "pinv env its rngs (a', m') (insert n (set held))" "n \<notin> set held" "layout_level layout = Some (lvl m' n)"
      "\<forall>b. b div PAGE \<notin> blk m' n \<longrightarrow> fm_mem m' b = fm_mem m b" "bit flags 0 \<longrightarrow> (\<forall>b. b div PAGE \<in> blk m' n \<longrightarrow> fm_mem m' b = 0)"
      "\<forall>k\<in>set held. fm_frames m' k = fm_frames m k" using x(2) by (simp_all add: allocated_def)
    have reg: "regs_inv env its (pfa_regions a') m' (insert n (set held)) rngs" "apart rngs" "insert n (set held) \<subseteq> pages_of rngs"
      using al(1) by (simp_all add: pinv_def)
    have ok: "fok m' n False True" using regs_held(1) [OF reg(1)] reg(3) by simp
    have dis: "blk m' n \<inter> blk m k = {}" if "k \<in> set held" for k
    proof -
      have "blk m k = blk m' k" using al(6) that by (simp add: blk_def lvl_def)
      moreover have "n \<noteq> k" using al(2) that by blast
      ultimately show ?thesis using regs_unique [OF reg(1,2), of n k] reg(3) that by blast
    qed
    show ?thesis using s0(1) c(1) x(1) Some al ok dis
      by (intro exI [of _ s0] exI [of _ a] exI [of _ m] exI [of _ held] exI [of _ x] exI [of _ a'] exI [of _ m']) (simp add: fok_def flag_test)
  qed
qed

theorem raw_alloc_frame_fresh_witness:
  "\<exists>s0 a m held x a' m'. map_ok small_env small_map \<and> pfa_new small_env plain_frame_list small_map blank_frames = Some s0 \<and>
    foldM (serve small_env plain_frame_list) [Alloc 0 (4096, 4096), Store 0x9000 7, Free False 0] (s0, []) = Some ((a, m), held) \<and>
    raw_alloc_frame small_env plain_frame_list 1 (4096, 4096) (a, m) = Some (x, a', m')"
  using raw_alloc_frame_fresh [OF plain_frame_list_laws small_env_ok small_map_ok, of blank_frames "[Alloc 0 (4096, 4096), Store 0x9000 7, Free False 0]" 1 "(4096, 4096)"]
    small_map_ok by blast

text \<open>
  C27: Copying part of a zeroed frame into a frame that is not zeroed fills only the given part with
  zeros but marks the whole frame as zeroed: the bytes outside that part keep their old values.
\<close>

theorem copy_contents_marks_whole_frame:
  assumes "\<not> fr_contains (fm_frames m n) PF_ZEROED" and "fr_contains (fm_frames m other) PF_ZEROED" and "n \<noteq> other"
    and "fr_flags (fm_frames m n) AND PF_LOCKED = 0" and "phys_to_virt (fe_off env) (fr_pa (fm_frames m n)) \<noteq> None"
  shows "\<exists>m'. copy_contents_from env n other doff soff len m = Some m' \<and> fr_contains (fm_frames m' n) PF_ZEROED \<and>
    (\<forall>b. b \<notin> {fr_addr (fm_frames m n) + doff ..< fr_addr (fm_frames m n) + doff + len} \<longrightarrow> fm_mem m' b = fm_mem m b)"
  using assms by (auto simp: copy_contents_from_def fr_lock_def fr_unlock_def mem_fill_def bit_ops flag_test Let_def)

theorem copy_contents_marks_whole_frame_witness:
  "\<exists>m'. copy_contents_from small_env 0 1 0 0 8 (set_frame 1 \<lparr>fr_pa = PhysAddr 4096, fr_flags = PF_ZEROED, fr_level = 0, fr_linked = False\<rparr>
      (blank_frames\<lparr>fm_mem := (\<lambda>_. 7)\<rparr>)) = Some m' \<and> fr_contains (fm_frames m' 0) PF_ZEROED \<and> fm_mem m' 8 = 7"
  using copy_contents_marks_whole_frame [of "set_frame 1 \<lparr>fr_pa = PhysAddr 4096, fr_flags = PF_ZEROED, fr_level = 0, fr_linked = False\<rparr>
      (blank_frames\<lparr>fm_mem := (\<lambda>_. 7)\<rparr>)" 0 1 small_env 0 0 8]
  by (force simp: blank_frames_def small_env_def fr_addr_def phys_to_virt_def VirtAddr_new_def checked_add_def)

end
