(* ===== verification/Spec2Isabelle.thy ===== *)
theory Spec2Isabelle
  imports Prelude Address Page_Table Raw_Queue_Conc Pipe Run_Queue Id_Counter Hash_Churn Frame_Requests
begin

text \<open>
  Verification of the Twizzler operating system.
\<close>

end
